(* ===== verification/Xell_Prelude.thy ===== *)
theory Xell_Prelude
  imports Main "HOL-Library.Word"
begin

unbundle bit_operations_syntax

text \<open>
  Shared vocabulary of the XeLL development: the machine integer types of
  \<^verbatim>\<open>include/types.h\<close> on the 64-bit big-endian target, the byte memory that pointers
  address, byte strings terminated by a zero byte, and the lemmas on them that every
  component uses. Memory is a total function from 64-bit addresses to bytes; pointer
  arithmetic wraps modulo \<open>2 ^ 64\<close> as it does on the machine.
\<close>

section \<open>Machine types\<close>

type_synonym u8 = "8 word"
type_synonym u16 = "16 word"
type_synonym u32 = "32 word"
type_synonym u64 = "64 word"
type_synonym addr = "64 word"
type_synonym mem = "addr \<Rightarrow> u8"

named_theorems mem_simps \<open>reading and writing ranges of memory\<close>

text \<open>The C literal strings of the source, as the bytes the compiler stores (without the zero).\<close>

definition bytes :: "string \<Rightarrow> u8 list" where
  "bytes s = map of_char s"

abbreviation ch :: "char \<Rightarrow> u8" where
  "ch c \<equiv> of_char c"

text \<open>
  A read-only zero-terminated string that a routine walks through with a pointer of its own is a list;
  the zero byte is what a look past its end sees.
\<close>

fun peek :: "u8 list \<Rightarrow> u8" where
  "peek [] = 0"
| "peek (c # cs) = c"

text \<open>A C truth value.\<close>

definition c_bool :: "bool \<Rightarrow> int" where
  "c_bool b = (if b then 1 else 0)"

text \<open>The value an \<^verbatim>\<open>int\<close> has after a computation that leaves its 32 bits.\<close>

definition s32 :: "int \<Rightarrow> int" where
  "s32 n = sint (word_of_int n :: u32)"

lemma s32_id: "0 \<le> n \<Longrightarrow> n < 2 ^ 31 \<Longrightarrow> s32 n = n"
  by (simp add: s32_def sint_uint signed_take_bit_take_bit uint_word_of_int signed_take_bit_int_eq_self_iff)

text \<open>Where the boot methods put the image they load.\<close>

definition LOADER_RAW :: addr where "LOADER_RAW = 0x8000000004000000"
definition LOADER_MAXSIZE :: int where "LOADER_MAXSIZE = 0x1000000"

lemma uint_inject [simp]: "uint (a :: 'a :: len word) = uint b \<longleftrightarrow> a = b"
  by (simp add: word_uint_eq_iff)

lemma neg_le_uint [simp]: "- numeral k \<le> uint (w :: 'a :: len word)"
  by (rule order_trans [OF _ uint_ge_0]) simp

lemma uint_pos_iff [simp]: "0 < uint (w :: 'a :: len word) \<longleftrightarrow> w \<noteq> 0"
  using uint_ge_0 [of w] uint_0_iff [of w] by linarith

lemma unat_ucast_u32_u64 [simp]: "unat (ucast (w :: u32) :: u64) = unat w"
proof -
  have "unat w < 2 ^ 32" using unsigned_less [of w, where ?'a = nat] by simp
  then show ?thesis by (simp add: unsigned_ucast_eq take_bit_nat_eq_self)
qed

lemma unat_ucast_u64_u32: "unat (w :: u64) < 2 ^ 32 \<Longrightarrow> unat (ucast w :: u32) = unat w"
  by (simp add: unsigned_ucast_eq take_bit_nat_eq_self)

text \<open>Rounding up.\<close>

lemma int_ceil_bounds:
  fixes n d k :: int
  assumes "0 < d" and "k = (n + d - 1) div d"
  shows "n \<le> d * k \<and> d * k < n + d"
proof -
  have "d * k + (n + d - 1) mod d = n + d - 1" unfolding assms(2) by (rule mult_div_mod_eq)
  then show ?thesis using pos_mod_bound [OF assms(1), of "n + d - 1"] pos_mod_sign [OF assms(1), of "n + d - 1"] by linarith
qed

section \<open>Masks\<close>

lemma and_mask_take_bit: "(w :: 'a :: len word) AND (2 ^ k - 1) = take_bit k w"
  by (simp add: take_bit_eq_mask mask_eq_exp_minus_1)

lemma and_not_mask: "(w :: 'a :: len word) AND NOT (2 ^ k - 1) = w - take_bit k w"
proof -
  have "(w AND mask k) + (w AND NOT (mask k)) = w"
    by (subst disjunctive_add_eq_or) (auto simp: bit_eq_iff bit_simps)
  then show ?thesis
    by (simp add: take_bit_eq_mask mask_eq_exp_minus_1 algebra_simps)
qed

lemma unat_take_bit_mod: "unat (take_bit k (w :: 'a :: len word)) = unat w mod 2 ^ k"
  by (simp only: unsigned_take_bit_eq take_bit_nat_def)

lemma take_bit_add_exp: "take_bit k ((w :: 'a :: len word) + 2 ^ k) = take_bit k w"
proof (cases "k < LENGTH('a)")
  case True
  then have "(2 :: nat) ^ k dvd 2 ^ LENGTH('a)" by (simp add: le_imp_power_dvd)
  moreover have "unat ((2 :: 'a word) ^ k) = 2 ^ k" using True using of_nat_inverse [of "2 ^ k", where ?'a = 'a] by simp
  ultimately show ?thesis
    by (simp add: word_unat_eq_iff unat_take_bit_mod unat_word_ariths mod_mod_cancel)
next
  case False
  then have "(2 :: 'a word) ^ k = 0" by simp
  then show ?thesis by (simp only: add_0_right)
qed

lemma align_up:
  "((w :: 'a :: len word) + 2 ^ k) AND NOT (2 ^ k - 1) = w + (2 ^ k - take_bit k w)"
  by (simp add: and_not_mask take_bit_add_exp)

section \<open>Ranges of memory\<close>

fun load_list :: "mem \<Rightarrow> addr \<Rightarrow> nat \<Rightarrow> u8 list" where
  "load_list m a 0 = []"
| "load_list m a (Suc n) = m a # load_list m (a + 1) n"

fun store_list :: "mem \<Rightarrow> addr \<Rightarrow> u8 list \<Rightarrow> mem" where
  "store_list m a [] = m"
| "store_list m a (x # xs) = store_list (m(a := x)) (a + 1) xs"

text \<open>The addresses \<open>a, a + 1, \<dots>, a + n - 1\<close>.\<close>

definition region :: "addr \<Rightarrow> nat \<Rightarrow> addr set" where
  "region a n = (\<lambda>i. a + of_nat i) ` {..<n}"

text \<open>Bytes \<open>xs\<close>, none of them zero, at \<open>a\<close> and a zero byte behind them.\<close>

definition cstr :: "mem \<Rightarrow> addr \<Rightarrow> u8 list \<Rightarrow> bool" where
  "cstr m a xs \<longleftrightarrow> load_list m a (Suc (length xs)) = xs @ [0] \<and> 0 \<notin> set xs"

lemma region_0 [simp]: "region a 0 = {}"
  by (simp add: region_def)

lemma region_Suc: "region a (Suc n) = insert a (region (a + 1) n)"
proof -
  have "{..<Suc n} = insert 0 (Suc ` {..<n})"
    by (rule lessThan_Suc_eq_insert_0)
  then have "region a (Suc n) = insert a ((\<lambda>i. a + of_nat (Suc i)) ` {..<n})"
    by (simp add: region_def image_image)
  then show ?thesis
    by (simp add: region_def algebra_simps)
qed

lemma region_memI: "i < n \<Longrightarrow> a + of_nat i \<in> region a n"
  by (auto simp: region_def)

lemma region_add: "region a (n + k) = region a n \<union> region (a + of_nat n) k"
  by (induction n arbitrary: a) (auto simp: region_Suc algebra_simps)

lemma region_mono: "n \<le> k \<Longrightarrow> region a n \<subseteq> region a k"
  by (auto simp: region_def)

lemma region_sub: "i + k \<le> n \<Longrightarrow> region (a + of_nat i) k \<subseteq> region a n"
  using region_add [of a i k] region_mono [of "i + k" n a] by auto

lemma of_nat_u64_inj: "i < 2 ^ 64 \<Longrightarrow> j < 2 ^ 64 \<Longrightarrow> (of_nat i :: u64) = of_nat j \<longleftrightarrow> i = j"
  proof
  assume ij: "i < 2 ^ 64" "j < 2 ^ 64" and eq: "(of_nat i :: u64) = of_nat j"
  have "unat (of_nat i :: u64) = i" "unat (of_nat j :: u64) = j"
    using ij by (simp_all add: unat_of_nat)
  with eq show "i = j" by metis
qed simp

lemma region_head_notin: "n < 2 ^ 64 \<Longrightarrow> a \<notin> region (a + 1) n"
proof
  assume n: "n < 2 ^ 64" and "a \<in> region (a + 1) n"
  then obtain i where i: "i < n" and "a = a + 1 + of_nat i"
    by (auto simp: region_def)
  then have "of_nat (Suc i) = (0 :: u64)"
    by (simp add: algebra_simps)
  moreover have "Suc i < 2 ^ 64"
    using i n by simp
  ultimately have "Suc i = 0"
    using of_nat_u64_inj [of "Suc i" 0] by simp
  then show False by simp
qed

lemma region_disjoint_nat:
  assumes "unat a + n \<le> unat b" and "unat b + k \<le> 2 ^ 64"
  shows "region a n \<inter> region b k = {}" and "region b k \<inter> region a n = {}"
proof -
  have "a + of_nat i \<noteq> b + of_nat j" if "i < n" "j < k" for i j
  proof
    assume eq: "a + of_nat i = b + of_nat j"
    have "unat (a + of_nat i) = unat a + i"
      using assms that by (subst unat_add_lem [THEN iffD1]) (auto simp: unat_of_nat)
    moreover have "unat (b + of_nat j) = unat b + j"
      using assms that by (subst unat_add_lem [THEN iffD1]) (auto simp: unat_of_nat)
    ultimately show False using eq assms that by simp
  qed
  then show "region a n \<inter> region b k = {}" by (auto simp: region_def)
  then show "region b k \<inter> region a n = {}" by blast
qed

lemma length_load_list [simp, mem_simps]: "length (load_list m a n) = n"
  by (induction n arbitrary: a) auto

lemma region_split_disjoint: "n + k \<le> 2 ^ 64 \<Longrightarrow> region a n \<inter> region (a + of_nat n) k = {}"
proof (rule ccontr)
  assume nk: "n + k \<le> 2 ^ 64" and "region a n \<inter> region (a + of_nat n) k \<noteq> {}"
  then obtain i j where "i < n" "j < k" "a + of_nat i = a + of_nat n + of_nat j" by (auto simp: region_def)
  then have "(of_nat i :: u64) = of_nat (n + j)" by (simp add: add.assoc)
  then have "i = n + j" using \<open>i < n\<close> \<open>j < k\<close> nk by (subst (asm) of_nat_u64_inj) auto
  with \<open>i < n\<close> show False by simp
qed

lemma load_list_nth: "i < n \<Longrightarrow> load_list m a n ! i = m (a + of_nat i)"
proof (induction n arbitrary: a i)
  case 0
  then show ?case by simp
next
  case (Suc n)
  then show ?case by (cases i) (auto simp: algebra_simps)
qed

lemma load_list_cong: "(\<And>x. x \<in> region a n \<Longrightarrow> m x = m' x) \<Longrightarrow> load_list m a n = load_list m' a n"
  by (induction n arbitrary: a) (auto simp: region_Suc)

lemma load_list_upd_other [mem_simps]:
  "x \<notin> region a n \<Longrightarrow> load_list (m(x := v)) a n = load_list m a n"
  by (rule load_list_cong) auto

lemma load_list_add: "load_list m a (n + k) = load_list m a n @ load_list m (a + of_nat n) k"
  by (induction n arbitrary: a) (auto simp: algebra_simps)

lemma take_load_list: "k \<le> n \<Longrightarrow> take k (load_list m a n) = load_list m a k"
  using load_list_add [of m a k "n - k"] by simp

lemma drop_load_list: "k \<le> n \<Longrightarrow> drop k (load_list m a n) = load_list m (a + of_nat k) (n - k)"
  using load_list_add [of m a k "n - k"] by simp

lemma store_list_other [mem_simps]:
  "x \<notin> region a (length xs) \<Longrightarrow> store_list m a xs x = m x"
  by (induction xs arbitrary: m a) (auto simp: region_Suc)

lemma store_list_append: "store_list m a (xs @ ys) = store_list (store_list m a xs) (a + of_nat (length xs)) ys"
  by (induction xs arbitrary: m a) (auto simp: algebra_simps)

lemma load_store_list [mem_simps]:
  "length xs \<le> 2 ^ 64 \<Longrightarrow> load_list (store_list m a xs) a (length xs) = xs"
proof (induction xs arbitrary: m a)
  case Nil
  then show ?case by simp
next
  case (Cons x xs)
  then have "a \<notin> region (a + 1) (length xs)"
    by (intro region_head_notin) simp
  then have "store_list (m(a := x)) (a + 1) xs a = x"
    by (simp add: store_list_other)
  with Cons show ?case by simp
qed

lemma load_store_other [mem_simps]:
  "region a n \<inter> region b (length xs) = {} \<Longrightarrow> load_list (store_list m b xs) a n = load_list m a n"
  by (rule load_list_cong) (auto intro: store_list_other)

lemma store_list_upd_comm:
  "x \<notin> region a (length xs) \<Longrightarrow> store_list (m(x := v)) a xs = (store_list m a xs)(x := v)"
proof (induction xs arbitrary: m a)
  case Nil
  then show ?case by simp
next
  case (Cons y ys)
  then have "x \<noteq> a" and "x \<notin> region (a + 1) (length ys)"
    by (auto simp: region_Suc)
  have "m(x := v, a := y) = m(a := y, x := v)"
    by (rule fun_upd_twist) (rule \<open>x \<noteq> a\<close>)
  with Cons.IH [OF \<open>x \<notin> region (a + 1) (length ys)\<close>, of "m(a := y)"] show ?case
    by (simp only: store_list.simps)
qed

section \<open>Zero-terminated strings\<close>

lemma cstr_Nil [simp]: "cstr m a [] \<longleftrightarrow> m a = 0"
  by (simp add: cstr_def)

lemma cstr_Cons [simp]: "cstr m a (x # xs) \<longleftrightarrow> m a = x \<and> x \<noteq> 0 \<and> cstr m (a + 1) xs"
  by (auto simp: cstr_def)

lemma cstr_unique: "cstr m a xs \<Longrightarrow> cstr m a ys \<Longrightarrow> xs = ys"
proof (induction xs arbitrary: a ys)
  case Nil
  then show ?case by (cases ys) auto
next
  case (Cons x xs)
  then show ?case by (cases ys) auto
qed

lemma cstr_load: "cstr m a xs \<Longrightarrow> load_list m a (length xs) = xs"
  by (induction xs arbitrary: a) auto

lemma cstr_end: "cstr m a xs \<Longrightarrow> m (a + of_nat (length xs)) = 0"
proof (induction xs arbitrary: a)
  case (Cons x xs)
  then show ?case using Cons.IH [of "a + 1"] by (simp add: add.assoc)
qed simp

lemma cstr_nonzero: "cstr m a xs \<Longrightarrow> 0 \<notin> set xs"
  by (simp add: cstr_def)

lemma cstr_drop: "cstr m a xs \<Longrightarrow> k \<le> length xs \<Longrightarrow> cstr m (a + of_nat k) (drop k xs)"
proof (induction xs arbitrary: a k)
  case Nil
  then show ?case by simp
next
  case (Cons x xs)
  show ?case
  proof (cases k)
    case 0
    with Cons.prems show ?thesis by simp
  next
    case (Suc k')
    with Cons.prems Cons.IH [of "a + 1" k'] show ?thesis by (simp add: add.assoc)
  qed
qed

lemma cstr_cong: "(\<And>x. x \<in> region a (Suc (length xs)) \<Longrightarrow> m x = m' x) \<Longrightarrow> cstr m a xs = cstr m' a xs"
proof -
  assume "\<And>x. x \<in> region a (Suc (length xs)) \<Longrightarrow> m x = m' x"
  then have "load_list m a (Suc (length xs)) = load_list m' a (Suc (length xs))"
    by (rule load_list_cong)
  then show ?thesis by (simp add: cstr_def)
qed

lemma cstr_store: "Suc (length xs) \<le> 2 ^ 64 \<Longrightarrow> 0 \<notin> set xs \<Longrightarrow> cstr (store_list m a (xs @ [0])) a xs"
  using load_store_list [of "xs @ [0]" m a] by (simp add: cstr_def del: load_list.simps)

section \<open>Multi-byte integers\<close>

text \<open>
  The target is big-endian: a load of a multi-byte integer takes the first byte as the most
  significant one. Byte-swapped device registers go through \<^verbatim>\<open>bswap_32\<close>.
\<close>

definition be32 :: "u8 \<Rightarrow> u8 \<Rightarrow> u8 \<Rightarrow> u8 \<Rightarrow> u32" where
  "be32 a b c d = push_bit 24 (ucast a) OR push_bit 16 (ucast b) OR push_bit 8 (ucast c) OR ucast d"

definition be32_bytes :: "u32 \<Rightarrow> u8 list" where
  "be32_bytes w = [ucast (drop_bit 24 w), ucast (drop_bit 16 w), ucast (drop_bit 8 w), ucast w]"

lemma u8_bit_high: "8 \<le> n \<Longrightarrow> \<not> bit (w :: u8) n"
  using bit_imp_le_length [of w n] by auto

lemma be32_bytes_be32: "be32_bytes (be32 a b c d) = [a, b, c, d]"
  by (auto simp: be32_def be32_bytes_def bit_eq_iff bit_simps u8_bit_high)

lemma be32_be32_bytes:
  "be32 (ucast (drop_bit 24 w)) (ucast (drop_bit 16 w)) (ucast (drop_bit 8 w)) (ucast w) = (w :: u32)"
proof (rule bit_word_eqI)
  fix n assume "n < LENGTH(32)"
  then consider "n < 8" | "8 \<le> n \<and> n < 16" | "16 \<le> n \<and> n < 24" | "24 \<le> n \<and> n < 32"
    by fastforce
  then show "bit (be32 (ucast (drop_bit 24 w)) (ucast (drop_bit 16 w)) (ucast (drop_bit 8 w)) (ucast w)) n
      = bit w n"
    by cases (auto simp: be32_def bit_simps)
qed

text \<open>The words of a sequence of bytes.\<close>

fun words :: "u8 list \<Rightarrow> u32 list" where
  "words (a # b # c # d # xs) = be32 a b c d # words xs"
| "words _ = []"

lemma words_bytes: "4 dvd length xs \<Longrightarrow> concat (map be32_bytes (words xs)) = xs"
proof (induction xs rule: words.induct)
  case (1 a b c d xs)
  then have "4 dvd length xs + 4" by (simp add: eval_nat_numeral)
  with 1 show ?case by (simp add: be32_bytes_be32)
qed (auto dest: dvd_imp_le)

lemma length_words: "length (words xs) = length xs div 4"
  by (induction xs rule: words.induct) auto

end
