(* ===== verification/Xell_Ctype.thy ===== *)
theory Xell_Ctype
  imports Xell_Prelude
begin

text \<open>
  The character classes of \<^verbatim>\<open>ctype.c\<close> and \<^verbatim>\<open>include/ctype.h\<close>: the class table as the
  source lays it out, the classification macros that index it and the two case
  conversions. The theorems say which bytes each class holds.
\<close>

section \<open>The class table\<close>

definition ct_U :: u8 where "ct_U = 0x01"
definition ct_L :: u8 where "ct_L = 0x02"
definition ct_D :: u8 where "ct_D = 0x04"
definition ct_C :: u8 where "ct_C = 0x08"
definition ct_P :: u8 where "ct_P = 0x10"
definition ct_S :: u8 where "ct_S = 0x20"
definition ct_X :: u8 where "ct_X = 0x40"
definition ct_SP :: u8 where "ct_SP = 0x80"

lemmas ct_defs = ct_U_def ct_L_def ct_D_def ct_C_def ct_P_def ct_S_def ct_X_def ct_SP_def

definition ctype_table :: "u8 list" where
  "ctype_table =
    [ct_C, ct_C, ct_C, ct_C, ct_C, ct_C, ct_C, ct_C] @
    [ct_C, ct_C OR ct_S, ct_C OR ct_S, ct_C OR ct_S, ct_C OR ct_S, ct_C OR ct_S, ct_C, ct_C] @
    [ct_C, ct_C, ct_C, ct_C, ct_C, ct_C, ct_C, ct_C] @
    [ct_C, ct_C, ct_C, ct_C, ct_C, ct_C, ct_C, ct_C] @
    [ct_S OR ct_SP, ct_P, ct_P, ct_P, ct_P, ct_P, ct_P, ct_P] @
    [ct_P, ct_P, ct_P, ct_P, ct_P, ct_P, ct_P, ct_P] @
    [ct_D, ct_D, ct_D, ct_D, ct_D, ct_D, ct_D, ct_D] @
    [ct_D, ct_D, ct_P, ct_P, ct_P, ct_P, ct_P, ct_P] @
    [ct_P, ct_U OR ct_X, ct_U OR ct_X, ct_U OR ct_X, ct_U OR ct_X, ct_U OR ct_X, ct_U OR ct_X, ct_U] @
    [ct_U, ct_U, ct_U, ct_U, ct_U, ct_U, ct_U, ct_U] @
    [ct_U, ct_U, ct_U, ct_U, ct_U, ct_U, ct_U, ct_U] @
    [ct_U, ct_U, ct_U, ct_P, ct_P, ct_P, ct_P, ct_P] @
    [ct_P, ct_L OR ct_X, ct_L OR ct_X, ct_L OR ct_X, ct_L OR ct_X, ct_L OR ct_X, ct_L OR ct_X, ct_L] @
    [ct_L, ct_L, ct_L, ct_L, ct_L, ct_L, ct_L, ct_L] @
    [ct_L, ct_L, ct_L, ct_L, ct_L, ct_L, ct_L, ct_L] @
    [ct_L, ct_L, ct_L, ct_P, ct_P, ct_P, ct_P, ct_C] @
    [0, 0, 0, 0, 0, 0, 0, 0, 0, 0, 0, 0, 0, 0, 0, 0] @
    [0, 0, 0, 0, 0, 0, 0, 0, 0, 0, 0, 0, 0, 0, 0, 0] @
    [ct_S OR ct_SP, ct_P, ct_P, ct_P, ct_P, ct_P, ct_P, ct_P, ct_P, ct_P, ct_P, ct_P, ct_P, ct_P, ct_P, ct_P] @
    [ct_P, ct_P, ct_P, ct_P, ct_P, ct_P, ct_P, ct_P, ct_P, ct_P, ct_P, ct_P, ct_P, ct_P, ct_P, ct_P] @
    [ct_U, ct_U, ct_U, ct_U, ct_U, ct_U, ct_U, ct_U, ct_U, ct_U, ct_U, ct_U, ct_U, ct_U, ct_U, ct_U] @
    [ct_U, ct_U, ct_U, ct_U, ct_U, ct_U, ct_U, ct_P, ct_U, ct_U, ct_U, ct_U, ct_U, ct_U, ct_U, ct_L] @
    [ct_L, ct_L, ct_L, ct_L, ct_L, ct_L, ct_L, ct_L, ct_L, ct_L, ct_L, ct_L, ct_L, ct_L, ct_L, ct_L] @
    [ct_L, ct_L, ct_L, ct_L, ct_L, ct_L, ct_L, ct_P, ct_L, ct_L, ct_L, ct_L, ct_L, ct_L, ct_L, ct_L]"

definition ismask :: "u8 \<Rightarrow> u8" where
  "ismask c = ctype_table ! unat c"

definition isdigit :: "u8 \<Rightarrow> bool" where
  "isdigit c \<longleftrightarrow> ismask c AND ct_D \<noteq> 0"

definition islower :: "u8 \<Rightarrow> bool" where
  "islower c \<longleftrightarrow> ismask c AND ct_L \<noteq> 0"

definition isupper :: "u8 \<Rightarrow> bool" where
  "isupper c \<longleftrightarrow> ismask c AND ct_U \<noteq> 0"

definition isspace :: "u8 \<Rightarrow> bool" where
  "isspace c \<longleftrightarrow> ismask c AND ct_S \<noteq> 0"

definition isxdigit :: "u8 \<Rightarrow> bool" where
  "isxdigit c \<longleftrightarrow> ismask c AND (ct_D OR ct_X) \<noteq> 0"

text \<open>\<^verbatim>\<open>c -= 'A'-'a'\<close> adds 32 and \<^verbatim>\<open>c -= 'a'-'A'\<close> subtracts it, modulo 256.\<close>

definition ctolower :: "u8 \<Rightarrow> u8" where
  "ctolower c = (if isupper c then c + 32 else c)"

definition ctoupper :: "u8 \<Rightarrow> u8" where
  "ctoupper c = (if islower c then c - 32 else c)"

section \<open>What the classes hold\<close>

lemma length_ctype_table: "length ctype_table = 256"
  by (simp add: ctype_table_def)

text \<open>A property of every byte and its class is checked by one walk over the table.\<close>

fun ctype_all :: "(u8 \<Rightarrow> u8 \<Rightarrow> bool) \<Rightarrow> u8 \<Rightarrow> u8 list \<Rightarrow> bool" where
  "ctype_all P c [] = True"
| "ctype_all P c (t # ts) = (P c t \<and> ctype_all P (c + 1) ts)"

lemma ctype_all_nth: "ctype_all P c ts \<Longrightarrow> i < length ts \<Longrightarrow> P (c + of_nat i) (ts ! i)"
proof (induction ts arbitrary: c i)
  case (Cons t ts)
  then show ?case by (cases i) (auto simp: add.assoc dest!: Cons.IH)
qed simp

lemma ismask_allI:
  assumes "ctype_all P 0 ctype_table"
  shows "P c (ismask c)"
proof -
  have "unat c < length ctype_table"
    using unsigned_less [of c, where ?'a = nat] by (simp add: length_ctype_table)
  with assms have "P (0 + of_nat (unat c)) (ismask c)"
    unfolding ismask_def by (rule ctype_all_nth)
  then show ?thesis by simp
qed

lemma isdigit_iff: "isdigit c \<longleftrightarrow> 48 \<le> c \<and> c \<le> 57"
  unfolding isdigit_def by (rule ismask_allI) code_simp

lemma isxdigit_iff:
  "isxdigit c \<longleftrightarrow> (48 \<le> c \<and> c \<le> 57) \<or> (65 \<le> c \<and> c \<le> 70) \<or> (97 \<le> c \<and> c \<le> 102)"
  unfolding isxdigit_def by (rule ismask_allI) code_simp

lemma islower_iff: "islower c \<longleftrightarrow> (97 \<le> c \<and> c \<le> 122) \<or> (223 \<le> c \<and> c \<noteq> 247)"
  unfolding islower_def by (rule ismask_allI) code_simp

lemma isupper_iff: "isupper c \<longleftrightarrow> (65 \<le> c \<and> c \<le> 90) \<or> (192 \<le> c \<and> c \<le> 222 \<and> c \<noteq> 215)"
  unfolding isupper_def by (rule ismask_allI) code_simp

lemma isspace_iff: "isspace c \<longleftrightarrow> (9 \<le> c \<and> c \<le> 13) \<or> c = 32 \<or> c = 160"
  unfolding isspace_def by (rule ismask_allI) code_simp

lemma ctoupper_lower: "97 \<le> c \<Longrightarrow> c \<le> 122 \<Longrightarrow> ctoupper c = c - 32"
  by (simp add: ctoupper_def islower_iff)

lemma ctoupper_other: "c < 97 \<or> (122 < c \<and> c < 223) \<Longrightarrow> ctoupper c = c"
  by (auto simp: ctoupper_def islower_iff word_le_nat_alt word_less_nat_alt)

text \<open>On 7-bit bytes the two conversions are the ASCII ones, idempotent and inverse on letters.\<close>

lemma ctoupper_ascii_idem: "c < 128 \<Longrightarrow> ctoupper (ctoupper c) = ctoupper c"
  unfolding ctoupper_def islower_iff by (auto simp: word_le_nat_alt word_less_nat_alt unat_sub_if' split: if_splits)

lemma ctolower_ctoupper_ascii: "97 \<le> c \<Longrightarrow> c \<le> 122 \<Longrightarrow> ctolower (ctoupper c) = c"
  unfolding ctolower_def ctoupper_def islower_iff isupper_iff
  by (auto simp: word_le_nat_alt word_less_nat_alt unat_sub_if' split: if_splits)

lemma ctoupper_ctolower_ascii: "65 \<le> c \<Longrightarrow> c \<le> 90 \<Longrightarrow> ctoupper (ctolower c) = c"
  unfolding ctolower_def ctoupper_def islower_iff isupper_iff
  by (auto simp: word_le_nat_alt word_less_nat_alt unat_word_ariths split: if_splits)

end
