(* ===== verification/Xell_String.thy ===== *)
theory Xell_String
  imports Xell_Prelude "HOL-Library.Monad_Syntax"
begin

text \<open>
  The string and memory routines of \<^verbatim>\<open>string.c\<close>. A pointer is an address, \<open>0\<close> is
  \<^verbatim>\<open>NULL\<close>, and a routine that writes returns the new memory. A loop that runs until it meets
  a zero byte has no bound of its own: it is a \<open>partial_function (option)\<close> whose value \<open>None\<close>
  is "does not return", and the lemmas prove that it returns on zero-terminated strings. A
  loop over a byte count is a recursion on the count. On the target \<^verbatim>\<open>char\<close> is unsigned.

  The lemmas give each routine's result on zero-terminated strings (\<open>cstr\<close>) and on
  ranges of memory, and what it leaves unchanged.
\<close>

section \<open>Routines bounded by a count\<close>

fun memset_loop :: "nat \<Rightarrow> addr \<Rightarrow> u8 \<Rightarrow> mem \<Rightarrow> mem" where
  "memset_loop 0 xs c m = m"
| "memset_loop (Suc n) xs c m = memset_loop n (xs + 1) c (m(xs := c))"

definition memset :: "addr \<Rightarrow> u32 \<Rightarrow> u64 \<Rightarrow> mem \<Rightarrow> mem" where
  "memset s c count m = memset_loop (unat count) s (ucast c) m"

fun memcpy_loop :: "nat \<Rightarrow> addr \<Rightarrow> addr \<Rightarrow> mem \<Rightarrow> mem" where
  "memcpy_loop 0 tmp s m = m"
| "memcpy_loop (Suc n) tmp s m = memcpy_loop n (tmp + 1) (s + 1) (m(tmp := m s))"

definition memcpy :: "addr \<Rightarrow> addr \<Rightarrow> u64 \<Rightarrow> mem \<Rightarrow> mem" where
  "memcpy dest src count m = memcpy_loop (unat count) dest src m"

fun memcmp_loop :: "nat \<Rightarrow> addr \<Rightarrow> addr \<Rightarrow> mem \<Rightarrow> int" where
  "memcmp_loop 0 su1 su2 m = 0"
| "memcmp_loop (Suc n) su1 su2 m =
     (let res = uint (m su1) - uint (m su2)
      in if res \<noteq> 0 then res else memcmp_loop n (su1 + 1) (su2 + 1) m)"

definition memcmp :: "addr \<Rightarrow> addr \<Rightarrow> u64 \<Rightarrow> mem \<Rightarrow> int" where
  "memcmp cs ct count m = memcmp_loop (unat count) cs ct m"

fun strncpy_loop :: "nat \<Rightarrow> addr \<Rightarrow> addr \<Rightarrow> mem \<Rightarrow> mem" where
  "strncpy_loop 0 dest src m = m"
| "strncpy_loop (Suc n) dest src m =
     (let m' = m(dest := m src)
      in if m src \<noteq> 0 then strncpy_loop n (dest + 1) (src + 1) m' else m')"

definition strncpy :: "addr \<Rightarrow> addr \<Rightarrow> u64 \<Rightarrow> mem \<Rightarrow> mem" where
  "strncpy dest src count m = strncpy_loop (unat count) dest src m"

fun strncmp_loop :: "nat \<Rightarrow> u8 \<Rightarrow> addr \<Rightarrow> addr \<Rightarrow> mem \<Rightarrow> u8" where
  "strncmp_loop 0 res cs ct m = res"
| "strncmp_loop (Suc n) res cs ct m =
     (let res' = m cs - m ct
      in if res' \<noteq> 0 \<or> m cs = 0 then res' else strncmp_loop n res' (cs + 1) (ct + 1) m)"

text \<open>The difference is kept in a \<^verbatim>\<open>signed char\<close> and read back with its sign.\<close>

definition strncmp :: "addr \<Rightarrow> addr \<Rightarrow> u64 \<Rightarrow> mem \<Rightarrow> int" where
  "strncmp cs ct count m = sint (strncmp_loop (unat count) 0 cs ct m)"

fun strnlen_loop :: "nat \<Rightarrow> addr \<Rightarrow> mem \<Rightarrow> addr" where
  "strnlen_loop 0 sc m = sc"
| "strnlen_loop (Suc n) sc m = (if m sc \<noteq> 0 then strnlen_loop n (sc + 1) m else sc)"

definition strnlen :: "addr \<Rightarrow> u64 \<Rightarrow> mem \<Rightarrow> u64" where
  "strnlen s count m = strnlen_loop (unat count) s m - s"

section \<open>Routines that run to the terminating zero\<close>

partial_function (option) strcpy_loop :: "addr \<Rightarrow> addr \<Rightarrow> mem \<Rightarrow> mem option" where
  "strcpy_loop dest src m =
     (let m' = m(dest := m src)
      in if m src \<noteq> 0 then strcpy_loop (dest + 1) (src + 1) m' else Some m')"

definition strcpy :: "addr \<Rightarrow> addr \<Rightarrow> mem \<Rightarrow> mem option" where
  "strcpy dest src m = strcpy_loop dest src m"

partial_function (option) strcmp_loop :: "addr \<Rightarrow> addr \<Rightarrow> mem \<Rightarrow> u8 option" where
  "strcmp_loop cs ct m =
     (let res = m cs - m ct
      in if res \<noteq> 0 \<or> m cs = 0 then Some res else strcmp_loop (cs + 1) (ct + 1) m)"

definition strcmp :: "addr \<Rightarrow> addr \<Rightarrow> mem \<Rightarrow> int option" where
  "strcmp cs ct m = map_option sint (strcmp_loop cs ct m)"

partial_function (option) strchr_loop :: "addr \<Rightarrow> u8 \<Rightarrow> mem \<Rightarrow> addr option" where
  "strchr_loop s c m =
     (if m s \<noteq> c then (if m s = 0 then Some 0 else strchr_loop (s + 1) c m) else Some s)"

definition strchr :: "addr \<Rightarrow> u32 \<Rightarrow> mem \<Rightarrow> addr option" where
  "strchr s c m = strchr_loop s (ucast c) m"

partial_function (option) strlen_loop :: "addr \<Rightarrow> mem \<Rightarrow> addr option" where
  "strlen_loop sc m = (if m sc \<noteq> 0 then strlen_loop (sc + 1) m else Some sc)"

definition strlen :: "addr \<Rightarrow> mem \<Rightarrow> u64 option" where
  "strlen s m = map_option (\<lambda>sc. sc - s) (strlen_loop s m)"

text \<open>\<open>strcat\<close> is in the part of the file the build leaves out; \<^verbatim>\<open>cdrom.c\<close> calls it.\<close>

definition strcat :: "addr \<Rightarrow> addr \<Rightarrow> mem \<Rightarrow> mem option" where
  "strcat dest src m = do { e \<leftarrow> strlen_loop dest m; strcpy_loop e src m }"

text \<open>The inner loop of \<open>strspn\<close> and \<open>strpbrk\<close>: is the byte one of the bytes of the string at \<open>a\<close>?\<close>

partial_function (option) str_member :: "u8 \<Rightarrow> addr \<Rightarrow> mem \<Rightarrow> bool option" where
  "str_member c a m =
     (if m a \<noteq> 0 then (if c = m a then Some True else str_member c (a + 1) m) else Some False)"

partial_function (option) strspn_loop :: "addr \<Rightarrow> addr \<Rightarrow> u64 \<Rightarrow> mem \<Rightarrow> u64 option" where
  "strspn_loop p accept count m =
     (if m p \<noteq> 0
      then do { b \<leftarrow> str_member (m p) accept m;
                if \<not> b then Some count else strspn_loop (p + 1) accept (count + 1) m }
      else Some count)"

definition strspn :: "addr \<Rightarrow> addr \<Rightarrow> mem \<Rightarrow> u64 option" where
  "strspn s accept m = strspn_loop s accept 0 m"

partial_function (option) strpbrk :: "addr \<Rightarrow> addr \<Rightarrow> mem \<Rightarrow> addr option" where
  "strpbrk sc1 ct m =
     (if m sc1 \<noteq> 0
      then do { b \<leftarrow> str_member (m sc1) ct m;
                if b then Some sc1 else strpbrk (sc1 + 1) ct m }
      else Some 0)"

text \<open>
  \<open>strtok\<close> keeps the rest of the string in the global \<^verbatim>\<open>___strtok\<close>, an argument and a
  result here: the result is the token, the new global and the memory.
\<close>

definition strtok :: "addr \<Rightarrow> addr \<Rightarrow> addr \<Rightarrow> mem \<Rightarrow> (addr \<times> addr \<times> mem) option" where
  "strtok s ct saved m =
     (let sbegin = (if s \<noteq> 0 then s else saved)
      in if sbegin = 0 then Some (0, saved, m)
         else do {
           n \<leftarrow> strspn sbegin ct m;
           let sbegin = sbegin + n;
           if m sbegin = 0 then Some (0, 0, m)
           else do {
             send \<leftarrow> strpbrk sbegin ct m;
             if send \<noteq> 0 \<and> m send \<noteq> 0
             then Some (sbegin, send + 1, m(send := 0))
             else Some (sbegin, send, m) } })"

text \<open>\<open>strsep\<close> takes and returns the pointer variable \<^verbatim>\<open>*s\<close>.\<close>

definition strsep :: "addr \<Rightarrow> addr \<Rightarrow> mem \<Rightarrow> (addr \<times> addr \<times> mem) option" where
  "strsep s ct m =
     (let sbegin = s
      in if sbegin = 0 then Some (0, s, m)
         else do {
           e \<leftarrow> strpbrk sbegin ct m;
           if e \<noteq> 0 then Some (sbegin, e + 1, m(e := 0)) else Some (sbegin, e, m) })"

section \<open>Filling, copying and comparing ranges\<close>

lemma memset_loop_store: "memset_loop n a c m = store_list m a (replicate n c)"
  by (induction n arbitrary: a m) auto

lemma memset_store: "memset s c count m = store_list m s (replicate (unat count) (ucast c))"
  by (simp add: memset_def memset_loop_store)

text \<open>
  The copy runs forward, so it is right as soon as no byte is overwritten before it is
  read: disjoint ranges, and also a destination that starts below the source.
\<close>

lemma memcpy_loop_forward:
  "(\<And>i j. i < j \<Longrightarrow> j < n \<Longrightarrow> d + of_nat i \<noteq> s + of_nat j) \<Longrightarrow>
     memcpy_loop n d s m = store_list m d (load_list m s n)"
proof (induction n arbitrary: d s m)
  case 0
  then show ?case by simp
next
  case (Suc n)
  have step: "d + 1 + of_nat i \<noteq> s + 1 + of_nat j" if "i < j" "j < n" for i j
    using Suc.prems [of "Suc i" "Suc j"] that by (simp add: algebra_simps)
  have "d \<notin> region (s + 1) n"
  proof
    assume "d \<in> region (s + 1) n"
    then obtain j where "j < n" and "d = s + 1 + of_nat j"
      by (auto simp: region_def)
    with Suc.prems [of 0 "Suc j"] show False by (simp add: algebra_simps)
  qed
  then show ?case
    by (simp add: Suc.IH [OF step] load_list_upd_other del: fun_upd_apply)
qed

lemma memcpy_forward:
  assumes "\<And>i j. i < j \<Longrightarrow> j < unat count \<Longrightarrow> dest + of_nat i \<noteq> src + of_nat j"
  shows "memcpy dest src count m = store_list m dest (load_list m src (unat count))"
  unfolding memcpy_def using assms by (rule memcpy_loop_forward)

lemma regions_disjoint_neq:
  "region a n \<inter> region b k = {} \<Longrightarrow> i < n \<Longrightarrow> j < k \<Longrightarrow> a + of_nat i \<noteq> b + of_nat j"
  using region_memI [of i n a] region_memI [of j k b] by auto

lemma regions_disjoint_forward:
  "region a n \<inter> region b n = {} \<Longrightarrow> i < j \<Longrightarrow> j < n \<Longrightarrow> a + of_nat i \<noteq> b + of_nat j"
  by (rule regions_disjoint_neq [where n = n and k = n]) auto

lemma memcpy_disjoint:
  "region dest (unat count) \<inter> region src (unat count) = {} \<Longrightarrow>
     memcpy dest src count m = store_list m dest (load_list m src (unat count))"
  by (rule memcpy_forward) (rule regions_disjoint_forward)

lemma memcmp_loop_0: "memcmp_loop n a b m = 0 \<longleftrightarrow> load_list m a n = load_list m b n"
  by (induction n arbitrary: a b) (auto simp: Let_def)

lemma memcmp_eq_0: "memcmp cs ct count m = 0 \<longleftrightarrow> load_list m cs (unat count) = load_list m ct (unat count)"
  by (simp add: memcmp_def memcmp_loop_0)

text \<open>The sign of \<open>memcmp\<close> is that of the first differing byte pair.\<close>

lemma memcmp_loop_sign:
  "load_list m a n = ps @ x # xs \<Longrightarrow> load_list m b n = ps @ y # ys \<Longrightarrow> x \<noteq> y \<Longrightarrow>
     memcmp_loop n a b m = uint x - uint y"
proof (induction n arbitrary: a b ps)
  case (Suc n)
  then show ?case by (cases ps) (auto simp: Let_def)
qed simp

section \<open>Strings\<close>

lemma strlen_loop_cstr: "cstr m s xs \<Longrightarrow> strlen_loop s m = Some (s + of_nat (length xs))"
proof (induction xs arbitrary: s)
  case Nil
  then show ?case by (subst strlen_loop.simps) simp
next
  case (Cons x xs)
  then show ?case using Cons.IH [of "s + 1"] by (subst strlen_loop.simps) (simp add: add.assoc)
qed

lemma strlen_cstr: "cstr m s xs \<Longrightarrow> strlen s m = Some (of_nat (length xs))"
  by (simp add: strlen_def strlen_loop_cstr)

lemma strnlen_loop_cstr: "cstr m s xs \<Longrightarrow> strnlen_loop n s m = s + of_nat (min n (length xs))"
proof (induction n arbitrary: s xs)
  case (Suc n)
  show ?case
  proof (cases xs)
    case Nil
    with Suc.prems show ?thesis by simp
  next
    case (Cons x ys)
    with Suc.prems Suc.IH [of "s + 1" ys] show ?thesis by (simp add: add.assoc)
  qed
qed simp

lemma strnlen_cstr: "cstr m s xs \<Longrightarrow> strnlen s count m = of_nat (min (unat count) (length xs))"
  by (simp add: strnlen_def strnlen_loop_cstr)

lemma strcpy_loop_cstr:
  "cstr m s xs \<Longrightarrow> (\<And>i j. i < j \<Longrightarrow> j \<le> length xs \<Longrightarrow> d + of_nat i \<noteq> s + of_nat j) \<Longrightarrow>
     strcpy_loop d s m = Some (store_list m d (xs @ [0]))"
proof (induction xs arbitrary: d s m)
  case Nil
  then show ?case by (subst strcpy_loop.simps) simp
next
  case (Cons x xs)
  have step: "d + 1 + of_nat i \<noteq> s + 1 + of_nat j" if "i < j" "j \<le> length xs" for i j
    using Cons.prems(2) [of "Suc i" "Suc j"] that by (simp add: algebra_simps)
  have "d \<notin> region (s + 1) (Suc (length xs))"
  proof
    assume "d \<in> region (s + 1) (Suc (length xs))"
    then obtain j where "j < Suc (length xs)" and "d = s + 1 + of_nat j"
      by (auto simp: region_def)
    with Cons.prems(2) [of 0 "Suc j"] show False by (simp add: algebra_simps)
  qed
  then have "cstr (m(d := x)) (s + 1) xs = cstr m (s + 1) xs"
    by (intro cstr_cong) auto
  with Cons.prems(1) have "cstr (m(d := x)) (s + 1) xs" by simp
  from Cons.prems(1) show ?case
    by (subst strcpy_loop.simps) (simp add: Cons.IH [OF \<open>cstr (m(d := x)) (s + 1) xs\<close> step] del: fun_upd_apply)
qed

lemma strcpy_cstr:
  assumes "cstr m src xs" and "region dest (Suc (length xs)) \<inter> region src (Suc (length xs)) = {}"
  shows "strcpy dest src m = Some (store_list m dest (xs @ [0]))"
  unfolding strcpy_def using assms(1)
  by (rule strcpy_loop_cstr) (rule regions_disjoint_forward [OF assms(2)], auto)

lemma strcat_cstr:
  assumes "cstr m dest xs" and "cstr m src ys"
    and "region (dest + of_nat (length xs)) (Suc (length ys)) \<inter> region src (Suc (length ys)) = {}"
  shows "strcat dest src m = Some (store_list m (dest + of_nat (length xs)) (ys @ [0]))"
  using strcpy_cstr [OF assms(2,3)] by (simp add: strcat_def strlen_loop_cstr [OF assms(1)] strcpy_def)

text \<open>\<open>strncpy\<close> stops behind the zero and pads nothing; without a zero in range it terminates nothing.\<close>

lemma strncpy_loop_store:
  "cstr m s xs \<Longrightarrow> region d (Suc (length xs)) \<inter> region s (Suc (length xs)) = {} \<Longrightarrow>
     strncpy_loop n d s m = store_list m d (take n (xs @ [0]))"
proof (induction n arbitrary: xs d s m)
  case (Suc n)
  show ?case
  proof (cases xs)
    case Nil
    with Suc.prems show ?thesis by simp
  next
    case (Cons x ys)
    have d: "d \<notin> region (s + 1) (Suc (length ys))"
      and dis: "region (d + 1) (Suc (length ys)) \<inter> region (s + 1) (Suc (length ys)) = {}"
      using Suc.prems(2) Cons region_Suc [of d "Suc (length ys)"] region_Suc [of s "Suc (length ys)"]
      by auto
    from d have "cstr (m(d := x)) (s + 1) ys = cstr m (s + 1) ys"
      by (intro cstr_cong) auto
    with Suc.prems(1) Cons have "cstr (m(d := x)) (s + 1) ys" by simp
    from Suc.prems(1) Cons show ?thesis
      by (simp add: Let_def Suc.IH [OF \<open>cstr (m(d := x)) (s + 1) ys\<close> dis] del: fun_upd_apply)
  qed
qed simp

lemma strncpy_cstr:
  "cstr m src xs \<Longrightarrow> region dest (Suc (length xs)) \<inter> region src (Suc (length xs)) = {} \<Longrightarrow>
     strncpy dest src count m = store_list m dest (take (unat count) (xs @ [0]))"
  unfolding strncpy_def by (rule strncpy_loop_store)

text \<open>The byte difference on which the comparison of two strings stops.\<close>

fun str_diff :: "u8 list \<Rightarrow> u8 list \<Rightarrow> u8" where
  "str_diff [] [] = 0"
| "str_diff [] (y # ys) = 0 - y"
| "str_diff (x # xs) [] = x"
| "str_diff (x # xs) (y # ys) = (if x = y then str_diff xs ys else x - y)"

lemma strcmp_loop_cstr:
  "cstr m cs xs \<Longrightarrow> cstr m ct ys \<Longrightarrow> strcmp_loop cs ct m = Some (str_diff xs ys)"
proof (induction xs ys arbitrary: cs ct rule: str_diff.induct)
  case (4 x xs y ys)
  show ?case
  proof (cases "x = y")
    case True
    with 4 show ?thesis by (subst strcmp_loop.simps) simp
  next
    case False
    with 4 show ?thesis by (subst strcmp_loop.simps) simp
  qed
qed (subst strcmp_loop.simps; simp)+

lemma strcmp_cstr: "cstr m cs xs \<Longrightarrow> cstr m ct ys \<Longrightarrow> strcmp cs ct m = Some (sint (str_diff xs ys))"
  by (simp add: strcmp_def strcmp_loop_cstr)

lemma str_diff_eq_0: "0 \<notin> set xs \<Longrightarrow> 0 \<notin> set ys \<Longrightarrow> str_diff xs ys = 0 \<longleftrightarrow> xs = ys"
  by (induction xs ys rule: str_diff.induct) auto

lemma strcmp_eq_0: "cstr m cs xs \<Longrightarrow> cstr m ct ys \<Longrightarrow> strcmp cs ct m = Some 0 \<longleftrightarrow> xs = ys"
  using strcmp_cstr [of m cs xs ct ys] cstr_nonzero [of m cs xs] cstr_nonzero [of m ct ys]
  by (simp add: str_diff_eq_0 signed_eq_0_iff)

lemma strncmp_loop_0:
  "cstr m cs xs \<Longrightarrow> cstr m ct ys \<Longrightarrow> strncmp_loop n 0 cs ct m = 0 \<longleftrightarrow> take n xs = take n ys"
proof (induction n arbitrary: cs ct xs ys)
  case (Suc n)
  then show ?case
    by (cases xs; cases ys) (auto simp: Let_def)
qed simp

lemma strncmp_eq_0:
  "cstr m cs xs \<Longrightarrow> cstr m ct ys \<Longrightarrow>
     strncmp cs ct count m = 0 \<longleftrightarrow> take (unat count) xs = take (unat count) ys"
  by (simp add: strncmp_def signed_eq_0_iff strncmp_loop_0)

lemma strchr_loop_cstr:
  "cstr m s xs \<Longrightarrow> strchr_loop s c m =
     Some (if c = 0 \<or> c \<in> set xs then s + of_nat (length (takeWhile (\<lambda>x. x \<noteq> c) xs)) else 0)"
proof (induction xs arbitrary: s)
  case Nil
  then show ?case by (subst strchr_loop.simps) simp
next
  case (Cons x xs)
  then show ?case using Cons.IH [of "s + 1"] by (subst strchr_loop.simps) (auto simp: add.assoc)
qed

lemma str_member_cstr: "cstr m a xs \<Longrightarrow> str_member c a m = Some (c \<in> set xs)"
proof (induction xs arbitrary: a)
  case Nil
  then show ?case by (subst str_member.simps) simp
next
  case (Cons x xs)
  then show ?case using Cons.IH [of "a + 1"] by (subst str_member.simps) auto
qed

lemma strspn_loop_cstr:
  "cstr m p xs \<Longrightarrow> cstr m accept as \<Longrightarrow>
     strspn_loop p accept count m = Some (count + of_nat (length (takeWhile (\<lambda>x. x \<in> set as) xs)))"
proof (induction xs arbitrary: p count)
  case Nil
  then show ?case by (subst strspn_loop.simps) simp
next
  case (Cons x xs)
  then show ?case using Cons.IH [of "p + 1" "count + 1"]
    by (subst strspn_loop.simps) (auto simp: str_member_cstr add.assoc)
qed

lemma strspn_cstr:
  "cstr m s xs \<Longrightarrow> cstr m accept as \<Longrightarrow>
     strspn s accept m = Some (of_nat (length (takeWhile (\<lambda>x. x \<in> set as) xs)))"
  by (simp add: strspn_def strspn_loop_cstr)

lemma strpbrk_cstr:
  "cstr m s xs \<Longrightarrow> cstr m ct ds \<Longrightarrow> strpbrk s ct m =
     Some (if set xs \<inter> set ds = {} then 0 else s + of_nat (length (takeWhile (\<lambda>x. x \<notin> set ds) xs)))"
proof (induction xs arbitrary: s)
  case Nil
  then show ?case by (subst strpbrk.simps) simp
next
  case (Cons x xs)
  then show ?case using Cons.IH [of "s + 1"]
    by (subst strpbrk.simps) (auto simp: str_member_cstr add.assoc)
qed

section \<open>Splitting a string at delimiters\<close>

text \<open>Cutting a string by a zero byte written over its \<open>k\<close>-th byte.\<close>

lemma cstr_cut:
  assumes "cstr m s xs" and "k < length xs" and "length xs < 2 ^ 64"
  shows "cstr (m(s + of_nat k := 0)) s (take k xs)"
    and "cstr (m(s + of_nat k := 0)) (s + of_nat k + 1) (drop (Suc k) xs)"
proof -
  have "cstr (m(s + of_nat k := 0)) s (take k xs) \<and>
      cstr (m(s + of_nat k := 0)) (s + of_nat k + 1) (drop (Suc k) xs)"
    using assms
  proof (induction xs arbitrary: s k)
    case (Cons x xs)
    show ?case
    proof (cases k)
      case 0
      have "s \<notin> region (s + 1) (Suc (length xs))"
        using Cons.prems(3) by (intro region_head_notin) simp
      then have "cstr (m(s := 0)) (s + 1) xs = cstr m (s + 1) xs"
        by (intro cstr_cong) auto
      with 0 Cons.prems(1) show ?thesis by (simp del: fun_upd_apply add: fun_upd_same)
    next
      case (Suc j)
      have IH: "cstr (m(s + 1 + of_nat j := 0)) (s + 1) (take j xs) \<and>
          cstr (m(s + 1 + of_nat j := 0)) (s + 1 + of_nat j + 1) (drop (Suc j) xs)"
        using Cons Suc by (intro Cons.IH) auto
      have "s + of_nat (Suc j) \<noteq> s"
        using of_nat_u64_inj [of "Suc j" 0] Cons.prems(2,3) Suc by simp
      with IH Cons.prems(1) Suc show ?thesis
        by (simp add: add.assoc fun_upd_other del: fun_upd_apply)
    qed
  qed simp
  then show "cstr (m(s + of_nat k := 0)) s (take k xs)"
    and "cstr (m(s + of_nat k := 0)) (s + of_nat k + 1) (drop (Suc k) xs)" by blast+
qed

text \<open>A string that does not wrap around the address space never touches address \<open>0\<close> behind its start.\<close>

lemma cstr_length_lt:
  assumes "cstr m s xs"
  shows "length xs < 2 ^ 64"
proof (rule ccontr)
  assume "\<not> length xs < 2 ^ 64"
  then have le: "2 ^ 64 \<le> length xs" by simp
  define k where "k = unat (of_nat (length xs) :: u64)"
  have k: "k < length xs"
    unfolding k_def using unsigned_less [of "of_nat (length xs) :: u64", where ?'a = nat] le by simp
  have "m (s + of_nat k) = xs ! k"
    using load_list_nth [OF k, of m s] cstr_load [OF assms] by simp
  moreover have "m (s + of_nat k) = 0"
    using cstr_end [OF assms] by (simp add: k_def)
  ultimately have "0 \<in> set xs"
    using k nth_mem [of k xs] by simp
  with cstr_nonzero [OF assms] show False by simp
qed

lemma takeWhile_notin_lt: "set xs \<inter> D \<noteq> {} \<Longrightarrow> length (takeWhile (\<lambda>x. x \<notin> D) xs) < length xs"
  by (induction xs) auto

lemma strpbrk_hit:
  assumes "cstr m s xs" and "cstr m ct ds" and "0 \<notin> region s (length xs)" and "set xs \<inter> set ds \<noteq> {}"
  shows "strpbrk s ct m = Some (s + of_nat (length (takeWhile (\<lambda>x. x \<notin> set ds) xs)))"
    and "s + of_nat (length (takeWhile (\<lambda>x. x \<notin> set ds) xs)) \<noteq> 0"
proof -
  show "strpbrk s ct m = Some (s + of_nat (length (takeWhile (\<lambda>x. x \<notin> set ds) xs)))"
    using strpbrk_cstr [OF assms(1,2)] assms(4) by simp
  have "s + of_nat (length (takeWhile (\<lambda>x. x \<notin> set ds) xs)) \<in> region s (length xs)"
    by (rule region_memI) (rule takeWhile_notin_lt [OF assms(4)])
  with assms(3) show "s + of_nat (length (takeWhile (\<lambda>x. x \<notin> set ds) xs)) \<noteq> 0" by metis
qed

text \<open>C39: \<open>strsep\<close> splits a string at its first delimiter byte: the token before it and the rest
  behind it are the two strings in the new memory, and without a delimiter the whole string is the
  token and the rest is \<^verbatim>\<open>NULL\<close>. No other byte of memory changes.\<close>

theorem strsep_splits:
  assumes "cstr m s xs" and "cstr m ct ds" and "s \<noteq> 0" and "0 \<notin> region s (length xs)"
  shows "let k = length (takeWhile (\<lambda>x. x \<notin> set ds) xs) in
     if set xs \<inter> set ds = {} then strsep s ct m = Some (s, 0, m)
     else \<exists>m'. strsep s ct m = Some (s, s + of_nat k + 1, m')
        \<and> cstr m' s (take k xs) \<and> cstr m' (s + of_nat k + 1) (drop (Suc k) xs)
        \<and> (\<forall>a. a \<noteq> s + of_nat k \<longrightarrow> m' a = m a)"
proof (cases "set xs \<inter> set ds = {}")
  case True
  with assms show ?thesis by (simp add: strsep_def strpbrk_cstr)
next
  case False
  note hit = strpbrk_hit [OF assms(1,2,4) False]
  note cut = cstr_cut [OF assms(1) takeWhile_notin_lt [OF False] cstr_length_lt [OF assms(1)]]
  from hit assms(3) have "strsep s ct m = Some (s, s + of_nat (length (takeWhile (\<lambda>x. x \<notin> set ds) xs)) + 1,
      m(s + of_nat (length (takeWhile (\<lambda>x. x \<notin> set ds) xs)) := 0))"
    by (simp add: strsep_def)
  with cut False show ?thesis by (simp add: Let_def del: fun_upd_apply) (simp add: fun_upd_apply)
qed

theorem strsep_splits_witness:
  "\<exists>m'. strsep 100 200 (store_list (store_list (\<lambda>_. 0) 100 [65, 44, 66, 0]) 200 [44, 0]) = Some (100, 102, m')
     \<and> cstr m' 100 [65] \<and> cstr m' 102 [66]"
proof -
  let ?m = "store_list (store_list (\<lambda>_. 0) 100 [65, 44, 66, 0]) 200 [44, 0]"
  have "cstr ?m 100 [65, 44, 66]" and "cstr ?m 200 [44]" and "(0 :: addr) \<notin> region 100 (length [65, 44, 66 :: u8])"
    by (simp_all add: region_Suc)
  from strsep_splits [OF this(1,2) _ this(3)] show ?thesis
    by (auto simp: Let_def)
qed

text \<open>\<open>strtok\<close> skips leading delimiters, from its argument or from the saved position, and
  returns the token up to the next delimiter, which it overwrites with a zero; the saved position
  is behind that zero, \<^verbatim>\<open>NULL\<close> when the token ends the string, and there is no token when only
  delimiters are left.\<close>

lemma strtok_next_token:
  assumes "p = (if s \<noteq> 0 then s else saved)" and "p \<noteq> 0"
    and "cstr m p xs" and "cstr m ct ds" and "0 \<notin> region p (length xs)"
    and "ys = dropWhile (\<lambda>x. x \<in> set ds) xs" and "t = p + of_nat (length xs - length ys)"
    and "k = length (takeWhile (\<lambda>x. x \<notin> set ds) ys)"
  shows "if ys = [] then strtok s ct saved m = Some (0, 0, m)
     else if set ys \<inter> set ds = {} then strtok s ct saved m = Some (t, 0, m) \<and> cstr m t ys
     else \<exists>m'. strtok s ct saved m = Some (t, t + of_nat k + 1, m')
        \<and> cstr m' t (take k ys) \<and> cstr m' (t + of_nat k + 1) (drop (Suc k) ys)"
proof -
  define j where "j = length (takeWhile (\<lambda>x. x \<in> set ds) xs)"
  have "length xs = length (takeWhile (\<lambda>x. x \<in> set ds) xs @ dropWhile (\<lambda>x. x \<in> set ds) xs)"
    by simp
  then have "length xs = j + length ys"
    unfolding j_def assms(6) length_append .
  then have t: "t = p + of_nat j" and jl: "j + length ys = length xs"
    using assms(7) by simp_all
  have "ys = drop j xs"
    using assms(6) by (simp add: j_def dropWhile_eq_drop)
  then have ct: "cstr m t ys"
    unfolding t using cstr_drop [OF assms(3), of j] jl by simp
  have reg: "0 \<notin> region t (length ys)"
    unfolding t using region_sub [of j "length ys" "length xs" p] assms(5) jl by auto
  have spn: "strspn p ct m = Some (of_nat j)"
    using strspn_cstr [OF assms(3,4)] by (simp add: j_def)
  note start = t [symmetric]
  consider (none) "ys = []" | (last) "ys \<noteq> []" "set ys \<inter> set ds = {}" | (cut) "set ys \<inter> set ds \<noteq> {}"
    by auto
  then show ?thesis
  proof cases
    case none
    with ct have "m t = 0" by simp
    with none assms(1,2) spn start show ?thesis by (simp add: strtok_def)
  next
    case last
    then have "m t \<noteq> 0" using ct by (cases ys) auto
    moreover have "strpbrk t ct m = Some 0"
      using strpbrk_cstr [OF ct assms(4)] last by simp
    ultimately have "strtok s ct saved m = Some (t, 0, m)"
      using assms(1,2) spn start by (simp add: strtok_def)
    with last ct show ?thesis by simp
  next
    case cut
    note hit = strpbrk_hit [OF ct assms(4) reg cut]
    note parts = cstr_cut [OF ct takeWhile_notin_lt [OF cut] cstr_length_lt [OF ct]]
    have kl: "k < length ys" unfolding assms(8) by (rule takeWhile_notin_lt [OF cut])
    have "m t \<noteq> 0" using ct cut by (cases ys) auto
    moreover have "m (t + of_nat k) \<noteq> 0"
      using load_list_nth [OF kl, of m t] cstr_load [OF ct] nth_mem [OF kl] cstr_nonzero [OF ct] by auto
    ultimately have "strtok s ct saved m = Some (t, t + of_nat k + 1, m(t + of_nat k := 0))"
      using hit [folded assms(8)] assms(1,2) spn start by (simp add: strtok_def del: fun_upd_apply)
    moreover have "ys \<noteq> []" using cut by auto
    ultimately show ?thesis
      using parts [folded assms(8)] cut by (simp del: fun_upd_apply)
  qed
qed

theorem strtok_next_token_witness:
  "\<exists>m'. strtok 0 200 100 (store_list (store_list (\<lambda>_. 0) 100 [44, 65, 44, 66, 0]) 200 [44, 0])
     = Some (101, 103, m') \<and> cstr m' 101 [65] \<and> cstr m' 103 [66]"
proof -
  let ?m = "store_list (store_list (\<lambda>_. 0) 100 [44, 65, 44, 66, 0]) 200 [44, 0]"
  have "cstr ?m 100 [44, 65, 44, 66]" and "cstr ?m 200 [44]"
    and "(0 :: addr) \<notin> region 100 (length [44, 65, 44, 66 :: u8])"
    by (simp_all add: region_Suc)
  from strtok_next_token [where s = 0 and saved = 100, OF refl _ _ this(2) _ refl refl refl,
      of "[44, 65, 44, 66]"] this
  show ?thesis by auto
qed

section \<open>The contracts of the routines\<close>

lemma memcpy_copies_facts:
  assumes "region dest (unat n) \<inter> region src (unat n) = {} \<or> (\<exists>d. 0 < d \<and> d + unat n \<le> 2 ^ 64 \<and> src = dest + of_nat d)"
  shows "load_list (memcpy dest src n m) dest (unat n) = load_list m src (unat n)"
    and "a \<notin> region dest (unat n) \<Longrightarrow> memcpy dest src n m a = m a"
proof -
  have "dest + of_nat i \<noteq> src + of_nat j" if "i < j" "j < unat n" for i j
    using assms
  proof
    assume "region dest (unat n) \<inter> region src (unat n) = {}"
    then show ?thesis using that by (rule regions_disjoint_forward)
  next
    assume "\<exists>d. 0 < d \<and> d + unat n \<le> 2 ^ 64 \<and> src = dest + of_nat d"
    then obtain d where d: "0 < d" "d + unat n \<le> 2 ^ 64" "src = dest + of_nat d" by blast
    have "(of_nat i :: u64) \<noteq> of_nat (d + j)"
      using of_nat_u64_inj [of i "d + j"] that d by simp
    with d(3) show ?thesis by (simp add: add.assoc)
  qed
  then have eq: "memcpy dest src n m = store_list m dest (load_list m src (unat n))"
    by (rule memcpy_forward)
  have "length (load_list m src (unat n)) \<le> 2 ^ 64"
    using unsigned_less [of n, where ?'a = nat] by simp
  from load_store_list [OF this, of m dest] eq
  show "load_list (memcpy dest src n m) dest (unat n) = load_list m src (unat n)" by simp
  show "a \<notin> region dest (unat n) \<Longrightarrow> memcpy dest src n m a = m a"
    using store_list_other [of a dest "load_list m src (unat n)" m] eq by simp
qed

text \<open>\<open>memcpy\<close> makes the destination a copy of what the source held, also when the two ranges
  overlap and the destination starts below the source, and changes nothing else.\<close>

lemma memcpy_copies:
  assumes "region dest (unat n) \<inter> region src (unat n) = {} \<or> (\<exists>d. 0 < d \<and> d + unat n \<le> 2 ^ 64 \<and> src = dest + of_nat d)"
  shows "load_list (memcpy dest src n m) dest (unat n) = load_list m src (unat n)
     \<and> (\<forall>a. a \<notin> region dest (unat n) \<longrightarrow> memcpy dest src n m a = m a)"
  using memcpy_copies_facts [OF assms] by blast

theorem memcpy_copies_witness:
  "load_list (memcpy 100 101 3 (store_list (\<lambda>_. 0) 100 [1, 2, 3, 4])) 100 3 = [2, 3, 4]
     \<and> memcpy 100 101 3 (store_list (\<lambda>_. 0) 100 [1, 2, 3, 4]) 103 = 4"
proof -
  have "\<exists>d. 0 < d \<and> d + unat (3 :: u64) \<le> 2 ^ 64 \<and> (101 :: addr) = 100 + of_nat d"
    by (rule exI [of _ 1]) simp
  then have h: "region (100 :: addr) (unat (3 :: u64)) \<inter> region 101 (unat (3 :: u64)) = {} \<or>
      (\<exists>d. 0 < d \<and> d + unat (3 :: u64) \<le> 2 ^ 64 \<and> (101 :: addr) = 100 + of_nat d)" by blast
  have three: "unat (3 :: u64) = Suc (Suc (Suc 0))" "(3 :: nat) = Suc (Suc (Suc 0))" by simp_all
  have "(103 :: addr) \<notin> region 100 (unat (3 :: u64))"
    unfolding three by (simp add: region_Suc)
  with memcpy_copies [OF h, of "store_list (\<lambda>_. 0) 100 [1, 2, 3, 4]"]
  show ?thesis unfolding three by simp
qed

text \<open>On zero-terminated strings \<open>strcpy\<close> returns and copies the string with its zero,
  and \<open>strlen\<close> of the copy is its length; no byte outside the destination changes.\<close>

lemma strcpy_strlen:
  assumes "cstr m src xs" and "region dest (Suc (length xs)) \<inter> region src (Suc (length xs)) = {}"
  shows "\<exists>m'. strcpy dest src m = Some m' \<and> cstr m' dest xs \<and> cstr m' src xs
     \<and> strlen dest m' = Some (of_nat (length xs))
     \<and> (\<forall>a. a \<notin> region dest (Suc (length xs)) \<longrightarrow> m' a = m a)"
proof -
  let ?m = "store_list m dest (xs @ [0])"
  have other: "?m a = m a" if "a \<notin> region dest (Suc (length xs))" for a
    using store_list_other [of a dest "xs @ [0]" m] that by simp
  have "cstr ?m dest xs"
    using cstr_store [of xs m dest] cstr_length_lt [OF assms(1)] cstr_nonzero [OF assms(1)] by simp
  moreover have "cstr ?m src xs"
    using cstr_cong [of src xs ?m m] other assms by auto
  ultimately show ?thesis
    using strcpy_cstr [OF assms] strlen_cstr [of ?m dest xs] other by auto
qed

theorem strcpy_strlen_witness:
  "\<exists>m'. strcpy 200 100 (store_list (\<lambda>_. 0) 100 [65, 66]) = Some m' \<and> cstr m' 200 [65, 66]
     \<and> strlen 200 m' = Some 2"
proof -
  have "cstr (store_list (\<lambda>_. 0) 100 [65, 66]) 100 [65, 66]" by simp
  moreover have "region (200 :: addr) (Suc (length [65, 66 :: u8])) \<inter> region 100 (Suc (length [65, 66 :: u8])) = {}"
    by (simp add: region_Suc)
  ultimately show ?thesis
    using strcpy_strlen [of "store_list (\<lambda>_. 0) 100 [65, 66]" 100 "[65, 66]" 200] by auto
qed

text \<open>The order of two strings by their first difference, a proper prefix first.\<close>

fun str_less :: "u8 list \<Rightarrow> u8 list \<Rightarrow> bool" where
  "str_less xs [] = False"
| "str_less [] (y # ys) = True"
| "str_less (x # xs) (y # ys) = (if x = y then str_less xs ys else x < y)"

lemma sint_diff_ascii:
  assumes "x < 128" and "(y :: u8) < 128"
  shows "sint (x - y) = uint x - uint y"
proof -
  have x: "uint x < 128" and y: "uint y < 128"
    using assms by (simp_all add: word_less_def)
  then have "sint x = uint x" and "sint y = uint y"
    by (simp_all add: sint_uint signed_take_bit_int_eq_self_iff)
  moreover have "- 128 \<le> uint x - uint y" and "uint x - uint y < 128"
    using x y uint_ge_0 [of x] uint_ge_0 [of y] by linarith+
  ultimately show ?thesis
    by (simp add: sint_word_ariths signed_take_bit_int_eq_self_iff)
qed

lemma str_diff_sign:
  assumes "0 \<notin> set xs" and "0 \<notin> set ys" and "\<forall>x \<in> set xs. x < 128" and "\<forall>y \<in> set ys. y < 128"
  shows "sint (str_diff xs ys) < 0 \<longleftrightarrow> str_less xs ys"
  using assms
proof (induction xs ys rule: str_diff.induct)
  case (2 y ys)
  then have "sint (0 - y) = uint (0 :: u8) - uint y"
    by (intro sint_diff_ascii) auto
  moreover have "0 < uint y" using 2 by simp
  ultimately show ?case by simp
next
  case (3 x xs)
  then have "sint (x - 0) = uint x - uint (0 :: u8)"
    by (intro sint_diff_ascii) auto
  then show ?case by simp
next
  case (4 x xs y ys)
  show ?case
  proof (cases "x = y")
    case True
    with 4 show ?thesis by simp
  next
    case False
    with 4 sint_diff_ascii [of x y] show ?thesis by (simp add: word_less_def)
  qed
qed simp

lemma strcmp_decides_facts:
  assumes "cstr m cs xs" and "cstr m ct ys"
  shows "\<exists>r. strcmp cs ct m = Some r \<and> (r = 0 \<longleftrightarrow> xs = ys)
      \<and> ((\<forall>x \<in> set xs \<union> set ys. x < 128) \<longrightarrow> (r < 0 \<longleftrightarrow> str_less xs ys))"
    and "strncmp cs ct n m = 0 \<longleftrightarrow> take (unat n) xs = take (unat n) ys"
  using strcmp_cstr [OF assms] strcmp_eq_0 [OF assms] strncmp_eq_0 [OF assms]
    str_diff_sign [of xs ys] cstr_nonzero [OF assms(1)] cstr_nonzero [OF assms(2)]
  by auto

text \<open>\<open>strcmp\<close> returns on zero-terminated strings and is zero exactly for equal strings, as
  \<open>strncmp\<close> is for equal prefixes; on 7-bit strings its sign is the order of the strings. (On
  other strings the difference does not fit the \<^verbatim>\<open>signed char\<close> it is kept in.)\<close>

lemma strcmp_decides:
  assumes "cstr m cs xs" and "cstr m ct ys"
  shows "(\<exists>r. strcmp cs ct m = Some r \<and> (r = 0 \<longleftrightarrow> xs = ys)
        \<and> ((\<forall>x \<in> set xs \<union> set ys. x < 128) \<longrightarrow> (r < 0 \<longleftrightarrow> str_less xs ys)))
     \<and> (\<forall>n. strncmp cs ct n m = 0 \<longleftrightarrow> take (unat n) xs = take (unat n) ys)"
  using strcmp_decides_facts [OF assms] by blast

theorem strcmp_decides_witness:
  "(\<exists>r. strcmp 100 200 (store_list (store_list (\<lambda>_. 0) 100 [65, 66]) 200 [65, 67]) = Some r \<and> r < 0)
     \<and> strncmp 100 200 1 (store_list (store_list (\<lambda>_. 0) 100 [65, 66]) 200 [65, 67]) = 0"
proof -
  let ?m = "store_list (store_list (\<lambda>_. 0) 100 [65, 66]) 200 [65, 67 :: u8]"
  have c: "cstr ?m 100 [65, 66]" "cstr ?m 200 [65, 67]" by simp_all
  obtain r where "strcmp 100 200 ?m = Some r" and "r < 0"
    using strcmp_decides [OF c] by auto
  moreover have "strncmp 100 200 1 ?m = 0"
    using strcmp_decides [OF c] by simp
  ultimately show ?thesis by blast
qed

end
