(* ===== verification/Xell_Vsprintf.thy ===== *)
theory Xell_Vsprintf
  imports Xell_Ctype
begin

text \<open>
  Number parsing and formatted output, \<^verbatim>\<open>vsprintf.c\<close>: \<open>simple_strtoul\<close>, \<open>skip_atoi\<close>,
  \<open>number\<close>, \<open>vsprintf\<close>, \<open>sprintf\<close> and \<open>printf\<close>. The format and the strings printed are
  zero-terminated byte strings, held as lists; the output buffer is the list of the bytes written so far. A
  variable argument list is a list of tagged values, and taking an argument that is missing or
  of another type, undefined in C, is \<open>None\<close>. Sizes and counts of type \<^verbatim>\<open>int\<close> are integers.

  The lemmas show that a printed number is read back, that the digit buffer \<^verbatim>\<open>tmp\<close> is large
  enough, how long a printed number is, and what \<open>vsprintf\<close> does with each conversion.
\<close>

section \<open>Reading numbers\<close>

definition digit_value :: "u8 \<Rightarrow> u64" where
  "digit_value c = (if isdigit c then ucast c - 48
     else ucast (if islower c then ctoupper c else c) - 65 + 10)"

fun strtoul_loop :: "u64 \<Rightarrow> u64 \<Rightarrow> u8 list \<Rightarrow> u64 \<times> u8 list" where
  "strtoul_loop base result [] = (result, [])"
| "strtoul_loop base result (c # cp) =
     (if isxdigit c \<and> digit_value c < base
      then strtoul_loop base (result * base + digit_value c) cp
      else (result, c # cp))"

text \<open>The result and the string behind the number (\<^verbatim>\<open>*endp\<close>).\<close>

definition simple_strtoul :: "u8 list \<Rightarrow> u32 \<Rightarrow> u64 \<times> u8 list" where
  "simple_strtoul cp base =
     (let (cp, base) =
        (if peek cp = ch (CHR ''0'')
         then (let cp = tl cp;
                   (cp, base) = (if peek cp = ch (CHR ''x'') \<and> isxdigit (peek (tl cp)) then (tl cp, 16) else (cp, base));
                   base = (if base = 0 then 8 else base)
               in (cp, base))
         else (cp, base));
          base = (if base = 0 then 10 else base)
      in strtoul_loop (ucast base) 0 cp)"

definition simple_strtol :: "u8 list \<Rightarrow> u32 \<Rightarrow> u64 \<times> u8 list" where
  "simple_strtol cp base =
     (if peek cp = ch (CHR ''-'')
      then (let (r, e) = simple_strtoul (tl cp) base in (- r, e))
      else simple_strtoul cp base)"

definition is_digit :: "u8 \<Rightarrow> bool" where
  "is_digit c \<longleftrightarrow> ch (CHR ''0'') \<le> c \<and> c \<le> ch (CHR ''9'')"

fun skip_atoi :: "int \<Rightarrow> u8 list \<Rightarrow> int \<times> u8 list" where
  "skip_atoi i [] = (i, [])"
| "skip_atoi i (c # s) = (if is_digit c then skip_atoi (i * 10 + uint c - 48) s else (i, c # s))"

section \<open>Printing a number\<close>

definition ZEROPAD :: u32 where "ZEROPAD = 1"
definition SIGN :: u32 where "SIGN = 2"
definition PLUS :: u32 where "PLUS = 4"
definition SPACE :: u32 where "SPACE = 8"
definition LEFT :: u32 where "LEFT = 16"
definition SPECIAL :: u32 where "SPECIAL = 32"
definition LARGE :: u32 where "LARGE = 64"

lemmas flag_defs = ZEROPAD_def SIGN_def PLUS_def SPACE_def LEFT_def SPECIAL_def LARGE_def

text \<open>
  The division loop fills \<^verbatim>\<open>tmp\<close> from the least significant digit. A base below 2 is
  refused before the loop starts; the guard here keeps the recursion total.
\<close>

function num_digits :: "u8 list \<Rightarrow> u64 \<Rightarrow> u64 \<Rightarrow> u8 list" where
  "num_digits digits base num =
     (if num = 0 \<or> base < 2 then []
      else digits ! unat (num mod base) # num_digits digits base (num div base))"
  by pat_completeness auto
termination
proof (relation "measure (\<lambda>(digits, base, num). unat num)")
  fix digits :: "u8 list" and base num :: u64
  assume "\<not> (num = 0 \<or> base < 2)"
  then have "0 < unat num" and "2 \<le> unat base"
    by (auto simp: word_less_nat_alt unat_gt_0)
  then show "((digits, base, num div base), (digits, base, num)) \<in> measure (\<lambda>(digits, base, num). unat num)"
    by (simp add: unat_div)
qed simp

declare num_digits.simps [simp del]

text \<open>
  \<^verbatim>\<open>while (size-- > 0) *str++ = c\<close>: the bytes written and the value \<^verbatim>\<open>size\<close> is left with.
\<close>

definition pad_post :: "int \<Rightarrow> u8 \<Rightarrow> u8 list \<times> int" where
  "pad_post sz c = (replicate (nat sz) c, if 0 < sz then -1 else sz - 1)"

definition lower_digits :: "u8 list" where
  "lower_digits = bytes ''0123456789abcdefghijklmnopqrstuvwxyz''"

definition upper_digits :: "u8 list" where
  "upper_digits = bytes ''0123456789ABCDEFGHIJKLMNOPQRSTUVWXYZ''"

definition number :: "u8 list \<Rightarrow> u64 \<Rightarrow> int \<Rightarrow> int \<Rightarrow> int \<Rightarrow> u32 \<Rightarrow> u8 list option" where
  "number str num base sz precision ty =
     (let digits = (if ty AND LARGE \<noteq> 0 then upper_digits else lower_digits);
          ty = (if ty AND LEFT \<noteq> 0 then ty AND NOT ZEROPAD else ty)
      in if base < 2 \<or> base > 36 then None
         else
          (let c = (if ty AND ZEROPAD \<noteq> 0 then ch (CHR ''0'') else ch (CHR '' ''));
               (sign, num, sz) =
                 (if ty AND SIGN \<noteq> 0
                  then (if sint num < 0 then (ch (CHR ''-''), - num, sz - 1)
                        else if ty AND PLUS \<noteq> 0 then (ch (CHR ''+''), num, sz - 1)
                        else if ty AND SPACE \<noteq> 0 then (ch (CHR '' ''), num, sz - 1)
                        else (0, num, sz))
                  else (0, num, sz));
               sz = (if ty AND SPECIAL \<noteq> 0
                       then (if base = 16 then sz - 2 else if base = 8 then sz - 1 else sz)
                       else sz);
               tmp = (if num = 0 then [ch (CHR ''0'')] else num_digits digits (of_int base) num);
               i = int (length tmp);
               precision = (if i > precision then i else precision);
               sz = sz - precision;
               (left_pad, sz) = (if ty AND (ZEROPAD OR LEFT) = 0 then pad_post sz (ch (CHR '' '')) else ([], sz));
               sign_out = (if sign \<noteq> 0 then [sign] else []);
               prefix = (if ty AND SPECIAL \<noteq> 0
                         then (if base = 8 then [ch (CHR ''0'')]
                               else if base = 16 then [ch (CHR ''0''), digits ! 33] else [])
                         else []);
               (zero_pad, sz) = (if ty AND LEFT = 0 then pad_post sz c else ([], sz));
               zeros = replicate (nat (precision - i)) (ch (CHR ''0''));
               (right_pad, sz) = pad_post sz (ch (CHR '' ''))
           in Some (str @ left_pad @ sign_out @ prefix @ zero_pad @ zeros @ rev tmp @ right_pad)))"

section \<open>Formatted output\<close>

text \<open>
  What the caller passed: an \<^verbatim>\<open>int\<close> (or \<^verbatim>\<open>unsigned int\<close>), a \<^verbatim>\<open>long\<close>, a pointer, or a
  string (\<open>None\<close> is the null pointer).
\<close>

datatype varg = VInt u32 | VLong u64 | VPtr u64 | VStr "u8 list option"

fun parse_flags :: "u8 list \<Rightarrow> u32 \<Rightarrow> u32 \<times> u8 list" where
  "parse_flags [] flags = (flags, [])"
| "parse_flags (c # fmt) flags =
     (if c = ch (CHR ''-'') then parse_flags fmt (flags OR LEFT)
      else if c = ch (CHR ''+'') then parse_flags fmt (flags OR PLUS)
      else if c = ch (CHR '' '') then parse_flags fmt (flags OR SPACE)
      else if c = ch (CHR ''#'') then parse_flags fmt (flags OR SPECIAL)
      else if c = ch (CHR ''0'') then parse_flags fmt (flags OR ZEROPAD)
      else (flags, c # fmt))"

fun va_int :: "varg list \<Rightarrow> (u32 \<times> varg list) option" where
  "va_int (VInt n # args) = Some (n, args)"
| "va_int _ = None"

definition parse_width :: "u8 list \<Rightarrow> varg list \<Rightarrow> u32 \<Rightarrow> (int \<times> u32 \<times> u8 list \<times> varg list) option" where
  "parse_width fmt args flags =
     (if is_digit (peek fmt) then (let (w, fmt) = skip_atoi 0 fmt in Some (w, flags, fmt, args))
      else if peek fmt = ch (CHR ''*'')
      then (case va_int args of None \<Rightarrow> None
            | Some (n, args) \<Rightarrow>
                if sint n < 0 then Some (- sint n, flags OR LEFT, tl fmt, args)
                else Some (sint n, flags, tl fmt, args))
      else Some (-1, flags, fmt, args))"

definition parse_precision :: "u8 list \<Rightarrow> varg list \<Rightarrow> (int \<times> u8 list \<times> varg list) option" where
  "parse_precision fmt args =
     (if peek fmt = ch (CHR ''.'')
      then (let fmt = tl fmt;
                r = (if is_digit (peek fmt) then (let (p, fmt) = skip_atoi 0 fmt in Some (p, fmt, args))
                     else if peek fmt = ch (CHR ''*'')
                     then (case va_int args of None \<Rightarrow> None | Some (n, args) \<Rightarrow> Some (sint n, tl fmt, args))
                     else Some (-1, fmt, args))
            in case r of None \<Rightarrow> None
               | Some (p, fmt, args) \<Rightarrow> Some (if p < 0 then 0 else p, fmt, args))
      else Some (-1, fmt, args))"

definition parse_qualifier :: "u8 list \<Rightarrow> u8 option \<times> u8 list" where
  "parse_qualifier fmt =
     (if peek fmt = ch (CHR ''h'') \<or> peek fmt = ch (CHR ''l'') \<or> peek fmt = ch (CHR ''L'')
      then (Some (peek fmt), tl fmt) else (None, fmt))"

text \<open>\<^verbatim>\<open>while (--field_width > 0)\<close> and \<^verbatim>\<open>while (len < field_width--)\<close>, as \<open>pad_post\<close>.\<close>

definition pad_pre :: "int \<Rightarrow> u8 list \<times> int" where
  "pad_pre w = (replicate (nat (w - 1)) (ch (CHR '' '')), if 1 < w then 0 else w - 1)"

definition pad_to :: "int \<Rightarrow> int \<Rightarrow> u8 list \<times> int" where
  "pad_to len w = (replicate (nat (w - len)) (ch (CHR '' '')), if len < w then len - 1 else w - 1)"

definition format_char :: "u32 \<Rightarrow> int \<Rightarrow> u8 \<Rightarrow> u8 list" where
  "format_char flags w c =
     (let (l, w) = (if flags AND LEFT = 0 then pad_pre w else ([], w));
          (r, w) = pad_pre w
      in l @ [c] @ r)"

definition format_string :: "u32 \<Rightarrow> int \<Rightarrow> int \<Rightarrow> u8 list option \<Rightarrow> u8 list" where
  "format_string flags w precision arg =
     (let s = (case arg of None \<Rightarrow> bytes ''<NULL>'' | Some s \<Rightarrow> s);
          len = (if precision < 0 then int (length s) else min precision (int (length s)));
          (l, w) = (if flags AND LEFT = 0 then pad_to len w else ([], w));
          (r, w) = pad_to len w
      in l @ take (nat len) s @ r)"

text \<open>The value of an integer conversion and the arguments behind it.\<close>

definition int_arg :: "u8 option \<Rightarrow> u32 \<Rightarrow> varg list \<Rightarrow> (u64 \<times> varg list) option" where
  "int_arg qualifier flags args =
     (if qualifier = Some (ch (CHR ''l''))
      then (case args of VLong n # args \<Rightarrow> Some (n, args) | _ \<Rightarrow> None)
      else (case va_int args of None \<Rightarrow> None
        | Some (n, args) \<Rightarrow>
            if qualifier = Some (ch (CHR ''h''))
            then (let num = ucast n :: u16 in Some (if flags AND SIGN \<noteq> 0 then scast num else ucast num, args))
            else if flags AND SIGN \<noteq> 0 then Some (scast n, args)
            else Some (ucast n, args)))"

text \<open>
  The conversion character: the buffer, what \<^verbatim>\<open>%n\<close> stored, and the arguments left. \<open>Some\<close>
  of a pair of an address and a count is a store through that address.
\<close>

type_synonym nstores = "(u64 \<times> nat) list"

definition convert :: "u8 \<Rightarrow> u32 \<Rightarrow> int \<Rightarrow> int \<Rightarrow> u8 option \<Rightarrow> varg list \<Rightarrow> u8 list \<Rightarrow> nstores
    \<Rightarrow> (u8 list \<times> nstores \<times> varg list) option" where
  "convert c flags w precision qualifier args str ns =
     (let integer = (\<lambda>base flags.
            case int_arg qualifier flags args of None \<Rightarrow> None
            | Some (num, args) \<Rightarrow>
                (case number str num base w precision flags of None \<Rightarrow> None
                 | Some str \<Rightarrow> Some (str, ns, args)))
      in if c = ch (CHR ''c'')
         then (case va_int args of None \<Rightarrow> None
               | Some (n, args) \<Rightarrow> Some (str @ format_char flags w (ucast n), ns, args))
         else if c = ch (CHR ''s'')
         then (case args of VStr s # args \<Rightarrow> Some (str @ format_string flags w precision s, ns, args)
               | _ \<Rightarrow> None)
         else if c = ch (CHR ''p'')
         then (case args of VPtr a # args \<Rightarrow>
                 (let (w, flags) = (if w = -1 then (16, flags OR ZEROPAD) else (w, flags))
                  in case number str a 16 w precision flags of None \<Rightarrow> None
                     | Some str \<Rightarrow> Some (str, ns, args))
               | _ \<Rightarrow> None)
         else if c = ch (CHR ''n'')
         then (case args of VPtr a # args \<Rightarrow> Some (str, ns @ [(a, length str)], args) | _ \<Rightarrow> None)
         else if c = ch (CHR ''%'') then Some (str @ [ch (CHR ''%'')], ns, args)
         else if c = ch (CHR ''o'') then integer 8 flags
         else if c = ch (CHR ''X'') then integer 16 (flags OR LARGE)
         else if c = ch (CHR ''x'') then integer 16 flags
         else if c = ch (CHR ''d'') \<or> c = ch (CHR ''i'') then integer 10 (flags OR SIGN)
         else if c = ch (CHR ''u'') then integer 10 flags
         else Some (str @ [ch (CHR ''%'')] @ (if c \<noteq> 0 then [c] else []), ns, args))"

text \<open>Everything between the percent sign and the conversion character.\<close>

definition parse_spec :: "u8 list \<Rightarrow> varg list
    \<Rightarrow> (u32 \<times> int \<times> int \<times> u8 option \<times> u8 list \<times> varg list) option" where
  "parse_spec fmt args =
     (let (flags, fmt) = parse_flags fmt 0
      in case parse_width fmt args flags of None \<Rightarrow> None
         | Some (w, flags, fmt, args) \<Rightarrow>
             (case parse_precision fmt args of None \<Rightarrow> None
              | Some (p, fmt, args) \<Rightarrow>
                  (let (q, fmt) = parse_qualifier fmt in Some (flags, w, p, q, fmt, args))))"

lemma length_parse_flags: "length (snd (parse_flags fmt flags)) \<le> length fmt"
  by (induction fmt arbitrary: flags) (auto intro: le_SucI)

lemma length_skip_atoi: "length (snd (skip_atoi i s)) \<le> length s"
  by (induction s arbitrary: i) (auto intro: le_SucI)

lemma length_parse_width: "parse_width fmt args flags = Some (w, fl, fmt', args') \<Longrightarrow> length fmt' \<le> length fmt"
  using length_skip_atoi [of 0 fmt]
  by (auto simp: parse_width_def split: if_splits option.splits prod.splits)

lemma length_parse_precision: "parse_precision fmt args = Some (p, fmt', args') \<Longrightarrow> length fmt' \<le> length fmt"
  using length_skip_atoi [of 0 "tl fmt"]
  by (auto simp: parse_precision_def Let_def split: if_splits option.splits prod.splits)

lemma length_parse_qualifier: "length (snd (parse_qualifier fmt)) \<le> length fmt"
  by (simp add: parse_qualifier_def)

lemma length_parse_spec:
  "parse_spec fmt args = Some (fl, w, p, q, fmt', args') \<Longrightarrow> length fmt' \<le> length fmt"
  using length_parse_flags [of fmt 0]
  by (auto simp: parse_spec_def split: option.splits prod.splits
      dest!: length_parse_width length_parse_precision)
     (metis length_parse_qualifier snd_conv order_trans)

function vsprintf_loop :: "u8 list \<Rightarrow> varg list \<Rightarrow> u8 list \<Rightarrow> nstores \<Rightarrow> (u8 list \<times> nstores) option" where
  "vsprintf_loop [] args str ns = Some (str, ns)"
| "vsprintf_loop (c # fmt) args str ns =
     (if c \<noteq> ch (CHR ''%'') then vsprintf_loop fmt args (str @ [c]) ns
      else case parse_spec fmt args of None \<Rightarrow> None
        | Some (flags, w, p, q, fmt', args') \<Rightarrow>
            (case convert (peek fmt') flags w p q args' str ns of None \<Rightarrow> None
             | Some (str', ns', args'') \<Rightarrow> vsprintf_loop (tl fmt') args'' str' ns'))"
  by pat_completeness auto
termination
  by (relation "measure (\<lambda>(fmt, args, str, ns). length fmt)")
     (auto simp: less_Suc_eq_le dest!: length_parse_spec)

text \<open>The buffer without its terminating zero; the return value of the C function is its length.\<close>

definition vsprintf :: "u8 list \<Rightarrow> varg list \<Rightarrow> (u8 list \<times> nstores) option" where
  "vsprintf fmt args = vsprintf_loop fmt args [] []"

definition sprintf :: "u8 list \<Rightarrow> varg list \<Rightarrow> (u8 list \<times> nstores) option" where
  "sprintf fmt args = vsprintf fmt args"

text \<open>
  \<open>printf\<close> formats into a local array of 1024 bytes and passes it to \<^verbatim>\<open>putstring\<close>: what is
  sent to the console, or \<open>None\<close> when formatting is undefined or the array overflows.
\<close>

definition printf :: "u8 list \<Rightarrow> varg list \<Rightarrow> u8 list option" where
  "printf fmt args = (case vsprintf fmt args of None \<Rightarrow> None
     | Some (buffer, ns) \<Rightarrow> if length buffer + 1 \<le> 1024 then Some (takeWhile (\<lambda>c. c \<noteq> 0) buffer) else None)"

section \<open>The digits of a number\<close>

lemma num_digits_0 [simp]: "num_digits digits base 0 = []"
  by (simp add: num_digits.simps)

lemma num_digits_step:
  "num \<noteq> 0 \<Longrightarrow> 2 \<le> base \<Longrightarrow>
     num_digits digits base num = digits ! unat (num mod base) # num_digits digits base (num div base)"
  using num_digits.simps [of digits base num] by (simp add: not_less)

lemma num_digits_induct [consumes 1, case_names zero step]:
  assumes "2 \<le> base" and "P 0" and "\<And>num. num \<noteq> 0 \<Longrightarrow> P (num div base) \<Longrightarrow> P num"
  shows "P (num :: u64)"
proof (induction num rule: measure_induct_rule [of unat])
  case (less num)
  show ?case
  proof (cases "num = 0")
    case False
    then have "unat (num div base) < unat num"
      using assms(1) by (simp add: unat_div word_le_nat_alt unat_gt_0)
    with less assms(3) False show ?thesis by blast
  qed (simp add: assms(2))
qed

text \<open>A number below \<open>base ^ k\<close> has at most \<open>k\<close> digits, so 64 bits never need more than 64.\<close>

lemma length_num_digits: "2 \<le> base \<Longrightarrow> unat num < unat base ^ k \<Longrightarrow> length (num_digits digits base num) \<le> k"
proof (induction k arbitrary: num)
  case 0
  then show ?case by (simp add: unat_eq_0)
next
  case (Suc k)
  show ?case
  proof (cases "num = 0")
    case False
    have "unat (num div base) < unat base ^ k"
      using Suc.prems(2) by (simp add: unat_div less_mult_imp_div_less mult.commute)
    with Suc.IH Suc.prems(1) False show ?thesis by (simp add: num_digits_step)
  qed simp
qed

lemma length_num_digits_64: "2 \<le> base \<Longrightarrow> length (num_digits digits base num) \<le> 64"
proof (rule length_num_digits)
  assume b: "2 \<le> base"
  have "unat num < 2 ^ 64" using unsigned_less [of num, where ?'a = nat] by simp
  also have "(2 :: nat) ^ 64 \<le> unat base ^ 64"
    using b by (intro power_mono) (auto simp: word_le_nat_alt)
  finally show "unat num < unat base ^ 64" .
qed

lemma num_digits_nonempty: "2 \<le> base \<Longrightarrow> num \<noteq> 0 \<Longrightarrow> num_digits digits base num \<noteq> []"
  by (simp add: num_digits_step)

text \<open>Reading the digits of either alphabet gives their values.\<close>

definition reads_digits :: "u8 list \<Rightarrow> bool" where
  "reads_digits digits \<longleftrightarrow>
     list_all (\<lambda>d. isxdigit (digits ! d) \<and> digit_value (digits ! d) = of_nat d) [0..<16]"

lemma reads_lower: "reads_digits lower_digits"
  by code_simp

lemma reads_upper: "reads_digits upper_digits"
  by code_simp

lemma reads_digits_nth:
  "reads_digits digits \<Longrightarrow> d < 16 \<Longrightarrow> isxdigit (digits ! d) \<and> digit_value (digits ! d) = of_nat d"
  unfolding reads_digits_def list_all_iff by simp

lemma reads_digits_mod:
  assumes "reads_digits digits" and "2 \<le> base" and "base \<le> 16"
  shows "isxdigit (digits ! unat (num mod base)) \<and> digit_value (digits ! unat (num mod base)) = num mod base
     \<and> num mod base < base"
proof -
  have b: "base \<noteq> 0" using assms(2) by auto
  then have lt: "num mod base < base" by (simp add: word_mod_less_divisor word_neq_0_conv)
  with assms(3) have "unat (num mod base) < 16"
    by (simp add: word_less_nat_alt word_le_nat_alt)
  with reads_digits_nth [OF assms(1) this] lt show ?thesis by simp
qed

lemma strtoul_loop_all:
  "\<forall>c \<in> set cp. isxdigit c \<and> digit_value c < base \<Longrightarrow>
     strtoul_loop base r cp = (foldl (\<lambda>r c. r * base + digit_value c) r cp, [])"
  by (induction cp arbitrary: r) auto

lemma num_digits_valid:
  assumes "reads_digits digits" and "2 \<le> base" and "base \<le> 16"
  shows "\<forall>c \<in> set (num_digits digits base num). isxdigit c \<and> digit_value c < base"
  using assms(2) reads_digits_mod [OF assms]
  by (induction num rule: num_digits_induct) (auto simp: num_digits_step [OF _ assms(2)])

lemma num_digits_value:
  assumes "reads_digits digits" and "2 \<le> base" and "base \<le> 16"
  shows "foldr (\<lambda>c r. r * base + digit_value c) (num_digits digits base num) 0 = num"
  using assms(2)
proof (induction num rule: num_digits_induct)
  case (step num)
  with assms(2) reads_digits_mod [OF assms, of num] show ?case
    by (simp add: num_digits_step div_mult_mod_eq word_mod_div_equality)
qed simp

lemma strtoul_num_digits:
  assumes "reads_digits digits" and "2 \<le> base" and "base \<le> 16"
  shows "strtoul_loop base 0 (rev (num_digits digits base num)) = (num, [])"
  using strtoul_loop_all [of "rev (num_digits digits base num)" base 0] num_digits_valid [OF assms, of num]
    num_digits_value [OF assms, of num]
  by (simp add: foldl_conv_foldr)

text \<open>The leading digit of a non-zero number is not the digit zero.\<close>

lemma num_digits_last:
  assumes "reads_digits digits" and "2 \<le> base" and "base \<le> 16" and "num \<noteq> 0"
  shows "last (num_digits digits base num) \<noteq> 48"
  using assms(2,4)
proof (induction num rule: num_digits_induct)
  case (step num)
  show ?case
  proof (cases "num div base = 0")
    case True
    then have "num mod base = num" using word_mod_div_equality [of num base] by simp
    with step.hyps have "digit_value (digits ! unat (num mod base)) \<noteq> 0"
      using reads_digits_mod [OF assms(1-3), of num] by simp
    moreover have "digit_value 48 = 0" by (simp add: digit_value_def isdigit_iff)
    ultimately have "digits ! unat (num mod base) \<noteq> 48" by metis
    with True step.hyps assms(2) show ?thesis by (simp add: num_digits_step)
  next
    case False
    with step assms(2) show ?thesis by (simp add: num_digits_step)
  qed
qed simp

section \<open>The layout of a printed number\<close>

definition number_negative :: "u64 \<Rightarrow> u32 \<Rightarrow> bool" where
  "number_negative num ty \<longleftrightarrow> ty AND SIGN \<noteq> 0 \<and> sint num < 0"

definition number_sign :: "u64 \<Rightarrow> u32 \<Rightarrow> u8 list" where
  "number_sign num ty =
     (if number_negative num ty then [ch (CHR ''-'')]
      else if ty AND SIGN = 0 then []
      else if ty AND PLUS \<noteq> 0 then [ch (CHR ''+'')]
      else if ty AND SPACE \<noteq> 0 then [ch (CHR '' '')] else [])"

definition number_prefix :: "int \<Rightarrow> u32 \<Rightarrow> u8 list" where
  "number_prefix base ty =
     (if ty AND SPECIAL = 0 then []
      else if base = 8 then [ch (CHR ''0'')]
      else if base = 16 then [ch (CHR ''0''), if ty AND LARGE \<noteq> 0 then ch (CHR ''X'') else ch (CHR ''x'')]
      else [])"

definition number_magnitude :: "u64 \<Rightarrow> int \<Rightarrow> u32 \<Rightarrow> u8 list" where
  "number_magnitude num base ty =
     (let n = (if number_negative num ty then - num else num)
      in if n = 0 then [ch (CHR ''0'')]
         else rev (num_digits (if ty AND LARGE \<noteq> 0 then upper_digits else lower_digits) (of_int base) n))"

text \<open>Sign, base prefix and the digits extended to the precision: what the field is padded around.\<close>

definition number_zeros :: "u64 \<Rightarrow> int \<Rightarrow> int \<Rightarrow> u32 \<Rightarrow> u8 list" where
  "number_zeros num base precision ty =
     replicate (nat (precision - int (length (number_magnitude num base ty)))) (ch (CHR ''0''))"

definition number_width :: "u64 \<Rightarrow> int \<Rightarrow> int \<Rightarrow> u32 \<Rightarrow> nat" where
  "number_width num base precision ty =
     length (number_sign num ty) + length (number_prefix base ty)
     + max (nat precision) (length (number_magnitude num base ty))"

lemma flag_mask_simps:
  "(ty AND NOT ZEROPAD) AND SIGN = ty AND SIGN"
  "(ty AND NOT ZEROPAD) AND PLUS = ty AND PLUS"
  "(ty AND NOT ZEROPAD) AND SPACE = ty AND SPACE"
  "(ty AND NOT ZEROPAD) AND LEFT = ty AND LEFT"
  "(ty AND NOT ZEROPAD) AND SPECIAL = ty AND SPECIAL"
  "(ty AND NOT ZEROPAD) AND ZEROPAD = 0"
  by (simp_all add: and.assoc flag_defs)

lemma zeropad_or_left: "ty AND (ZEROPAD OR LEFT) = 0 \<longleftrightarrow> ty AND ZEROPAD = 0 \<and> ty AND LEFT = 0"
  by (simp only: bit.conj_disj_distrib or_eq_0_iff)

lemma digits_33: "lower_digits ! 33 = ch (CHR ''x'')" "upper_digits ! 33 = ch (CHR ''X'')"
  by (simp_all add: lower_digits_def upper_digits_def bytes_def)

text \<open>Left, zero and right padding together fill what is left of the field; only one of them is used.\<close>

definition number_pads :: "int \<Rightarrow> u32 \<Rightarrow> u8 list \<times> u8 list \<times> u8 list" where
  "number_pads n ty =
     (if ty AND LEFT \<noteq> 0 then ([], [], replicate (nat n) (ch (CHR '' '')))
      else if ty AND ZEROPAD \<noteq> 0 then ([], replicate (nat n) (ch (CHR ''0'')), [])
      else (replicate (nat n) (ch (CHR '' '')), [], []))"

lemma number_layout:
  assumes "2 \<le> base" and "base \<le> 36"
  shows "number str num base sz precision ty =
     (let (l, z, r) = number_pads (sz - int (number_width num base precision ty)) ty
      in Some (str @ l @ number_sign num ty @ number_prefix base ty @ z
           @ number_zeros num base precision ty @ number_magnitude num base ty @ r))"
proof -
  let ?ty = "if ty AND LEFT \<noteq> 0 then ty AND NOT ZEROPAD else ty"
  let ?D = "if ty AND LARGE \<noteq> 0 then upper_digits else lower_digits"
  let ?n = "if number_negative num ty then - num else num"
  let ?M = "number_magnitude num base ty"
  have sign: "(if ?ty AND SIGN \<noteq> 0
       then (if sint num < 0 then (ch (CHR ''-''), - num, sz - 1)
             else if ?ty AND PLUS \<noteq> 0 then (ch (CHR ''+''), num, sz - 1)
             else if ?ty AND SPACE \<noteq> 0 then (ch (CHR '' ''), num, sz - 1)
             else (0, num, sz))
       else (0, num, sz)) = (peek (number_sign num ty), ?n, sz - int (length (number_sign num ty)))"
    by (simp add: number_sign_def number_negative_def flag_mask_simps)
  have sign_out: "(if peek (number_sign num ty) \<noteq> 0 then [peek (number_sign num ty)] else []) = number_sign num ty"
    by (simp add: number_sign_def)
  have special: "(if ?ty AND SPECIAL \<noteq> 0
       then (if base = 16 then s - 2 else if base = 8 then s - 1 else s) else s)
       = s - int (length (number_prefix base ty))" for s
    by (simp add: number_prefix_def flag_mask_simps)
  have prefix: "(if ?ty AND SPECIAL \<noteq> 0
       then (if base = 8 then [ch (CHR ''0'')] else if base = 16 then [ch (CHR ''0''), ?D ! 33] else []) else [])
       = number_prefix base ty"
    by (simp add: number_prefix_def flag_mask_simps digits_33)
  have tmp: "(if ?n = 0 then [ch (CHR ''0'')] else num_digits ?D (of_int base) ?n) = rev ?M"
    by (simp add: number_magnitude_def Let_def)
  have prec: "(if int (length (rev ?M)) > precision then int (length (rev ?M)) else precision)
      = int (max (nat precision) (length ?M))"
    by simp
  have pads: "(let (lp, s1) = (if ?ty AND (ZEROPAD OR LEFT) = 0 then pad_post s (ch (CHR '' '')) else ([], s));
                   (zp, s2) = (if ?ty AND LEFT = 0
                     then pad_post s1 (if ?ty AND ZEROPAD \<noteq> 0 then ch (CHR ''0'') else ch (CHR '' '')) else ([], s1));
                   (rp, s3) = pad_post s2 (ch (CHR '' ''))
               in f lp zp rp) = (let (l, z, r) = number_pads s ty in f l z r)" for s and f :: "u8 list \<Rightarrow> u8 list \<Rightarrow> u8 list \<Rightarrow> u8 list option"
    by (simp add: number_pads_def pad_post_def flag_mask_simps zeropad_or_left)
  have rest: "sz - int (length (number_sign num ty)) - int (length (number_prefix base ty))
      - int (max (nat precision) (length ?M)) = sz - int (number_width num base precision ty)"
    by (simp add: number_width_def)
  have zeros: "replicate (nat (int (max (nat precision) (length ?M)) - int (length (rev ?M)))) (ch (CHR ''0''))
      = number_zeros num base precision ty"
    by (simp add: number_zeros_def)
  have "\<not> (base < 2 \<or> base > 36)" using assms by simp
  then show ?thesis
    unfolding number_def Let_def sign prod.case special tmp prec sign_out prefix rest zeros rev_rev_ident
    using pads [unfolded Let_def] by (simp only: if_False)
qed

lemma of_int_small:
  assumes "0 \<le> b" and "b < 2 ^ 32"
  shows "uint (of_int b :: u64) = b" and "uint (of_int b :: u32) = b"
  using assms by (simp_all add: uint_word_of_int)

lemma length_number_magnitude:
  assumes "2 \<le> base" and "base \<le> 36"
  shows "0 < length (number_magnitude num base ty)" and "length (number_magnitude num base ty) \<le> 64"
proof -
  have "(2 :: u64) \<le> of_int base"
    using assms of_int_small(1) [of base] by (simp add: word_le_def)
  then show "0 < length (number_magnitude num base ty)" and "length (number_magnitude num base ty) \<le> 64"
    using length_num_digits_64 [of "of_int base"] num_digits_nonempty [of "of_int base"]
    by (simp_all add: number_magnitude_def Let_def)
qed

lemma length_number_pads:
  "number_pads n ty = (l, z, r) \<Longrightarrow> length l + length z + length r = nat n"
  by (auto simp: number_pads_def split: if_splits)

text \<open>For every supported base, \<open>number\<close> appends a field of at least the requested width: sign,
  base prefix and the digits extended to the precision, padded on one side up to the width. The
  digits fit the 66 bytes of \<^verbatim>\<open>tmp\<close>.\<close>

lemma number_field:
  assumes "2 \<le> base" and "base \<le> 36"
  shows "\<exists>out. number str num base sz precision ty = Some (str @ out)
     \<and> length out = max (nat sz) (number_width num base precision ty)
     \<and> length (number_magnitude num base ty) \<le> 64"
proof -
  obtain l z r where p: "number_pads (sz - int (number_width num base precision ty)) ty = (l, z, r)"
    by (metis prod_cases3)
  have "number str num base sz precision ty =
      Some (str @ l @ number_sign num ty @ number_prefix base ty @ z
        @ number_zeros num base precision ty @ number_magnitude num base ty @ r)"
    using number_layout [OF assms] p by simp
  moreover have "length (l @ number_sign num ty @ number_prefix base ty @ z
        @ number_zeros num base precision ty @ number_magnitude num base ty @ r)
      = max (nat sz) (number_width num base precision ty)"
    using length_number_pads [OF p] by (simp add: number_width_def number_zeros_def)
  ultimately show ?thesis
    using length_number_magnitude(2) [OF assms] by blast
qed

theorem number_field_witness:
  "\<exists>out. number [] 255 16 8 (-1) (ZEROPAD OR SPECIAL) = Some out \<and> length out = 8"
proof -
  have "number_width 255 16 (-1) (ZEROPAD OR SPECIAL) = 4"
    by code_simp
  then show ?thesis
    using number_field [of 16 "[]" 255 8 "-1" "ZEROPAD OR SPECIAL"] by auto
qed

lemma strtoul_leading:
  "peek ds \<noteq> ch (CHR ''0'') \<Longrightarrow> base \<noteq> 0 \<Longrightarrow> simple_strtoul ds base = strtoul_loop (ucast base) 0 ds"
  by (simp add: simple_strtoul_def)

lemma peek_rev: "xs \<noteq> [] \<Longrightarrow> peek (rev xs) = last xs"
  by (cases xs rule: rev_cases) auto

lemma number_roundtrip_facts:
  assumes "2 \<le> base" and "base \<le> 16"
  shows "\<exists>ds. number [] num base 0 0 0 = Some ds \<and> simple_strtoul ds (of_int base) = (num, [])"
    and "\<exists>ds. number [] num 16 0 0 SPECIAL = Some ds \<and> simple_strtoul ds 0 = (num, [])"
proof -
  let ?b = "of_int base :: u64"
  have b: "2 \<le> ?b" "?b \<le> 16" "ucast (of_int base :: u32) = ?b" "(of_int base :: u32) \<noteq> 0"
    using assms of_int_small [of base]
    by (simp_all add: word_le_def word_uint_eq_iff unsigned_ucast_eq take_bit_int_eq_self)
  have "number_magnitude num base 0 = (if num = 0 then [48] else rev (num_digits lower_digits ?b num))"
    by (simp add: number_magnitude_def number_negative_def)
  moreover have "number [] num base 0 0 0 = Some (number_magnitude num base 0)"
    using number_layout [of base "[]" num 0 0 0] assms
    by (simp add: number_pads_def number_sign_def number_prefix_def number_zeros_def number_negative_def)
  moreover have "simple_strtoul (rev (num_digits lower_digits ?b num)) (of_int base) = (num, [])" if "num \<noteq> 0"
    using strtoul_leading [of "rev (num_digits lower_digits ?b num)" "of_int base"] b that
      num_digits_last [OF reads_lower b(1,2) that] peek_rev [OF num_digits_nonempty [OF b(1) that]]
      strtoul_num_digits [OF reads_lower b(1,2)] by simp
  moreover have "simple_strtoul [48] (of_int base) = (0, [])"
    using b(4) by (simp add: simple_strtoul_def)
  ultimately show "\<exists>ds. number [] num base 0 0 0 = Some ds \<and> simple_strtoul ds (of_int base) = (num, [])"
    by auto
next
  have "number [] num 16 0 0 SPECIAL = Some ([48, 120] @ number_magnitude num 16 SPECIAL)"
    using number_layout [of 16 "[]" num 0 0 SPECIAL]
    by (simp add: number_pads_def number_sign_def number_prefix_def number_zeros_def number_negative_def flag_defs)
  moreover have m: "number_magnitude num 16 SPECIAL = (if num = 0 then [48] else rev (num_digits lower_digits 16 num))"
    by (simp add: number_magnitude_def number_negative_def flag_defs)
  moreover have "isxdigit (peek (number_magnitude num 16 SPECIAL))"
    using num_digits_valid [OF reads_lower, of 16 num] peek_rev [OF num_digits_nonempty, of 16 num lower_digits]
      last_in_set [OF num_digits_nonempty, of 16 num lower_digits]
    by (simp add: m isxdigit_iff)
  moreover have "strtoul_loop 16 0 (number_magnitude num 16 SPECIAL) = (num, [])"
    using strtoul_num_digits [OF reads_lower, of 16 num] by (simp add: m isxdigit_iff digit_value_def isdigit_iff)
  ultimately show "\<exists>ds. number [] num 16 0 0 SPECIAL = Some ds \<and> simple_strtoul ds 0 = (num, [])"
    by (simp add: simple_strtoul_def)
qed

text \<open>C35: reading back what \<open>number\<close> printed gives the number: in every base up to 16 with
  \<open>simple_strtoul\<close> in that base, and in base 16 with the \<^verbatim>\<open>0x\<close> prefix also when the base is left
  to the prefix.\<close>

theorem number_roundtrip:
  assumes "2 \<le> base" and "base \<le> 16"
  shows "(\<exists>ds. number [] num base 0 0 0 = Some ds \<and> simple_strtoul ds (of_int base) = (num, []))
     \<and> (\<exists>ds. number [] num 16 0 0 SPECIAL = Some ds \<and> simple_strtoul ds 0 = (num, []))"
  using number_roundtrip_facts [OF assms] by blast

theorem number_roundtrip_witness:
  "\<exists>ds. number [] 8080 10 0 0 0 = Some ds \<and> simple_strtoul ds 10 = (8080, [])"
  using number_roundtrip [of 10 8080] by simp

section \<open>Formatted strings\<close>

text \<open>Bytes without a percent sign go to the buffer as they are.\<close>

lemma vsprintf_loop_literal:
  "ch (CHR ''%'') \<notin> set fs \<Longrightarrow> vsprintf_loop (fs @ fmt) args str ns = vsprintf_loop fmt args (str @ fs) ns"
  by (induction fs arbitrary: str) auto

lemma length_format_string:
  "length (format_string flags w p arg) =
     (let n = (case arg of None \<Rightarrow> 6 | Some s \<Rightarrow> length s); m = (if p < 0 then n else min (nat p) n)
      in max (nat w) m)"
  by (auto simp: format_string_def pad_to_def Let_def bytes_def min_def split: option.splits)

text \<open>Decimal notation as the loader prints it.\<close>

definition decimal :: "u32 \<Rightarrow> u8 list" where
  "decimal n = number_sign (scast n) SIGN @ number_magnitude (scast n) 10 SIGN"

lemma number_decimal: "number str (scast n) 10 (-1) (-1) SIGN = Some (str @ decimal n)"
  using number_layout [of 10 str "scast n" "-1" "-1" SIGN]
  by (simp add: number_pads_def number_prefix_def number_zeros_def decimal_def flag_defs)

text \<open>The conversions the loader uses most: \<^verbatim>\<open>%s%d\<close> is the string followed by the decimal
  notation of the number, for every string and every 32-bit number.\<close>

lemma sprintf_string_decimal:
  "sprintf (bytes ''%s%d'') [VStr (Some s), VInt n] = Some (s @ decimal n, [])"
proof -
  have "format_string 0 (-1) (-1) (Some s) = s"
    by (simp add: format_string_def pad_to_def)
  then show ?thesis
    by (simp add: sprintf_def vsprintf_def bytes_def parse_spec_def parse_width_def parse_precision_def
        parse_qualifier_def convert_def int_arg_def is_digit_def number_decimal [unfolded SIGN_def] flag_defs)
qed

end
