(* ===== verification/Xell_Queue.thy ===== *)
theory Xell_Queue
  imports Xell_Prelude "HOL-Library.Monad_Syntax"
begin

text \<open>
  The queue manager of \<^verbatim>\<open>nocfe/lib_queue.c\<close> and \<^verbatim>\<open>lib_queue.h\<close>: circular doubly linked lists
  threaded through the objects they hold. The heap is the pair of pointer fields of every
  \<^verbatim>\<open>queue_t\<close>; each routine is the sequence of its stores. A queue block \<open>qb\<close> represents the list
  of the elements behind it (\<open>is_queue\<close>), and every routine is shown to do on that list what its
  comment promises, and to leave other queues alone. The loops over a queue are
  \<open>partial_function (option)\<close>: on a well-formed queue they return.
\<close>

section \<open>The routines\<close>

record qheap =
  q_next :: "addr \<Rightarrow> addr"
  q_prev :: "addr \<Rightarrow> addr"

definition set_next :: "addr \<Rightarrow> addr \<Rightarrow> qheap \<Rightarrow> qheap" where
  "set_next p v h = h\<lparr>q_next := (q_next h)(p := v)\<rparr>"

definition set_prev :: "addr \<Rightarrow> addr \<Rightarrow> qheap \<Rightarrow> qheap" where
  "set_prev p v h = h\<lparr>q_prev := (q_prev h)(p := v)\<rparr>"

definition q_init :: "addr \<Rightarrow> qheap \<Rightarrow> qheap" where
  "q_init q h = set_next q q (set_prev q q h)"

definition q_isempty :: "addr \<Rightarrow> qheap \<Rightarrow> bool" where
  "q_isempty q h \<longleftrightarrow> q_next h q = q"

definition q_getfirst :: "addr \<Rightarrow> qheap \<Rightarrow> addr" where
  "q_getfirst q h = q_next h q"

definition q_getlast :: "addr \<Rightarrow> qheap \<Rightarrow> addr" where
  "q_getlast q h = q_prev h q"

definition q_enqueue :: "addr \<Rightarrow> addr \<Rightarrow> qheap \<Rightarrow> qheap" where
  "q_enqueue qb item h =
     (let h = set_next (q_prev h qb) item h;
          h = set_next item qb h;
          h = set_prev item (q_prev h qb) h
      in set_prev qb item h)"

definition q_dequeue :: "addr \<Rightarrow> qheap \<Rightarrow> qheap" where
  "q_dequeue item h =
     (let h = set_next (q_prev h item) (q_next h item) h
      in set_prev (q_next h item) (q_prev h item) h)"

text \<open>The dequeued element or \<open>0\<close> (\<^verbatim>\<open>NULL\<close>), and the heap.\<close>

definition q_deqnext :: "addr \<Rightarrow> qheap \<Rightarrow> addr \<times> qheap" where
  "q_deqnext qb h =
     (if q_next h qb = qb then (0, h)
      else (let qb = q_next h qb;
                h = set_next (q_prev h qb) (q_next h qb) h;
                h = set_prev (q_next h qb) (q_prev h qb) h
            in (qb, h)))"

text \<open>
  \<open>q_map\<close> calls a function on each element, which may change the heap and other state; the next
  element is read before the call. The result is the first non-zero value the function returned.
\<close>

partial_function (option) q_map_loop ::
  "(addr \<Rightarrow> qheap \<times> 's \<Rightarrow> int \<times> qheap \<times> 's) \<Rightarrow> addr \<Rightarrow> addr \<Rightarrow> qheap \<times> 's \<Rightarrow> (int \<times> qheap \<times> 's) option" where
  "q_map_loop func qb qe s =
     (if qe \<noteq> qb
      then (let nextq = q_next (fst s) qe;
                (res, s') = func qe s
            in if res \<noteq> 0 then Some (res, s') else q_map_loop func qb nextq s')
      else Some (0, s))"

definition q_map :: "addr \<Rightarrow> (addr \<Rightarrow> u32 \<Rightarrow> u32 \<Rightarrow> qheap \<times> 's \<Rightarrow> int \<times> qheap \<times> 's) \<Rightarrow> u32 \<Rightarrow> u32
    \<Rightarrow> qheap \<times> 's \<Rightarrow> (int \<times> qheap \<times> 's) option" where
  "q_map qb func a b s = q_map_loop (\<lambda>q. func q a b) qb (q_next (fst s) qb) s"

partial_function (option) q_count_loop :: "addr \<Rightarrow> addr \<Rightarrow> nat \<Rightarrow> qheap \<Rightarrow> nat option" where
  "q_count_loop qb qe res h =
     (if q_next h qe \<noteq> qb then q_count_loop qb (q_next h qe) (Suc res) h else Some res)"

definition q_count :: "addr \<Rightarrow> qheap \<Rightarrow> nat option" where
  "q_count qb h = q_count_loop qb qb 0 h"

partial_function (option) q_find_loop :: "addr \<Rightarrow> addr \<Rightarrow> addr \<Rightarrow> nat \<Rightarrow> qheap \<Rightarrow> nat option" where
  "q_find_loop qb item q res h =
     (if q \<noteq> item
      then (if q = qb then Some 0 else q_find_loop qb item (q_next h q) (Suc res) h)
      else Some res)"

definition q_find :: "addr \<Rightarrow> addr \<Rightarrow> qheap \<Rightarrow> nat option" where
  "q_find qb item h = q_find_loop qb item (q_next h qb) 1 h"

section \<open>The list a queue represents\<close>

text \<open>A doubly linked segment from \<open>a\<close> over \<open>xs\<close> to \<open>b\<close>.\<close>

fun dseg :: "qheap \<Rightarrow> addr \<Rightarrow> addr list \<Rightarrow> addr \<Rightarrow> bool" where
  "dseg h a [] b \<longleftrightarrow> q_next h a = b \<and> q_prev h b = a"
| "dseg h a (x # xs) b \<longleftrightarrow> q_next h a = x \<and> q_prev h x = a \<and> dseg h x xs b"

definition is_queue :: "qheap \<Rightarrow> addr \<Rightarrow> addr list \<Rightarrow> bool" where
  "is_queue h qb xs \<longleftrightarrow> dseg h qb xs qb \<and> distinct (qb # xs)"

lemma set_next_simps [simp]:
  "q_next (set_next p v h) = (q_next h)(p := v)" "q_prev (set_next p v h) = q_prev h"
  by (simp_all add: set_next_def)

lemma set_prev_simps [simp]:
  "q_prev (set_prev p v h) = (q_prev h)(p := v)" "q_next (set_prev p v h) = q_next h"
  by (simp_all add: set_prev_def)

lemma dseg_append [simp]: "dseg h a (xs @ y # ys) b \<longleftrightarrow> dseg h a xs y \<and> dseg h y ys b"
  by (induction xs arbitrary: a) auto

lemma dseg_cong:
  "(\<And>x. x = a \<or> x \<in> set xs \<Longrightarrow> q_next h' x = q_next h x) \<Longrightarrow>
   (\<And>x. x = b \<or> x \<in> set xs \<Longrightarrow> q_prev h' x = q_prev h x) \<Longrightarrow> dseg h' a xs b = dseg h a xs b"
  by (induction xs arbitrary: a) auto

lemma dseg_prev: "dseg h a xs b \<Longrightarrow> q_prev h b = last (a # xs)"
  by (induction xs arbitrary: a) auto

lemma dseg_next: "dseg h a xs b \<Longrightarrow> q_next h a = hd (xs @ [b])"
  by (cases xs) auto

lemma dseg_last: "dseg h a xs b \<Longrightarrow> q_next h (last (a # xs)) = b"
  by (induction xs arbitrary: a) auto

text \<open>Relinking the right end of a segment.\<close>

lemma dseg_snoc:
  "dseg h a xs b \<Longrightarrow> distinct (a # xs) \<Longrightarrow> c \<notin> set xs \<Longrightarrow>
     dseg (set_prev c (last (a # xs)) (set_next (last (a # xs)) c h)) a xs c"
  by (induction xs arbitrary: a) (auto split: if_splits)

lemma is_queue_distinct: "is_queue h qb xs \<Longrightarrow> distinct (qb # xs)"
  by (simp add: is_queue_def)

lemma q_init_queue: "is_queue (q_init qb h) qb []"
  by (simp add: is_queue_def q_init_def)

lemma q_isempty_queue: "is_queue h qb xs \<Longrightarrow> q_isempty qb h \<longleftrightarrow> xs = []"
  by (cases xs) (auto simp: is_queue_def q_isempty_def)

lemma q_getfirst_queue: "is_queue h qb xs \<Longrightarrow> q_getfirst qb h = hd (xs @ [qb])"
  by (simp add: is_queue_def q_getfirst_def dseg_next)

lemma q_getlast_queue: "is_queue h qb xs \<Longrightarrow> q_getlast qb h = last (qb # xs)"
  unfolding is_queue_def q_getlast_def by (blast dest: dseg_prev)

lemma q_enqueue_queue:
  assumes "is_queue h qb xs" and "item \<notin> set (qb # xs)"
  shows "is_queue (q_enqueue qb item h) qb (xs @ [item])"
proof -
  let ?p = "last (qb # xs)"
  have seg: "dseg h qb xs qb" and dist: "distinct (qb # xs)"
    using assms(1) by (auto simp: is_queue_def)
  have p: "q_prev h qb = ?p" by (rule dseg_prev [OF seg])
  have "?p \<in> set (qb # xs)" by (rule last_in_set) simp
  then have ne: "?p \<noteq> item" using assms(2) by metis
  have "q_enqueue qb item h = set_prev qb item (set_prev item ?p (set_next item qb (set_next ?p item h)))"
    using p ne by (simp add: q_enqueue_def)
  moreover have "dseg (set_prev item ?p (set_next ?p item h)) qb xs item"
    using dseg_snoc [OF seg dist, of item] assms(2) by simp
  then have "dseg (set_prev qb item (set_prev item ?p (set_next item qb (set_next ?p item h)))) qb xs item"
    using assms(2) dist by (subst dseg_cong [where h = "set_prev item ?p (set_next ?p item h)"]) auto
  ultimately show ?thesis
    using assms(2) dist by (auto simp: is_queue_def)
qed

lemma q_dequeue_queue:
  assumes "is_queue h qb (xs @ item # ys)"
  shows "is_queue (q_dequeue item h) qb (xs @ ys)"
proof -
  let ?p = "last (qb # xs)" and ?n = "hd (ys @ [qb])"
  have seg: "dseg h qb xs item" "dseg h item ys qb" and dist: "distinct (qb # xs @ item # ys)"
    using assms by (auto simp: is_queue_def)
  have p: "q_prev h item = ?p" by (rule dseg_prev [OF seg(1)])
  have n: "q_next h item = ?n" by (rule dseg_next [OF seg(2)])
  have "?p \<in> set (qb # xs)" by (rule last_in_set) simp
  then have ne: "?p \<noteq> item" using dist by auto
  have eq: "q_dequeue item h = set_prev ?n ?p (set_next ?p ?n h)"
    using p n ne by (simp add: q_dequeue_def)
  have "dseg (set_prev ?n ?p (set_next ?p ?n h)) qb (xs @ ys) qb"
  proof (cases ys)
    case Nil
    then show ?thesis
      using dseg_snoc [OF seg(1), of qb] dist by simp
  next
    case (Cons y zs)
    have "dseg (set_prev y ?p (set_next ?p y h)) qb xs y"
      using dseg_snoc [OF seg(1), of y] dist Cons by auto
    moreover have "dseg (set_prev y ?p (set_next ?p y h)) y zs qb = dseg h y zs qb"
      using dist Cons \<open>?p \<in> set (qb # xs)\<close> by (intro dseg_cong) auto
    ultimately show ?thesis using seg(2) Cons by simp
  qed
  then show ?thesis using eq dist by (simp add: is_queue_def)
qed

lemma q_deqnext_dequeue:
  "q_next h qb \<noteq> qb \<Longrightarrow> q_deqnext qb h = (q_next h qb, q_dequeue (q_next h qb) h)"
  by (simp add: q_deqnext_def q_dequeue_def Let_def)

lemma q_deqnext_queue:
  "is_queue h qb [] \<Longrightarrow> q_deqnext qb h = (0, h)"
  "is_queue h qb (x # xs) \<Longrightarrow> fst (q_deqnext qb h) = x \<and> is_queue (snd (q_deqnext qb h)) qb xs"
proof -
  show "is_queue h qb [] \<Longrightarrow> q_deqnext qb h = (0, h)"
    by (simp add: is_queue_def q_deqnext_def)
  assume q: "is_queue h qb (x # xs)"
  then have "q_next h qb = x" and "x \<noteq> qb" by (auto simp: is_queue_def)
  with q_deqnext_dequeue [of h qb] q_dequeue_queue [of h qb "[]" x xs] q
  show "fst (q_deqnext qb h) = x \<and> is_queue (snd (q_deqnext qb h)) qb xs" by simp
qed

lemma q_count_loop_seg: "dseg h qe xs qb \<Longrightarrow> qb \<notin> set xs \<Longrightarrow> q_count_loop qb qe n h = Some (n + length xs)"
proof (induction xs arbitrary: qe n)
  case Nil
  then show ?case by (subst q_count_loop.simps) simp
next
  case (Cons x xs)
  then show ?case using Cons.IH [of x "Suc n"] by (subst q_count_loop.simps) auto
qed

lemma q_count_queue: "is_queue h qb xs \<Longrightarrow> q_count qb h = Some (length xs)"
  using q_count_loop_seg [of h qb xs qb 0] by (simp add: is_queue_def q_count_def)

text \<open>The one-based position of an element, \<open>0\<close> when it is not there.\<close>

fun position :: "addr \<Rightarrow> nat \<Rightarrow> addr list \<Rightarrow> nat" where
  "position item n [] = 0"
| "position item n (x # xs) = (if x = item then n else position item (Suc n) xs)"

lemma q_find_loop_seg:
  "dseg h a xs qb \<Longrightarrow> qb \<notin> set xs \<Longrightarrow> item \<noteq> qb \<Longrightarrow>
     q_find_loop qb item (q_next h a) n h = Some (position item n xs)"
proof (induction xs arbitrary: a n)
  case Nil
  then show ?case by (subst q_find_loop.simps) simp
next
  case (Cons x xs)
  then show ?case using Cons.IH [of x "Suc n"] by (subst q_find_loop.simps) auto
qed

lemma q_find_queue: "is_queue h qb xs \<Longrightarrow> item \<noteq> qb \<Longrightarrow> q_find qb item h = Some (position item 1 xs)"
  using q_find_loop_seg [of h qb xs qb item 1] by (simp add: is_queue_def q_find_def)

lemma position_0: "0 < n \<Longrightarrow> position item n xs = 0 \<longleftrightarrow> item \<notin> set xs"
  by (induction xs arbitrary: n) auto

lemma position_nth: "item \<in> set xs \<Longrightarrow> n \<le> position item n xs \<and> position item n xs < n + length xs
    \<and> xs ! (position item n xs - n) = item"
proof (induction xs arbitrary: n)
  case (Cons x xs)
  show ?case
  proof (cases "x = item")
    case False
    with Cons have "item \<in> set xs" by simp
    with Cons.IH [OF this, of "Suc n"] False show ?thesis
      by (auto simp: nth_Cons' Suc_le_eq)
  qed simp
qed simp

text \<open>
  The walk of \<open>q_map\<close> as a fold over the represented list, for a function that leaves the links of
  the elements it has not yet been called on in place (it may unlink the element it is given).
\<close>

fun map_until :: "(addr \<Rightarrow> 't \<Rightarrow> int \<times> 't) \<Rightarrow> addr list \<Rightarrow> 't \<Rightarrow> int \<times> 't" where
  "map_until f [] s = (0, s)"
| "map_until f (x # xs) s = (let (res, s') = f x s in if res \<noteq> 0 then (res, s') else map_until f xs s')"

fun nexts_ok :: "qheap \<Rightarrow> addr list \<Rightarrow> addr \<Rightarrow> bool" where
  "nexts_ok h [] qb = True"
| "nexts_ok h (x # xs) qb = (q_next h x = hd (xs @ [qb]) \<and> nexts_ok h xs qb)"

lemma q_map_loop_until:
  assumes "\<And>x xs s. nexts_ok (fst s) (x # xs) qb \<Longrightarrow> nexts_ok (fst (snd (f x s))) xs qb"
    and "nexts_ok (fst s) xs qb" and "qb \<notin> set xs"
  shows "q_map_loop f qb (hd (xs @ [qb])) s = Some (map_until f xs s)"
  using assms(2,3)
proof (induction xs arbitrary: s)
  case Nil
  then show ?case by (subst q_map_loop.simps) simp
next
  case (Cons x xs)
  obtain res s' where f: "f x s = (res, s')" by (cases "f x s")
  have "nexts_ok (fst s') xs qb" using assms(1) [OF Cons.prems(1)] f by simp
  with Cons.IH [of s'] Cons.prems f show ?case
    by (subst q_map_loop.simps) (auto simp: Let_def)
qed

lemma dseg_nexts: "dseg h a xs b \<Longrightarrow> nexts_ok h xs b"
  by (induction xs arbitrary: a) (auto simp: dseg_next)

lemma q_map_queue:
  assumes "is_queue (fst s) qb xs"
    and "\<And>x ys t. nexts_ok (fst t) (x # ys) qb \<Longrightarrow> nexts_ok (fst (snd (func x a b t))) ys qb"
  shows "q_map qb func a b s = Some (map_until (\<lambda>q. func q a b) xs s)"
proof -
  have "dseg (fst s) qb xs qb" and "qb \<notin> set xs" using assms(1) by (auto simp: is_queue_def)
  with q_map_loop_until [of qb "\<lambda>q. func q a b" s xs] assms(2) dseg_nexts dseg_next show ?thesis
    unfolding q_map_def by (metis (no_types, lifting))
qed

text \<open>Queues whose blocks and elements are different objects do not disturb each other.\<close>

lemma is_queue_cong:
  "(\<And>x. x \<in> set (qb # xs) \<Longrightarrow> q_next h' x = q_next h x \<and> q_prev h' x = q_prev h x) \<Longrightarrow>
     is_queue h' qb xs = is_queue h qb xs"
  unfolding is_queue_def by (subst dseg_cong) auto

lemma q_enqueue_frame:
  assumes "is_queue h qb xs" and "x \<notin> set (qb # xs)" and "x \<noteq> item"
  shows "q_next (q_enqueue qb item h) x = q_next h x \<and> q_prev (q_enqueue qb item h) x = q_prev h x"
proof -
  have "q_prev h qb = last (qb # xs)" using assms(1) unfolding is_queue_def by (blast dest: dseg_prev)
  moreover have "last (qb # xs) \<in> set (qb # xs)" by (rule last_in_set) simp
  ultimately have "q_prev h qb \<in> set (qb # xs)" by simp
  with assms(2,3) show ?thesis by (auto simp: q_enqueue_def Let_def)
qed

lemma q_dequeue_frame:
  assumes "is_queue h qb (xs @ item # ys)" and "x \<notin> set (qb # xs @ item # ys)"
  shows "q_next (q_dequeue item h) x = q_next h x \<and> q_prev (q_dequeue item h) x = q_prev h x"
proof -
  have "dseg h qb xs item" and "dseg h item ys qb" using assms(1) by (auto simp: is_queue_def)
  then have "q_prev h item = last (qb # xs)" and "q_next h item = hd (ys @ [qb])"
    by (blast dest: dseg_prev dseg_next)+
  moreover have "last (qb # xs) \<in> set (qb # xs)" by (rule last_in_set) simp
  moreover have "hd (ys @ [qb]) \<in> set (ys @ [qb])" by (rule hd_in_set) simp
  ultimately have "q_prev h item \<in> set (qb # xs)" and "q_next h item \<in> set (ys @ [qb])" by simp_all
  with assms(2) show ?thesis by (auto simp: q_dequeue_def Let_def)
qed

section \<open>The queue interface\<close>

text \<open>Taking \<open>n\<close> elements with an operation that returns one element at a time.\<close>

fun drain :: "('h \<Rightarrow> 'p \<times> 'h) \<Rightarrow> nat \<Rightarrow> 'h \<Rightarrow> 'p list \<times> 'h" where
  "drain deq 0 h = ([], h)"
| "drain deq (Suc n) h = (let (x, h) = deq h; (xs, h) = drain deq n h in (x # xs, h))"

text \<open>
  What the callers of the queue manager (the USB stack) rely on: each block represents a list of
  distinct elements, elements are added behind and taken from the front, any element can be
  unlinked, and an operation on one queue keeps every queue it shares no object with.
\<close>

locale linked_queue =
  fixes enq :: "'p \<Rightarrow> 'p \<Rightarrow> 'h \<Rightarrow> 'h"
    and unlink :: "'p \<Rightarrow> 'h \<Rightarrow> 'h"
    and deqnext :: "'p \<Rightarrow> 'h \<Rightarrow> 'p \<times> 'h"
    and null :: "'p"
    and rep :: "'h \<Rightarrow> 'p \<Rightarrow> 'p list \<Rightarrow> bool"
  assumes rep_distinct: "rep h q xs \<Longrightarrow> distinct (q # xs)"
    and rep_enq: "rep h q xs \<Longrightarrow> x \<notin> set (q # xs) \<Longrightarrow> rep (enq q x h) q (xs @ [x])"
    and rep_unlink: "rep h q (xs @ x # ys) \<Longrightarrow> rep (unlink x h) q (xs @ ys)"
    and deqnext_empty: "rep h q [] \<Longrightarrow> deqnext q h = (null, h)"
    and deqnext_front: "rep h q (x # xs) \<Longrightarrow> deqnext q h = (x, unlink x h)"
    and enq_other: "rep h q xs \<Longrightarrow> rep h r ys \<Longrightarrow> set (q # x # xs) \<inter> set (r # ys) = {} \<Longrightarrow> rep (enq q x h) r ys"
    and unlink_other: "rep h q (xs @ x # zs) \<Longrightarrow> rep h r ys \<Longrightarrow>
      set (q # xs @ x # zs) \<inter> set (r # ys) = {} \<Longrightarrow> rep (unlink x h) r ys"
begin

lemma rep_enq_all:
  "rep h q xs \<Longrightarrow> distinct ys \<Longrightarrow> set ys \<inter> set (q # xs) = {} \<Longrightarrow> rep (fold (enq q) ys h) q (xs @ ys)"
proof (induction ys arbitrary: h xs)
  case (Cons y ys)
  then have "rep (enq q y h) q (xs @ [y])" by (intro rep_enq) auto
  with Cons.IH [OF this] Cons.prems show ?case by auto
qed simp

lemma enq_all_other:
  "rep h q xs \<Longrightarrow> distinct zs \<Longrightarrow> set zs \<inter> set (q # xs) = {} \<Longrightarrow> rep h r ys \<Longrightarrow>
     set (q # zs @ xs) \<inter> set (r # ys) = {} \<Longrightarrow> rep (fold (enq q) zs h) r ys"
proof (induction zs arbitrary: h xs)
  case (Cons z zs)
  then have "rep (enq q z h) q (xs @ [z])" by (intro rep_enq) auto
  moreover have "rep (enq q z h) r ys" using Cons.prems by (intro enq_other) auto
  ultimately show ?case using Cons.IH [of "enq q z h" "xs @ [z]"] Cons.prems by auto
qed simp

lemma rep_drain:
  "rep h q (xs @ ys) \<Longrightarrow> \<exists>h'. drain (deqnext q) (length xs) h = (xs, h') \<and> rep h' q ys"
proof (induction xs arbitrary: h)
  case (Cons x xs)
  then have "deqnext q h = (x, unlink x h)" and "rep (unlink x h) q (xs @ ys)"
    using deqnext_front [of h q x "xs @ ys"] rep_unlink [of h q "[]" x "xs @ ys"] by auto
  with Cons.IH [of "unlink x h"] show ?case by auto
qed simp

lemma fifo:
  assumes "rep h q xs" and "distinct ys" and "set ys \<inter> set (q # xs) = {}"
  shows "\<exists>h'. drain (deqnext q) (length xs + length ys) (fold (enq q) ys h) = (xs @ ys, h') \<and> rep h' q []
     \<and> deqnext q h' = (null, h')"
  using rep_drain [of "fold (enq q) ys h" q "xs @ ys" "[]"] rep_enq_all [OF assms] deqnext_empty
  by auto

end

interpretation lq: linked_queue q_enqueue q_dequeue q_deqnext 0 is_queue
proof unfold_locales
  show "\<And>h q xs. is_queue h q xs \<Longrightarrow> distinct (q # xs)"
    by (rule is_queue_distinct)
  show "\<And>h q xs x. is_queue h q xs \<Longrightarrow> x \<notin> set (q # xs) \<Longrightarrow> is_queue (q_enqueue q x h) q (xs @ [x])"
    by (rule q_enqueue_queue)
  show "\<And>h q xs x ys. is_queue h q (xs @ x # ys) \<Longrightarrow> is_queue (q_dequeue x h) q (xs @ ys)"
    by (rule q_dequeue_queue)
  show "\<And>h q. is_queue h q [] \<Longrightarrow> q_deqnext q h = (0, h)"
    by (rule q_deqnext_queue)
  show "\<And>h q x xs. is_queue h q (x # xs) \<Longrightarrow> q_deqnext q h = (x, q_dequeue x h)"
    by (subst q_deqnext_dequeue) (auto simp: is_queue_def)
  show "is_queue (q_enqueue q x h) r ys"
    if "is_queue h q xs" "is_queue h r ys" "set (q # x # xs) \<inter> set (r # ys) = {}" for h q xs r ys x
  proof (subst is_queue_cong [where h = h])
    fix y assume "y \<in> set (r # ys)"
    with that(3) have "y \<notin> set (q # xs)" and "y \<noteq> x" by (auto simp: disjoint_iff)
    then show "q_next (q_enqueue q x h) y = q_next h y \<and> q_prev (q_enqueue q x h) y = q_prev h y"
      by (rule q_enqueue_frame [OF that(1)])
  qed (rule that(2))
  show "is_queue (q_dequeue x h) r ys"
    if "is_queue h q (xs @ x # zs)" "is_queue h r ys" "set (q # xs @ x # zs) \<inter> set (r # ys) = {}"
    for h q xs x zs r ys
  proof (subst is_queue_cong [where h = h])
    fix y assume "y \<in> set (r # ys)"
    with that(3) have "y \<notin> set (q # xs @ x # zs)" by (auto simp: disjoint_iff)
    then show "q_next (q_dequeue x h) y = q_next h y \<and> q_prev (q_dequeue x h) y = q_prev h y"
      by (rule q_dequeue_frame [OF that(1)])
  qed (rule that(2))
qed

section \<open>Properties\<close>

text \<open>C33: the queue is first in, first out: elements enqueued on a queue come out of \<open>q_deqnext\<close>
  behind the ones that were there, in order, after which the queue is empty and \<open>q_deqnext\<close>
  returns \<^verbatim>\<open>NULL\<close>.\<close>

theorem queue_fifo:
  assumes "is_queue h qb xs" and "distinct ys" and "set ys \<inter> set (qb # xs) = {}"
  shows "\<exists>h'. drain (q_deqnext qb) (length xs + length ys) (fold (q_enqueue qb) ys h) = (xs @ ys, h')
     \<and> is_queue h' qb [] \<and> q_deqnext qb h' = (0, h')"
  using assms by (rule lq.fifo)

theorem queue_fifo_witness:
  "\<exists>h'. drain (q_deqnext 100) (length ([] :: addr list) + length [200 :: addr, 300])
       (fold (q_enqueue 100) [200, 300] (q_init 100 \<lparr>q_next = \<lambda>_. 0, q_prev = \<lambda>_. 0\<rparr>)) = ([] @ [200, 300], h')
     \<and> is_queue h' 100 [] \<and> q_deqnext 100 h' = (0, h')"
proof -
  have "is_queue (q_init 100 \<lparr>q_next = \<lambda>_. 0, q_prev = \<lambda>_. 0\<rparr>) 100 []"
    by (rule q_init_queue)
  moreover have "distinct [200 :: addr, 300]" and "set [200, 300] \<inter> set [100 :: addr] = {}" by simp_all
  ultimately show ?thesis by (rule queue_fifo)
qed

lemma queue_unlink_facts:
  assumes "is_queue h qb (xs @ item # ys)"
  shows "is_queue (q_dequeue item h) qb (xs @ ys)"
    and "q_count qb h = Some (Suc (length xs + length ys))"
    and "q_count qb (q_dequeue item h) = Some (length xs + length ys)"
    and "q_find qb item h = Some (Suc (length xs))"
    and "q_find qb item (q_dequeue item h) = Some 0"
proof -
  have dist: "distinct (qb # xs @ item # ys)" by (rule is_queue_distinct [OF assms])
  show q: "is_queue (q_dequeue item h) qb (xs @ ys)" by (rule q_dequeue_queue [OF assms])
  show "q_count qb h = Some (Suc (length xs + length ys))" using q_count_queue [OF assms] by simp
  show "q_count qb (q_dequeue item h) = Some (length xs + length ys)" using q_count_queue [OF q] by simp
  have "position item n (xs @ item # ys) = n + length xs" for n
    using dist by (induction xs arbitrary: n) auto
  then show "q_find qb item h = Some (Suc (length xs))" using q_find_queue [OF assms] dist by auto
  show "q_find qb item (q_dequeue item h) = Some 0"
    using q_find_queue [OF q, of item] dist position_0 [of 1 item "xs @ ys"] by auto
qed

text \<open>C34: \<open>q_dequeue\<close> unlinks exactly the given element wherever it is: the rest keeps its order,
  \<open>q_count\<close> goes down by one and \<open>q_find\<close>, which gives the one-based position of an element of
  the queue, no longer finds it. Both loops return.\<close>

theorem queue_unlink:
  assumes "is_queue h qb (xs @ item # ys)"
  shows "is_queue (q_dequeue item h) qb (xs @ ys)
     \<and> q_count qb h = Some (Suc (length xs + length ys))
     \<and> q_count qb (q_dequeue item h) = Some (length xs + length ys)
     \<and> q_find qb item h = Some (Suc (length xs))
     \<and> q_find qb item (q_dequeue item h) = Some 0"
  using queue_unlink_facts [OF assms] by blast

theorem queue_unlink_witness:
  "q_find 100 300 (q_dequeue 300 (fold (q_enqueue 100) [200, 300, 400] (q_init 100 \<lparr>q_next = \<lambda>_. 0, q_prev = \<lambda>_. 0\<rparr>)))
     = Some 0"
proof -
  have "is_queue (fold (q_enqueue 100) [200, 300, 400] (q_init 100 \<lparr>q_next = \<lambda>_. 0, q_prev = \<lambda>_. 0\<rparr>)) 100 ([] @ [200, 300, 400])"
    by (rule lq.rep_enq_all [OF q_init_queue]) auto
  then have "is_queue (fold (q_enqueue 100) [200, 300, 400] (q_init 100 \<lparr>q_next = \<lambda>_. 0, q_prev = \<lambda>_. 0\<rparr>)) 100 ([200] @ 300 # [400])"
    by simp
  from queue_unlink [OF this] show ?thesis by blast
qed

end
