(* ===== verification/Xell_Malloc.thy ===== *)
theory Xell_Malloc
  imports Xell_Prelude "HOL-Library.Monad_Syntax"
begin

unbundle bit_operations_syntax

text \<open>
  The memory manager of \<^verbatim>\<open>nocfe/lib_malloc.c\<close>: a pool is a contiguous chain of nodes, each a header
  followed by its data area. The heap of the model holds the header of every node
  (\<open>node\<close>) and the pointers stored in memory words (\<open>ptr_at\<close>), which are the back pointers written
  in the word before each block; the header is 40 bytes long on the 64-bit target and its last word,
  \<^verbatim>\<open>memnodeptr\<close>, is the word at \<open>m + 32\<close>. Sizes of nodes are 32-bit and addresses 64-bit words, as
  in the code. The loops over the chain are \<open>partial_function (option)\<close>: on a well-formed pool they
  return.
\<close>

section \<open>Data\<close>

datatype memnode_status = memnode_free | memnode_alloc

record memnode =
  seal :: u32
  next_node :: addr
  len :: u32
  status :: memnode_status
  data :: addr

record mempool =
  root :: addr
  base :: addr
  pool_length :: u32

record mheap =
  node :: "addr \<Rightarrow> memnode"
  ptr_at :: "addr \<Rightarrow> addr"

definition MEMNODE_SEAL :: u32 where "MEMNODE_SEAL = 0xFAAFA123"
definition MINBLKSIZE :: u64 where "MINBLKSIZE = 64"
definition sizeof_memnode :: nat where "sizeof_memnode = 40"

definition memnode_data :: "addr \<Rightarrow> addr" where
  "memnode_data m = m + of_nat sizeof_memnode"

definition upd_node :: "addr \<Rightarrow> (memnode \<Rightarrow> memnode) \<Rightarrow> mheap \<Rightarrow> mheap" where
  "upd_node m f h = h\<lparr>node := (node h)(m := f (node h m))\<rparr>"

section \<open>Operations\<close>

definition kmeminit :: "addr \<Rightarrow> u32 \<Rightarrow> mheap \<Rightarrow> mempool \<times> mheap" where
  "kmeminit buffer nbytes h =
     (\<lparr>root = buffer, base = buffer, pool_length = nbytes\<rparr>,
      upd_node buffer (\<lambda>n. n\<lparr>seal := MEMNODE_SEAL, len := nbytes - of_nat sizeof_memnode,
        data := memnode_data buffer, status := memnode_free, next_node := 0\<rparr>) h)"

definition kmempoolbase :: "mempool \<Rightarrow> addr" where
  "kmempoolbase pool = base pool"

definition kmempoolsize :: "mempool \<Rightarrow> int" where
  "kmempoolsize pool = sint (pool_length pool)"

text \<open>One pass over the list: the heap, the number of blocks combined, and whether the pass ran to
  the end (a broken seal makes the whole routine return).\<close>

partial_function (option) compact_pass :: "addr \<Rightarrow> nat \<Rightarrow> mheap \<Rightarrow> (mheap \<times> nat \<times> bool) option" where
  "compact_pass m compacted h =
     (if m = 0 then Some (h, compacted, True)
      else if seal (node h m) \<noteq> MEMNODE_SEAL then Some (h, compacted, False)
      else
        let nxt = next_node (node h m)
        in if nxt \<noteq> 0 \<and> status (node h m) = memnode_free \<and> status (node h nxt) = memnode_free
           then (let h = upd_node m (\<lambda>n. n\<lparr>len := len n + (of_nat sizeof_memnode + len (node h nxt))\<rparr>) h;
                     h = upd_node nxt (\<lambda>n. n\<lparr>seal := 0\<rparr>) h;
                     h = upd_node m (\<lambda>n. n\<lparr>next_node := next_node (node h nxt)\<rparr>) h
                 in compact_pass (next_node (node h m)) (Suc compacted) h)
           else compact_pass nxt compacted h)"

partial_function (option) kmemcompact :: "mempool \<Rightarrow> mheap \<Rightarrow> mheap option" where
  "kmemcompact pool h =
     do { (h, compacted, ok) \<leftarrow> compact_pass (root pool) 0 h;
          if ok \<and> compacted > 0 then kmemcompact pool h else Some h }"

definition kfree :: "mempool \<Rightarrow> addr \<Rightarrow> mheap \<Rightarrow> mheap option" where
  "kfree pool ptr h =
     (if ptr < base pool \<or> ptr \<ge> base pool + ucast (pool_length pool) then Some h
      else let m = ptr_at h (ptr - 8)
           in if seal (node h m) \<noteq> MEMNODE_SEAL then Some h
              else kmemcompact pool (upd_node m (\<lambda>n. n\<lparr>status := memnode_free\<rparr>) h))"

text \<open>The alignment and the size the request is turned into.\<close>

definition kmalloc_align :: "u32 \<Rightarrow> u64" where
  "kmalloc_align align = (if (ucast align :: u64) < 8 then 8 else ucast align)"

definition kmalloc_size :: "u32 \<Rightarrow> u32" where
  "kmalloc_size sz =
     (let sz = (if sz = 0 then 8 else sz)
      in if sz AND 7 \<noteq> 0 then (sz + 8) AND NOT 7 else sz)"

text \<open>The loop that looks for a node: the node or \<open>0\<close>, its data address and the size wanted of it.\<close>

definition kmalloc_realsize :: "u32 \<Rightarrow> u64 \<Rightarrow> addr \<Rightarrow> u64" where
  "kmalloc_realsize sz ptralign daddr =
     (let extra = (if daddr AND (ptralign - 1) \<noteq> 0 then ucast sz + (ptralign - (daddr AND (ptralign - 1))) else 0)
      in ucast sz + extra)"

partial_function (option) kmalloc_find ::
  "u32 \<Rightarrow> u64 \<Rightarrow> mheap \<Rightarrow> addr \<Rightarrow> addr \<Rightarrow> u64 \<Rightarrow> (addr \<times> addr \<times> u64) option" where
  "kmalloc_find sz ptralign h m daddr realsize =
     (if m = 0 then Some (m, daddr, realsize)
      else if status (node h m) = memnode_alloc
      then kmalloc_find sz ptralign h (next_node (node h m)) daddr realsize
      else (let daddr = memnode_data m;
                realsize = kmalloc_realsize sz ptralign daddr
            in if ucast (len (node h m)) < realsize
               then kmalloc_find sz ptralign h (next_node (node h m)) daddr realsize
               else Some (m, daddr, realsize)))"

definition kmalloc_split :: "u32 \<Rightarrow> addr \<Rightarrow> addr \<Rightarrow> mheap \<Rightarrow> mheap" where
  "kmalloc_split sz m daddr h =
     (let daddr = daddr + ucast sz;
          daddr = (if daddr AND 7 \<noteq> 0 then (daddr + 8) AND NOT 7 else daddr);
          blkend = memnode_data m + ucast (len (node h m));
          newm = daddr;
          h = upd_node newm (\<lambda>n. n\<lparr>next_node := next_node (node h m)\<rparr>) h;
          h = upd_node m (\<lambda>n. n\<lparr>len := ucast (daddr - memnode_data m), next_node := newm, status := memnode_alloc\<rparr>) h
      in upd_node newm (\<lambda>n. n\<lparr>seal := MEMNODE_SEAL, data := memnode_data newm,
           len := ucast (blkend - memnode_data newm), status := memnode_free\<rparr>) h)"

definition kmalloc :: "mempool \<Rightarrow> u32 \<Rightarrow> u32 \<Rightarrow> mheap \<Rightarrow> (addr \<times> mheap) option" where
  "kmalloc pool sz align h =
     (let ptralign = kmalloc_align align;
          sz = kmalloc_size sz
      in do { (m, daddr, realsize) \<leftarrow> kmalloc_find sz ptralign h (root pool) 0 0;
              if m = 0 then Some (0, h)
              else
                let daddr = (if daddr AND (ptralign - 1) \<noteq> 0 then (daddr + ptralign) AND NOT (ptralign - 1) else daddr);
                    h = upd_node m (\<lambda>n. n\<lparr>data := daddr, status := memnode_alloc\<rparr>) h;
                    h = h\<lparr>ptr_at := (ptr_at h)(data (node h m) - 8 := m)\<rparr>
                in if ucast (len (node h m)) - realsize < MINBLKSIZE then Some (data (node h m), h)
                   else (let h = kmalloc_split sz m daddr h in Some (data (node h m), h)) })"

record memstats =
  mem_totalbytes :: u32
  mem_allocbytes :: u32
  mem_freebytes :: u32
  mem_allocnodes :: u32
  mem_freenodes :: u32
  mem_largest :: u32

definition memstats_count :: "memnode \<Rightarrow> memstats \<Rightarrow> memstats" where
  "memstats_count n stats =
     (if status n = memnode_alloc
      then stats\<lparr>mem_allocnodes := mem_allocnodes stats + 1, mem_allocbytes := mem_allocbytes stats + len n\<rparr>
      else (let stats = stats\<lparr>mem_freenodes := mem_freenodes stats + 1, mem_freebytes := mem_freebytes stats + len n\<rparr>
            in if len n > mem_largest stats then stats\<lparr>mem_largest := len n\<rparr> else stats))"

text \<open>The checks on a node that make the result \<open>-1\<close>.\<close>

definition memnode_bad :: "mheap \<Rightarrow> addr \<Rightarrow> bool" where
  "memnode_bad h m =
     (let n = node h m; daddr = memnode_data m
      in seal n \<noteq> MEMNODE_SEAL
       \<or> next_node n \<noteq> 0 \<and> daddr + ucast (len n) \<noteq> next_node n
       \<or> next_node n \<noteq> 0 \<and> next_node n < m
       \<or> data n < m
       \<or> status n = memnode_alloc \<and> ptr_at h (data n - 8) \<noteq> m)"

partial_function (option) kmemstats_loop :: "mheap \<Rightarrow> addr \<Rightarrow> memstats \<Rightarrow> (int \<times> memstats) option" where
  "kmemstats_loop h m stats =
     (if m = 0 then Some (0, stats)
      else let stats = memstats_count (node h m) stats
           in if memnode_bad h m then Some (- 1, stats) else kmemstats_loop h (next_node (node h m)) stats)"

definition kmemstats :: "mempool \<Rightarrow> mheap \<Rightarrow> (int \<times> memstats) option" where
  "kmemstats pool h = kmemstats_loop h (root pool)
     \<lparr>mem_totalbytes = pool_length pool, mem_allocbytes = 0, mem_freebytes = 0, mem_allocnodes = 0,
      mem_freenodes = 0, mem_largest = 0\<rparr>"

definition kmem_init :: "addr \<Rightarrow> mheap \<Rightarrow> mempool \<times> mheap" where
  "kmem_init heap h = kmeminit heap (1 * 1024 * 1024) h"


section \<open>Well-formed pools\<close>

definition node_end :: "mheap \<Rightarrow> addr \<Rightarrow> nat" where
  "node_end h m = unat m + sizeof_memnode + unat (len (node h m))"

definition node_ok :: "mheap \<Rightarrow> addr \<Rightarrow> bool" where
  "node_ok h m \<longleftrightarrow> m \<noteq> 0 \<and> 8 dvd unat m \<and> seal (node h m) = MEMNODE_SEAL
     \<and> unat m + sizeof_memnode \<le> unat (data (node h m)) \<and> unat (data (node h m)) \<le> node_end h m
     \<and> (status (node h m) = memnode_alloc \<longrightarrow>
          unat (data (node h m)) < node_end h m \<and> ptr_at h (data (node h m) - 8) = m)"

text \<open>The nodes \<open>ms\<close>, linked from the pointer \<open>p\<close> to the pointer \<open>q\<close>, fill the addresses from \<open>s\<close> to \<open>e\<close>.\<close>

fun chain :: "mheap \<Rightarrow> addr \<Rightarrow> nat \<Rightarrow> addr list \<Rightarrow> addr \<Rightarrow> nat \<Rightarrow> bool" where
  "chain h p s [] q e \<longleftrightarrow> p = q \<and> s = e"
| "chain h p s (m # ms) q e \<longleftrightarrow> p = m \<and> s = unat m \<and> node_ok h m \<and> chain h (next_node (node h m)) (node_end h m) ms q e"

definition pool_ok :: "mempool \<Rightarrow> mheap \<Rightarrow> addr list \<Rightarrow> bool" where
  "pool_ok pool h ms \<longleftrightarrow> base pool = root pool \<and> unat (base pool) + unat (pool_length pool) < 2 ^ 64
     \<and> chain h (root pool) (unat (root pool)) ms 0 (unat (base pool) + unat (pool_length pool))"

text \<open>The blocks handed out: pointer and end of the space behind it.\<close>

definition live :: "mheap \<Rightarrow> addr list \<Rightarrow> (addr \<times> nat) list" where
  "live h ms = map (\<lambda>m. (data (node h m), node_end h m)) (filter (\<lambda>m. status (node h m) = memnode_alloc) ms)"

lemma node_upd_node [simp]: "node (upd_node m f h) = (node h)(m := f (node h m))"
  by (simp add: upd_node_def)

lemma ptr_at_upd_node [simp]: "ptr_at (upd_node m f h) = ptr_at h"
  by (simp add: upd_node_def)

lemma live_Nil [simp]: "live h [] = []"
  by (simp add: live_def)

lemma live_Cons: "live h (m # ms) =
    (if status (node h m) = memnode_alloc then [(data (node h m), node_end h m)] else []) @ live h ms"
  by (simp add: live_def)

lemma live_append [simp]: "live h (ms @ ns) = live h ms @ live h ns"
  by (simp add: live_def)

lemma chain_append: "chain h p s (ms @ ns) q e \<longleftrightarrow> (\<exists>r t. chain h p s ms r t \<and> chain h r t ns q e)"
  by (induction ms arbitrary: p s) auto

lemma chain_node_ok: "chain h p s ms q e \<Longrightarrow> m \<in> set ms \<Longrightarrow> node_ok h m"
  by (induction ms arbitrary: p s) auto

lemma node_end_gt: "unat m + 40 \<le> node_end h m"
  by (simp add: node_end_def sizeof_memnode_def)

lemma chain_le: "chain h p s ms q e \<Longrightarrow> s \<le> e"
proof (induction ms arbitrary: p s)
  case (Cons m ms)
  then show ?case using node_end_gt [of m h] by fastforce
qed simp

lemma chain_bounds: "chain h p s ms q e \<Longrightarrow> m \<in> set ms \<Longrightarrow> s \<le> unat m \<and> node_end h m \<le> e"
proof (induction ms arbitrary: p s)
  case (Cons k ms)
  then show ?case using node_end_gt [of k h] chain_le [of h "next_node (node h k)" "node_end h k" ms q e]
    by fastforce
qed simp

lemma chain_hd_notin: "chain h p s (m # ms) q e \<Longrightarrow> m \<notin> set ms"
  using chain_bounds [of h "next_node (node h m)" "node_end h m" ms q e m] node_end_gt [of m h] by auto

lemma chain_distinct: "chain h p s ms q e \<Longrightarrow> distinct ms"
proof (induction ms arbitrary: p s)
  case (Cons m ms)
  then show ?case using chain_hd_notin [OF Cons.prems] by auto
qed simp

lemma node_end_cong: "node h' m = node h m \<Longrightarrow> node_end h' m = node_end h m"
  by (simp add: node_end_def)

lemma node_ok_cong: "node h' m = node h m \<Longrightarrow> (status (node h m) = memnode_alloc \<Longrightarrow>
    ptr_at h' (data (node h m) - 8) = ptr_at h (data (node h m) - 8)) \<Longrightarrow> node_ok h' m = node_ok h m"
  unfolding node_ok_def node_end_def by auto

lemma chain_cong: "(\<And>m. m \<in> set ms \<Longrightarrow> node h' m = node h m) \<Longrightarrow>
    (\<And>m. m \<in> set ms \<Longrightarrow> status (node h m) = memnode_alloc \<Longrightarrow> ptr_at h' (data (node h m) - 8) = ptr_at h (data (node h m) - 8)) \<Longrightarrow>
    chain h' p s ms q e = chain h p s ms q e"
proof (induction ms arbitrary: p s)
  case (Cons m ms)
  have "node_ok h' m = node_ok h m" by (rule node_ok_cong) (auto simp: Cons.prems)
  moreover have "node_end h' m = node_end h m" by (rule node_end_cong) (auto simp: Cons.prems)
  ultimately show ?case using Cons by simp
qed simp

lemma live_cong: "(\<And>m. m \<in> set ms \<Longrightarrow> node h' m = node h m) \<Longrightarrow> live h' ms = live h ms"
  by (induction ms) (auto simp: live_Cons node_end_def)

section \<open>Coalescing\<close>

text \<open>No two neighbours are free.\<close>

fun coalesced :: "mheap \<Rightarrow> addr list \<Rightarrow> bool" where
  "coalesced h (m # m' # ms) \<longleftrightarrow> (status (node h m) = memnode_alloc \<or> status (node h m') = memnode_alloc) \<and> coalesced h (m' # ms)"
| "coalesced h ms \<longleftrightarrow> True"

definition merge :: "addr \<Rightarrow> addr \<Rightarrow> mheap \<Rightarrow> mheap" where
  "merge m nxt h =
     upd_node m (\<lambda>n. n\<lparr>next_node := next_node (node h nxt)\<rparr>)
       (upd_node nxt (\<lambda>n. n\<lparr>seal := 0\<rparr>)
         (upd_node m (\<lambda>n. n\<lparr>len := len n + (of_nat sizeof_memnode + len (node h nxt))\<rparr>) h))"

lemma merge_unat:
  assumes "node_end h m = unat m'" and "node_end h m' \<le> unat m + 2 ^ 32" 
  shows "unat (len (node h m) + (of_nat sizeof_memnode + len (node h m'))) = unat (len (node h m)) + 40 + unat (len (node h m'))"
proof -
  have lt: "unat (len (node h m)) + (40 + unat (len (node h m'))) < 2 ^ 32"
    using assms by (simp add: node_end_def sizeof_memnode_def)
  then have "unat ((40 :: u32) + len (node h m')) = 40 + unat (len (node h m'))"
    by (subst unat_add_lem [THEN iffD1]) auto
  with lt show ?thesis by (subst unat_add_lem [THEN iffD1]) (auto simp: sizeof_memnode_def)
qed

lemma merge_chain:
  assumes c: "chain h p s (m # m' # ms) q e" and e: "e \<le> unat m + 2 ^ 32"
    and free: "status (node h m) = memnode_free" "status (node h m') = memnode_free"
  shows "chain (merge m m' h) p s (m # ms) q e" and "live (merge m m' h) (m # ms) = live h (m # m' # ms)"
    and "next_node (node (merge m m' h) m) = next_node (node h m')" and "status (node (merge m m' h) m) = memnode_free"
proof -
  have ne: "m \<noteq> m'" "m \<notin> set ms" "m' \<notin> set ms" using chain_distinct [OF c] by auto
  have ends: "node_end h m = unat m'" and "node_end h m' \<le> e"
    using c chain_bounds [OF c, of m'] by auto
  then have len: "unat (len (node (merge m m' h) m)) = unat (len (node h m)) + 40 + unat (len (node h m'))"
    using e ne merge_unat [of h m m'] by (simp add: merge_def)
  then have "node_end (merge m m' h) m = node_end h m'"
    using ends by (simp add: node_end_def sizeof_memnode_def)
  moreover have "node_end h m \<le> node_end h m'" using ends node_end_gt [of m' h] by simp
  ultimately have "node_ok (merge m m' h) m"
    using c ne free by (auto simp: node_ok_def merge_def)
  moreover have "chain (merge m m' h) r t ms q e = chain h r t ms q e" for r t
    using ne by (intro chain_cong) (auto simp: merge_def)
  moreover show "next_node (node (merge m m' h) m) = next_node (node h m')"
    using ne by (simp add: merge_def)
  ultimately show "chain (merge m m' h) p s (m # ms) q e"
    using c \<open>node_end (merge m m' h) m = node_end h m'\<close> by simp
  have "live (merge m m' h) ms = live h ms"
    using ne by (intro live_cong) (auto simp: merge_def)
  then show "live (merge m m' h) (m # ms) = live h (m # m' # ms)"
    using ne free by (simp add: live_Cons merge_def)
  show "status (node (merge m m' h) m) = memnode_free" using ne free by (simp add: merge_def)
qed


text \<open>What a pass over the chain \<open>ms\<close> does: it leaves a chain over the same addresses with the same
  blocks handed out, and when it combines nothing there was nothing to combine.\<close>

definition compacts :: "mheap \<Rightarrow> addr \<Rightarrow> nat \<Rightarrow> addr list \<Rightarrow> nat \<Rightarrow> mheap \<Rightarrow> addr list \<Rightarrow> bool" where
  "compacts h p s ms e h' ms' \<longleftrightarrow> chain h' p s ms' 0 e \<and> length ms' \<le> length ms \<and> set ms' \<subseteq> set ms
     \<and> live h' ms' = live h ms \<and> ptr_at h' = ptr_at h \<and> (\<forall>m. m \<notin> set ms \<longrightarrow> node h' m = node h m)
     \<and> (length ms' = length ms \<longrightarrow> ms' = ms \<and> h' = h \<and> coalesced h ms)"

lemma compacts_merge:
  assumes c: "chain h p s (m # m' # ms) 0 e" and e: "e \<le> unat m + 2 ^ 32"
    and free: "status (node h m) = memnode_free" "status (node h m') = memnode_free"
    and ih: "compacts (merge m m' h) (next_node (node h m')) (node_end (merge m m' h) m) ms e h' ms'"
  shows "compacts h p s (m # m' # ms) e h' (m # ms')"
proof -
  note mc = merge_chain [OF c e free]
  have mm: "m \<notin> set ms" using chain_distinct [OF c] by auto
  have nm: "node h' m = node (merge m m' h) m" and ptr: "ptr_at h' = ptr_at (merge m m' h)"
    using ih mm by (auto simp: compacts_def)
  have "chain h' p s (m # ms') 0 e"
    using ih mc(1,3) nm node_end_cong [OF nm] node_ok_cong [OF nm] ptr by (simp add: compacts_def)
  moreover have "live h' (m # ms') = live h (m # m' # ms)"
    using mc(2,4) ih nm by (simp add: live_Cons compacts_def)
  moreover have "node h' k = node h k" if "k \<notin> set (m # m' # ms)" for k
    using that ih by (simp add: merge_def compacts_def)
  moreover have "ptr_at h' = ptr_at h" using ptr by (simp add: merge_def)
  ultimately show ?thesis using ih by (auto simp: compacts_def)
qed

lemma compacts_skip:
  assumes c: "chain h p s (m # ms) 0 e"
    and keep: "\<And>m' ms2. ms = m' # ms2 \<Longrightarrow> status (node h m) = memnode_alloc \<or> status (node h m') = memnode_alloc"
    and ih: "compacts h (next_node (node h m)) (node_end h m) ms e h' ms'"
  shows "compacts h p s (m # ms) e h' (m # ms')"
proof -
  have "m \<notin> set ms" using chain_distinct [OF c] by auto
  then have nm: "node h' m = node h m" and ptr: "ptr_at h' = ptr_at h"
    using ih by (auto simp: compacts_def)
  have "chain h' p s (m # ms') 0 e"
    using ih c nm node_end_cong [OF nm] node_ok_cong [OF nm] ptr by (simp add: compacts_def)
  moreover have "live h' (m # ms') = live h (m # ms)"
    using ih nm node_end_cong [OF nm] by (simp add: live_Cons compacts_def)
  moreover have "coalesced h (m # ms)" if "coalesced h ms"
    using that keep by (cases ms) auto
  ultimately show ?thesis using ih by (auto simp: compacts_def)
qed

lemma compact_pass_merge_step:
  assumes c: "chain h p s (m # m' # ms) 0 e"
    and free: "status (node h m) = memnode_free" "status (node h m') = memnode_free"
  shows "compact_pass p n h = compact_pass (next_node (node h m')) (Suc n) (merge m m' h)"
  using c free chain_distinct [OF c]
  by (subst compact_pass.simps) (auto simp: merge_def node_ok_def Let_def)

lemma compact_pass_skip_step:
  assumes c: "chain h p s (m # ms) 0 e"
    and keep: "\<And>m' ms2. ms = m' # ms2 \<Longrightarrow> status (node h m) = memnode_alloc \<or> status (node h m') = memnode_alloc"
  shows "compact_pass p n h = compact_pass (next_node (node h m)) n h"
proof (cases ms)
  case Nil
  with c show ?thesis by (subst compact_pass.simps) (simp add: node_ok_def)
next
  case (Cons m' ms2)
  with c keep [OF Cons] show ?thesis by (subst compact_pass.simps) (auto simp: node_ok_def)
qed

lemma compact_pass_chain:
  assumes "chain h p s ms 0 e" and "e \<le> s + 2 ^ 32"
  shows "\<exists>h' ms'. compact_pass p n h = Some (h', n + (length ms - length ms'), True) \<and> compacts h p s ms e h' ms'"
  using assms
proof (induction "length ms" arbitrary: h p s ms n rule: less_induct)
  case less
  show ?case
  proof (cases ms)
    case Nil
    with less.prems show ?thesis by (subst compact_pass.simps) (auto intro!: exI [of _ "[]"] simp: compacts_def)
  next
    case (Cons m ms1)
    with less.prems have c: "chain h p s (m # ms1) 0 e" and e: "e \<le> unat m + 2 ^ 32" by auto
    have e': "e \<le> node_end k m + 2 ^ 32" for k using e node_end_gt [of m k] by simp
    show ?thesis
    proof (cases "\<exists>m' ms2. ms1 = m' # ms2 \<and> status (node h m) = memnode_free \<and> status (node h m') = memnode_free")
      case True
      then obtain m' ms2 where ms1: "ms1 = m' # ms2" and free: "status (node h m) = memnode_free" "status (node h m') = memnode_free"
        by blast
      let ?h = "merge m m' h"
      note c = c [unfolded ms1]
      have "chain ?h (next_node (node h m')) (node_end ?h m) ms2 0 e"
        using merge_chain(1,3) [OF c e free] by simp
      from less.hyps [OF _ this e', where n = "Suc n"] Cons ms1 obtain h' ms'
        where ih: "compact_pass (next_node (node h m')) (Suc n) ?h = Some (h', Suc n + (length ms2 - length ms'), True)"
          "compacts ?h (next_node (node h m')) (node_end ?h m) ms2 e h' ms'"
        by auto
      from compacts_merge [OF c e free ih(2)] compact_pass_merge_step [OF c free, where n = n] ih(1) Cons ms1
      show ?thesis using ih(2) by (intro exI [of _ h'] exI [of _ "m # ms'"]) (auto simp: compacts_def)
    next
      case False
      then have keep: "\<And>m' ms2. ms1 = m' # ms2 \<Longrightarrow> status (node h m) = memnode_alloc \<or> status (node h m') = memnode_alloc"
        by (metis memnode_status.exhaust)
      have "chain h (next_node (node h m)) (node_end h m) ms1 0 e" using c by simp
      from less.hyps [OF _ this e', where n = n] Cons obtain h' ms'
        where ih: "compact_pass (next_node (node h m)) n h = Some (h', n + (length ms1 - length ms'), True)"
          "compacts h (next_node (node h m)) (node_end h m) ms1 e h' ms'"
        by auto
      from compacts_skip [OF c keep ih(2)] compact_pass_skip_step [OF c keep, where n = n] ih(1) Cons
      show ?thesis by (intro exI [of _ h'] exI [of _ "m # ms'"]) simp
    qed
  qed
qed

lemma kmemcompact_ok:
  assumes "pool_ok pool h ms"
  shows "\<exists>h' ms'. kmemcompact pool h = Some h' \<and> pool_ok pool h' ms' \<and> live h' ms' = live h ms \<and> coalesced h' ms'
     \<and> ptr_at h' = ptr_at h"
  using assms
proof (induction "length ms" arbitrary: h ms rule: less_induct)
  case less
  let ?e = "unat (base pool) + unat (pool_length pool)"
  have "?e \<le> unat (root pool) + 2 ^ 32"
    using less.prems unsigned_less [of "pool_length pool", where ?'a = nat] by (simp add: pool_ok_def)
  with compact_pass_chain [of h "root pool" "unat (root pool)" ms ?e 0] less.prems
  obtain h1 ms1 where c: "compact_pass (root pool) 0 h = Some (h1, length ms - length ms1, True)"
    and r: "compacts h (root pool) (unat (root pool)) ms ?e h1 ms1"
    unfolding pool_ok_def by auto
  have ok: "pool_ok pool h1 ms1" using less.prems r by (auto simp: pool_ok_def compacts_def)
  show ?case
  proof (cases "length ms1 = length ms")
    case True
    then have same: "ms1 = ms" "h1 = h" "coalesced h ms" using r by (auto simp: compacts_def)
    then have "kmemcompact pool h = Some h" using c by (subst kmemcompact.simps) simp
    with same less.prems show ?thesis by blast
  next
    case False
    with r have lt: "length ms1 < length ms" by (simp add: compacts_def)
    then have step: "kmemcompact pool h = kmemcompact pool h1" using c by (subst kmemcompact.simps) simp
    have "live h1 ms1 = live h ms" "ptr_at h1 = ptr_at h" using r by (auto simp: compacts_def)
    with less.hyps [OF lt ok] show ?thesis unfolding step by simp
  qed
qed


lemma chain_apart:
  "chain h p s ms q e \<Longrightarrow> m \<in> set ms \<Longrightarrow> m' \<in> set ms \<Longrightarrow> m \<noteq> m' \<Longrightarrow>
     node_end h m \<le> unat m' \<or> node_end h m' \<le> unat m"
proof (induction ms arbitrary: p s)
  case (Cons k ms)
  then show ?case
    using chain_bounds [of h "next_node (node h k)" "node_end h k" ms q e] by auto
qed simp

lemma chain_data_distinct:
  assumes "chain h p s ms q e" and "m \<in> set ms" and "m' \<in> set ms" and "m \<noteq> m'"
    and "unat m + 40 \<le> d" and "d \<le> node_end h m"
  shows "d \<noteq> unat (data (node h m'))"
  using chain_apart [OF assms(1-4)] chain_node_ok [OF assms(1,3)] assms(5,6)
  by (auto simp: node_ok_def sizeof_memnode_def)

lemma live_mem: "(p, e) \<in> set (live h ms) \<longleftrightarrow>
    (\<exists>m\<in>set ms. status (node h m) = memnode_alloc \<and> p = data (node h m) \<and> e = node_end h m)"
  by (auto simp: live_def)

lemma kmeminit_ok:
  assumes "unat buffer + unat n < 2 ^ 64" and "40 \<le> n" and "8 dvd unat buffer" and "buffer \<noteq> 0"
    and "kmeminit buffer n h = (pool, h')"
  shows "pool_ok pool h' [buffer]" and "live h' [buffer] = []" and "base pool = buffer" and "pool_length pool = n"
proof -
  have n: "40 \<le> unat n" using assms(2) by (simp add: word_le_nat_alt)
  then have len: "unat (n - 40) = unat n - 40" by (simp add: unat_sub word_le_nat_alt)
  have d: "unat (buffer + 40) = unat buffer + 40"
    using assms(1) n by (subst unat_add_lem [THEN iffD1]) auto
  show "pool_ok pool h' [buffer]" "live h' [buffer] = []" "base pool = buffer" "pool_length pool = n"
    using assms n len d
    by (auto simp: kmeminit_def pool_ok_def node_ok_def node_end_def sizeof_memnode_def memnode_data_def live_Cons)
qed

text \<open>Marking a node free takes its block away and keeps the chain.\<close>

lemma free_node_chain:
  fixes m
  defines "f \<equiv> upd_node m (\<lambda>n. n\<lparr>status := memnode_free\<rparr>)"
  assumes "chain h p s ms q e"
  shows "chain (f h) p s ms q e"
  using assms(2)
proof (induction ms arbitrary: p s)
  case (Cons k ms)
  have "node_ok h k \<Longrightarrow> node_ok (f h) k" by (auto simp: f_def node_ok_def node_end_def)
  moreover have "next_node (node (f h) k) = next_node (node h k)" "node_end (f h) k = node_end h k"
    by (auto simp: f_def node_end_def)
  ultimately show ?case using Cons by simp
qed simp

lemma free_node_live:
  assumes "chain h p s ms q e" and "m \<in> set ms" and "status (node h m) = memnode_alloc"
  shows "live (upd_node m (\<lambda>n. n\<lparr>status := memnode_free\<rparr>) h) ms = filter (\<lambda>b. fst b \<noteq> data (node h m)) (live h ms)"
proof -
  have *: "data (node h k) \<noteq> data (node h m)" if "k \<in> set ms" "k \<noteq> m" for k
    using chain_data_distinct [OF assms(1,2) that(1), of "unat (data (node h m))"] that(2)
      chain_node_ok [OF assms(1,2)] by (auto simp: node_ok_def sizeof_memnode_def)
  have "live (upd_node m (\<lambda>n. n\<lparr>status := memnode_free\<rparr>) h) ks = filter (\<lambda>b. fst b \<noteq> data (node h m)) (live h ks)"
    if "set ks \<subseteq> set ms" for ks
    using that
  proof (induction ks)
    case (Cons k ks)
    then show ?case using * [of k] assms(3) by (cases "k = m") (auto simp: live_Cons node_end_def)
  qed simp
  then show ?thesis by blast
qed

lemma kfree_ok:
  assumes ok: "pool_ok pool h ms" and p: "(p, e) \<in> set (live h ms)"
  shows "\<exists>h' ms'. kfree pool p h = Some h' \<and> pool_ok pool h' ms' \<and> coalesced h' ms'
     \<and> live h' ms' = filter (\<lambda>b. fst b \<noteq> p) (live h ms)"
proof -
  let ?e = "unat (base pool) + unat (pool_length pool)"
  obtain m where m: "m \<in> set ms" "status (node h m) = memnode_alloc" "p = data (node h m)" "e = node_end h m"
    using p by (auto simp: live_mem)
  have c: "chain h (root pool) (unat (root pool)) ms 0 ?e" and lt: "?e < 2 ^ 64" and base: "base pool = root pool"
    using ok by (auto simp: pool_ok_def)
  have nok: "node_ok h m" and bd: "unat (root pool) \<le> unat m" "node_end h m \<le> ?e"
    using chain_node_ok [OF c m(1)] chain_bounds [OF c m(1)] by auto
  have "unat (base pool + ucast (pool_length pool)) = ?e"
    using lt by (subst unat_add_lem [THEN iffD1]) auto
  then have range: "\<not> p < base pool" "\<not> p \<ge> base pool + ucast (pool_length pool)"
    using nok bd m base by (auto simp: word_less_nat_alt word_le_nat_alt node_ok_def sizeof_memnode_def)
  let ?h = "upd_node m (\<lambda>n. n\<lparr>status := memnode_free\<rparr>) h"
  have "kfree pool p h = kmemcompact pool ?h"
    using range nok m by (simp add: kfree_def node_ok_def)
  moreover have "pool_ok pool ?h ms"
    using ok free_node_chain [OF c, of m] by (auto simp: pool_ok_def)
  moreover have "live ?h ms = filter (\<lambda>b. fst b \<noteq> p) (live h ms)"
    unfolding m(3) by (rule free_node_live [OF c m(1,2)])
  ultimately show ?thesis using kmemcompact_ok [of pool ?h ms] by auto
qed

text \<open>A pointer outside the pool is ignored.\<close>

lemma kfree_foreign:
  "p < base pool \<or> base pool + ucast (pool_length pool) \<le> p \<Longrightarrow> kfree pool p h = Some h"
  by (auto simp: kfree_def)

text \<open>Once every block is returned and the list is compacted, the pool is one free node again.\<close>

lemma coalesced_all_free:
  "coalesced h ms \<Longrightarrow> live h ms = [] \<Longrightarrow> length ms \<le> 1"
  by (induction h ms rule: coalesced.induct) (auto simp: live_Cons split: if_splits)

lemma pool_empty:
  assumes "pool_ok pool h ms" and "coalesced h ms" and "live h ms = []" and "0 < pool_length pool"
  shows "ms = [root pool]" and "status (node h (root pool)) = memnode_free"
    and "unat (len (node h (root pool))) + 40 = unat (pool_length pool)"
proof -
  have "ms \<noteq> []" using assms(1,4) by (auto simp: pool_ok_def word_less_nat_alt)
  with coalesced_all_free [OF assms(2,3)] obtain m where "ms = [m]" by (cases ms) auto
  with assms show "ms = [root pool]" "status (node h (root pool)) = memnode_free"
    "unat (len (node h (root pool))) + 40 = unat (pool_length pool)"
    by (auto simp: pool_ok_def live_Cons node_end_def sizeof_memnode_def split: if_splits intro: memnode_status.exhaust)
qed


section \<open>Allocation\<close>

text \<open>The size asked for, rounded up to whole pointers.\<close>

lemma kmalloc_size_spec:
  assumes "unat sz \<le> 2 ^ 32 - 8"
  shows "8 dvd unat (kmalloc_size sz)" and "unat sz \<le> unat (kmalloc_size sz)" and "8 \<le> unat (kmalloc_size sz)"
    and "unat (kmalloc_size sz) < max 9 (unat sz + 8)"
proof -
  have m: "(w :: u32) AND 7 = take_bit 3 w" "(w :: u32) AND - 8 = w - take_bit 3 w" for w
    using and_mask_take_bit [of w 3] and_not_mask [of w 3] by simp_all
  define t where "t = (if sz = 0 then 8 else sz)"
  have t: "0 < unat t" "unat sz \<le> unat t" "unat t \<le> 2 ^ 32 - 8" "unat t = (if sz = 0 then 8 else unat sz)"
    using assms by (auto simp: t_def unat_gt_0)
  have tb: "take_bit 3 t = 0 \<longleftrightarrow> 8 dvd unat t"
    using unat_take_bit_mod [of 3 t] by (simp add: dvd_eq_mod_eq_0 flip: unat_eq_0)
  have size: "kmalloc_size sz = (if 8 dvd unat t then t else (t + 8) - take_bit 3 (t + 8))"
    by (simp add: kmalloc_size_def m tb flip: t_def)
  have "\<not> 8 dvd unat t \<Longrightarrow> unat (kmalloc_size sz) = unat t + 8 - (unat t + 8) mod 8"
  proof -
    assume nd: "\<not> 8 dvd unat t"
    with t(3) have "unat t + 8 < 2 ^ 32"
      by (cases "unat t = 2 ^ 32 - 8") auto
    then have t8: "unat (t + 8) = unat t + 8" by (subst unat_add_lem [THEN iffD1]) auto
    have "take_bit 3 (t + 8) \<le> t + 8" by (simp add: word_le_nat_alt unat_take_bit_mod)
    then have "unat (t + 8 - take_bit 3 (t + 8)) = unat (t + 8) - unat (t + 8) mod 2 ^ 3"
      by (simp add: unat_sub unat_take_bit_mod)
    with nd size t8 show ?thesis by simp
  qed
  then have k: "unat (kmalloc_size sz) = (if 8 dvd unat t then unat t else unat t + 8 - unat t mod 8)"
    using size by simp
  have "unat t + 8 - unat t mod 8 = (unat t - unat t mod 8) + 8" by (simp add: Nat.add_diff_assoc2)
  then have d: "8 dvd unat t + 8 - unat t mod 8"
    using dvd_add [OF dvd_minus_mod [of 8 "unat t"], of 8] by simp
  define q where "q = unat t mod 8"
  have r: "q < 8" "\<not> 8 dvd unat t \<Longrightarrow> 0 < q"
    unfolding q_def by (simp, simp only: dvd_eq_mod_eq_0 neq0_conv)
  note k = k [folded q_def] and d = d [folded q_def]
  show dv: "8 dvd unat (kmalloc_size sz)" using k d by (simp split: if_split)
  show "unat sz \<le> unat (kmalloc_size sz)" using k r(1) t(2) by (cases "8 dvd unat t") simp_all
  have "0 < unat (kmalloc_size sz)" using k r(1) t(1) by (cases "8 dvd unat t") simp_all
  with dv show "8 \<le> unat (kmalloc_size sz)" by (rule dvd_imp_le)
  show "unat (kmalloc_size sz) < max 9 (unat sz + 8)"
  proof (cases "8 dvd unat t")
    case True
    with k t(4) show ?thesis by (simp split: if_splits)
  next
    case False
    with t(4) have "unat t = unat sz" by (auto split: if_splits)
    with False k r show ?thesis by simp
  qed
qed

lemma kmalloc_align_spec:
  assumes "align = 0 \<or> (\<exists>k. unat align = 2 ^ k)"
  obtains k where "kmalloc_align align = 2 ^ k" and "3 \<le> k" and "k < 32" and "unat align dvd 2 ^ k \<or> align = 0"
proof (cases "unat align < 8")
  case True
  then have "kmalloc_align align = 2 ^ 3" by (simp add: kmalloc_align_def word_less_nat_alt)
  moreover have "unat align dvd 2 ^ 3 \<or> align = 0"
  proof (cases "align = 0")
    case False
    then obtain k where k: "unat align = 2 ^ k" using assms by auto
    then have "(2 :: nat) ^ k < 2 ^ 3" using True by simp
    then have "k \<le> 3" using power_less_imp_less_exp [of "2 :: nat" k 3] by simp
    then show ?thesis using k le_imp_power_dvd [of k 3 "2 :: nat"] by simp
  qed simp
  ultimately show ?thesis using that [of 3] by simp
next
  case False
  then obtain k where k: "unat align = 2 ^ k" using assms by auto
  have "(2 :: nat) ^ 3 \<le> 2 ^ k" "(2 :: nat) ^ k < 2 ^ 32"
    using False k unsigned_less [of align, where ?'a = nat] by simp_all
  then have "3 \<le> k" "k < 32"
    using power_le_imp_le_exp [of "2 :: nat" 3 k] power_less_imp_less_exp [of "2 :: nat" k 32] by auto
  moreover have "(ucast align :: u64) = 2 ^ k"
  proof -
    have "(ucast align :: u64) = of_nat (unat align)" by simp
    then show ?thesis using k by simp
  qed
  moreover have "kmalloc_align align = ucast align"
    using False by (simp add: kmalloc_align_def word_less_nat_alt)
  ultimately show ?thesis using that [of k] k by simp
qed

text \<open>The aligned address, the space the search asks for, and that they fit.\<close>

definition aligned_data :: "nat \<Rightarrow> nat \<Rightarrow> nat" where
  "aligned_data k d = (if d mod 2 ^ k = 0 then d else d + (2 ^ k - d mod 2 ^ k))"

lemma aligned_data_spec: "2 ^ k dvd aligned_data k d" "d \<le> aligned_data k d" "aligned_data k d < d + 2 ^ k"
proof -
  have "d + (2 ^ k - d mod 2 ^ k) = (d - d mod 2 ^ k) + 2 ^ k"
    using mod_less_divisor [of "2 ^ k" d] mod_less_eq_dividend [of d "2 ^ k"] by auto
  then show "2 ^ k dvd aligned_data k d"
    using dvd_add [OF dvd_minus_mod [of "2 ^ k" d], of "2 ^ k"] by (auto simp: aligned_data_def)
  have "d mod 2 ^ k < 2 ^ k" by simp
  then show "d \<le> aligned_data k d" "aligned_data k d < d + 2 ^ k"
    unfolding aligned_data_def by (auto simp del: mod_less_divisor)
qed

lemma unat_take_bit_sub:
  assumes "k < 64"
  shows "unat ((2 :: u64) ^ k - take_bit k d) = 2 ^ k - unat d mod 2 ^ k"
proof -
  have p: "unat ((2 :: u64) ^ k) = 2 ^ k"
    using power_strict_increasing [OF assms, of "2 :: nat"] of_nat_inverse [of "2 ^ k" "2 ^ k :: u64"] by simp
  then have "take_bit k d \<le> 2 ^ k" by (simp add: word_le_nat_alt unat_take_bit_mod order_less_imp_le)
  then show ?thesis by (simp add: unat_sub p unat_take_bit_mod)
qed

lemma kmalloc_realsize_spec:
  assumes "k < 32"
  shows "unat (kmalloc_realsize sz (2 ^ k) d) =
     (if unat d mod 2 ^ k = 0 then unat sz else unat sz + (unat sz + (aligned_data k (unat d) - unat d)))"
proof -
  have b: "unat sz < 2 ^ 32" using unsigned_less [of sz, where ?'a = nat] by simp
  have "(2 :: nat) ^ k < 2 ^ 32" using power_strict_increasing [OF assms, of "2 :: nat"] by simp
  then have u: "unat ((2 :: u64) ^ k - take_bit k d) = 2 ^ k - unat d mod 2 ^ k" and lt: "2 ^ k - unat d mod 2 ^ k < (2 ^ 32 :: nat)"
    using unat_take_bit_sub [of k d] assms by auto
  have z: "take_bit k d = 0 \<longleftrightarrow> unat d mod 2 ^ k = 0"
    using unat_take_bit_mod [of k d] by (simp flip: unat_eq_0)
  have s1: "unat (ucast sz + (2 ^ k - take_bit k d) :: u64) = unat sz + (2 ^ k - unat d mod 2 ^ k)"
    using u lt b by (subst unat_add_lem [THEN iffD1]) auto
  then have "unat (ucast sz + (ucast sz + (2 ^ k - take_bit k d)) :: u64) = unat sz + (unat sz + (2 ^ k - unat d mod 2 ^ k))"
    using lt b by (subst unat_add_lem [THEN iffD1]) auto
  then show ?thesis by (simp add: kmalloc_realsize_def and_mask_take_bit z aligned_data_def)
qed

lemma kmalloc_daddr_spec:
  fixes d :: addr
  assumes "k < 32" and "aligned_data k (unat d) < 2 ^ 64"
  shows "unat (if d AND (2 ^ k - 1) \<noteq> 0 then (d + 2 ^ k) AND NOT (2 ^ k - 1) else d) = aligned_data k (unat d)"
proof -
  have u: "unat ((2 :: u64) ^ k - take_bit k d) = 2 ^ k - unat d mod 2 ^ k"
    using unat_take_bit_sub [of k d] assms(1) by simp
  have z: "take_bit k d = 0 \<longleftrightarrow> unat d mod 2 ^ k = 0"
    using unat_take_bit_mod [of k d] by (simp flip: unat_eq_0)
  have "unat d mod 2 ^ k \<noteq> 0 \<Longrightarrow> unat (d + (2 ^ k - take_bit k d)) = aligned_data k (unat d)"
    using u assms(2) by (subst unat_add_lem [THEN iffD1]) (auto simp: aligned_data_def)
  then show ?thesis by (auto simp: and_mask_take_bit align_up z aligned_data_def)
qed

text \<open>The search ends at the first free node with enough room, or at the end of the list.\<close>

lemma kmalloc_find_chain:
  "chain h p s ms 0 e \<Longrightarrow>
   (\<exists>d r. kmalloc_find sz al h p d0 r0 = Some (0, d, r)) \<and>
     (\<forall>m\<in>set ms. status (node h m) = memnode_free \<longrightarrow> ucast (len (node h m)) < kmalloc_realsize sz al (memnode_data m))
   \<or> (\<exists>pre m post. ms = pre @ m # post \<and> status (node h m) = memnode_free
        \<and> kmalloc_realsize sz al (memnode_data m) \<le> ucast (len (node h m))
        \<and> kmalloc_find sz al h p d0 r0 = Some (m, memnode_data m, kmalloc_realsize sz al (memnode_data m)))"
proof (induction ms arbitrary: p s d0 r0)
  case Nil
  then show ?case by (subst kmalloc_find.simps) simp
next
  case (Cons k ms)
  then have k: "p = k" "k \<noteq> 0" and rest: "chain h (next_node (node h k)) (node_end h k) ms 0 e"
    by (auto simp: node_ok_def)
  let ?r = "kmalloc_realsize sz al (memnode_data k)"
  show ?case
  proof (cases "status (node h k) = memnode_free \<and> ?r \<le> ucast (len (node h k))")
    case True
    then have "kmalloc_find sz al h p d0 r0 = Some (k, memnode_data k, ?r)"
      using k by (subst kmalloc_find.simps) (auto simp: Let_def dest: leD)
    with True show ?thesis by (intro disjI2 exI [of _ "[]"]) auto
  next
    case False
    have "\<exists>d r. kmalloc_find sz al h p d0 r0 = kmalloc_find sz al h (next_node (node h k)) d r"
      using kmalloc_find.simps [of sz al h p d0 r0] k False by (cases "status (node h k)") (auto simp: Let_def not_le)
    then obtain d r where step: "kmalloc_find sz al h p d0 r0 = kmalloc_find sz al h (next_node (node h k)) d r"
      by blast
    have "status (node h k) = memnode_free \<Longrightarrow> ucast (len (node h k)) < ?r" using False by (auto simp: not_le)
    with Cons.IH [OF rest, of d r, folded step] show ?thesis
    proof (elim disjE)
      assume "\<exists>pre m post. ms = pre @ m # post \<and> status (node h m) = memnode_free
        \<and> kmalloc_realsize sz al (memnode_data m) \<le> ucast (len (node h m))
        \<and> kmalloc_find sz al h p d0 r0 = Some (m, memnode_data m, kmalloc_realsize sz al (memnode_data m))"
        (is "\<exists>pre m post. ms = pre @ m # post \<and> ?P m")
      then obtain pre m post where "k # ms = (k # pre) @ m # post" and "?P m" by auto
      then show ?thesis by blast
    qed simp
  qed
qed


text \<open>Replacing the node \<open>m\<close> by nodes that fill the same addresses.\<close>

lemma chain_replace:
  assumes c: "chain h p s (pre @ m # post) 0 e"
    and a: "unat m + 40 \<le> unat a" "unat a \<le> node_end h m"
    and same: "\<And>k. k \<in> set pre \<union> set post \<Longrightarrow> node h' k = node h k"
    and ptr: "ptr_at h' = (ptr_at h)(a - 8 := m)"
    and mid: "chain h' m (unat m) mid (next_node (node h m)) (node_end h m)"
  shows "chain h' p s (pre @ mid @ post) 0 e" and "live h' (pre @ mid @ post) = live h pre @ live h' mid @ live h post"
proof -
  have "a \<noteq> data (node h k)" if "k \<in> set pre \<union> set post" for k
    using chain_data_distinct [OF c, of m k "unat a"] a that chain_distinct [OF c] by auto
  then have *: "chain h' p' s' ks q t = chain h p' s' ks q t" if "set ks \<subseteq> set pre \<union> set post" for p' s' ks q t
    using that same ptr by (intro chain_cong) auto
  from c obtain r t where "chain h p s pre r t" "chain h r t (m # post) 0 e"
    by (auto simp: chain_append)
  then show "chain h' p s (pre @ mid @ post) 0 e"
    using mid * [of pre p s] * [of post] by (auto simp: chain_append)
  have "live h' ks = live h ks" if "set ks \<subseteq> set pre \<union> set post" for ks
    using that same by (intro live_cong) auto
  then show "live h' (pre @ mid @ post) = live h pre @ live h' mid @ live h post" by simp
qed

definition kmalloc_mark :: "addr \<Rightarrow> addr \<Rightarrow> mheap \<Rightarrow> mheap" where
  "kmalloc_mark m a h =
     (upd_node m (\<lambda>n. n\<lparr>data := a, status := memnode_alloc\<rparr>) h)\<lparr>ptr_at := (ptr_at h)(a - 8 := m)\<rparr>"

lemma kmalloc_mark_chain:
  assumes c: "chain h p s (pre @ m # post) 0 e" and free: "status (node h m) = memnode_free"
    and a: "unat m + 40 \<le> unat a" "unat a < node_end h m"
  shows "chain (kmalloc_mark m a h) p s (pre @ m # post) 0 e"
    and "live (kmalloc_mark m a h) (pre @ m # post) = live h pre @ (a, node_end h m) # live h post"
proof -
  have "node_ok h m" using chain_node_ok [OF c, of m] by simp
  then have "node_ok (kmalloc_mark m a h) m" "node_end (kmalloc_mark m a h) m = node_end h m"
    using a by (auto simp: node_ok_def kmalloc_mark_def node_end_def sizeof_memnode_def)
  then have mid: "chain (kmalloc_mark m a h) m (unat m) [m] (next_node (node h m)) (node_end h m)"
    "live (kmalloc_mark m a h) [m] = [(a, node_end h m)]"
    by (auto simp: kmalloc_mark_def live_Cons)
  have "m \<notin> set pre \<union> set post" using chain_distinct [OF c] by auto
  then have "\<And>k. k \<in> set pre \<union> set post \<Longrightarrow> node (kmalloc_mark m a h) k = node h k"
    by (auto simp: kmalloc_mark_def)
  moreover have "ptr_at (kmalloc_mark m a h) = (ptr_at h)(a - 8 := m)" by (simp add: kmalloc_mark_def)
  ultimately show "chain (kmalloc_mark m a h) p s (pre @ m # post) 0 e"
    "live (kmalloc_mark m a h) (pre @ m # post) = live h pre @ (a, node_end h m) # live h post"
    using chain_replace [OF c a(1) less_imp_le [OF a(2)] _ _ mid(1)] mid(2) by simp_all
qed

text \<open>The new header of a split lies at \<open>b\<close>, a multiple of 8 in the data area with room behind it.\<close>

lemma kmalloc_split_chain:
  fixes m a sz h
  defines "b \<equiv> a + ucast sz"
  defines "h' \<equiv> kmalloc_split sz m a (kmalloc_mark m a h)"
  assumes c: "chain h p s (pre @ m # post) 0 e" and e: "e < 2 ^ 64"
    and a: "unat m + 40 \<le> unat a" "unat a < unat b" "unat b + 40 \<le> node_end h m" and b: "8 dvd unat b"
  shows "chain h' p s (pre @ [m, b] @ post) 0 e"
    and "live h' (pre @ [m, b] @ post) = live h pre @ (a, unat b) # live h post" and "data (node h' m) = a"
proof -
  have m: "m \<in> set (pre @ m # post)" by simp
  have nok: "node_ok h m" and ne: "node_end h m \<le> e" using chain_node_ok [OF c m] chain_bounds [OF c m] by auto
  have bm: "b \<noteq> m" using a by auto
  have "take_bit 3 b = 0" using b unat_take_bit_mod [of 3 b] by (simp add: dvd_eq_mod_eq_0 flip: unat_eq_0)
  then have "b AND 7 = 0" using and_mask_take_bit [of b 3] by simp
  then have h': "node h' = (node h)(m := (node h m)\<lparr>data := a, status := memnode_alloc, len := ucast (b - (m + 40)), next_node := b\<rparr>,
      b := (node h b)\<lparr>next_node := next_node (node h m), seal := MEMNODE_SEAL, data := b + 40,
              len := ucast (m + 40 + ucast (len (node h m)) - (b + 40)), status := memnode_free\<rparr>)"
    "ptr_at h' = (ptr_at h)(a - 8 := m)"
    using bm unfolding h'_def kmalloc_split_def kmalloc_mark_def b_def [symmetric] Let_def
    by (auto simp: memnode_data_def sizeof_memnode_def)
  have l: "unat (len (node h m)) < 2 ^ 32" using unsigned_less [of "len (node h m)", where ?'a = nat] by simp
  have nem: "node_end h m = unat m + 40 + unat (len (node h m))" by (simp add: node_end_def sizeof_memnode_def)
  have m40: "unat (m + 40) = unat m + 40" using nem ne e by (subst unat_add_lem [THEN iffD1]) auto
  have b40: "unat (b + 40) = unat b + 40" using a ne e by (subst unat_add_lem [THEN iffD1]) auto
  have blk: "unat (m + 40 + ucast (len (node h m))) = node_end h m"
    using nem ne e m40 by (subst unat_add_lem [THEN iffD1]) auto
  have "unat (b - (m + 40)) = unat b - (unat m + 40)"
    using a m40 by (subst unat_sub) (auto simp: word_le_nat_alt)
  then have len1: "unat (ucast (b - (m + 40)) :: u32) = unat b - (unat m + 40)"
    using a nem l by (subst unat_ucast_u64_u32) auto
  have "unat (m + 40 + ucast (len (node h m)) - (b + 40)) = node_end h m - (unat b + 40)"
    using a b40 blk by (subst unat_sub) (auto simp: word_le_nat_alt)
  then have len2: "unat (ucast (m + 40 + ucast (len (node h m)) - (b + 40)) :: u32) = node_end h m - (unat b + 40)"
    using a nem l by (subst unat_ucast_u64_u32) auto
  have ends: "node_end h' m = unat b" "node_end h' b = node_end h m"
    using bm len1 len2 a by (auto simp: node_end_def h'(1) sizeof_memnode_def)
  have "node_ok h' m" "node_ok h' b"
    using nok bm a b b40 ends by (auto simp: node_ok_def h' sizeof_memnode_def)
  then have mid: "chain h' m (unat m) [m, b] (next_node (node h m)) (node_end h m)" "live h' [m, b] = [(a, unat b)]"
    using ends bm by (auto simp: h'(1) live_Cons)
  have "b \<notin> set pre \<union> set post"
  proof
    assume "b \<in> set pre \<union> set post"
    then have "node_end h m \<le> unat b \<or> node_end h b \<le> unat m"
      using chain_apart [OF c m, of b] bm by auto
    then show False using a node_end_gt [of b h] by auto
  qed
  moreover have "m \<notin> set pre \<union> set post" using chain_distinct [OF c] by auto
  ultimately have same: "\<And>k. k \<in> set pre \<union> set post \<Longrightarrow> node h' k = node h k"
    by (auto simp: h'(1))
  have "unat a \<le> node_end h m" using a by simp
  note r = chain_replace [OF c a(1) this same h'(2) mid(1)]
  show "chain h' p s (pre @ [m, b] @ post) 0 e" by (rule r(1))
  show "live h' (pre @ [m, b] @ post) = live h pre @ (a, unat b) # live h post" using r(2) mid(2) by simp
  show "data (node h' m) = a" using bm by (simp add: h'(1))
qed


lemma kmalloc_found:
  assumes "kmalloc_find (kmalloc_size sz) (kmalloc_align align) h (root pool) 0 0 = Some (m, daddr, r)" and "m \<noteq> 0"
    and "a = (if daddr AND (kmalloc_align align - 1) \<noteq> 0 then (daddr + kmalloc_align align) AND NOT (kmalloc_align align - 1) else daddr)"
  shows "kmalloc pool sz align h =
     (let h = kmalloc_mark m a h
      in if ucast (len (node h m)) - r < MINBLKSIZE then Some (a, h)
         else Some (data (node (kmalloc_split (kmalloc_size sz) m a h) m), kmalloc_split (kmalloc_size sz) m a h))"
  using assms unfolding kmalloc_def by (simp add: Let_def kmalloc_mark_def)

text \<open>Room for the block in a node the search accepts.\<close>

lemma kmalloc_room:
  assumes k: "3 \<le> k" "k < 32" and nok: "node_ok h m" and e: "node_end h m < 2 ^ 64"
    and sz: "8 \<le> unat sz" "8 dvd unat sz"
    and fit: "kmalloc_realsize sz (2 ^ k) (memnode_data m) \<le> ucast (len (node h m))"
    and a: "a = (if memnode_data m AND (2 ^ k - 1) \<noteq> 0 then (memnode_data m + 2 ^ k) AND NOT (2 ^ k - 1) else memnode_data m)"
  shows "unat m + 40 \<le> unat a" and "unat a + unat sz \<le> node_end h m" and "2 ^ k dvd unat a"
    and "8 dvd unat (a + ucast sz)" and "unat (a + ucast sz) = unat a + unat sz"
    and "\<not> ucast (len (node h m)) - kmalloc_realsize sz (2 ^ k) (memnode_data m) < MINBLKSIZE \<Longrightarrow> unat a + unat sz + 40 \<le> node_end h m"
proof -
  have nem: "node_end h m = unat m + 40 + unat (len (node h m))" by (simp add: node_end_def sizeof_memnode_def)
  have d: "unat (memnode_data m) = unat m + 40"
    using nem e by (simp add: memnode_data_def sizeof_memnode_def) (subst unat_add_lem [THEN iffD1], auto)
  let ?d = "unat m + 40"
  define R where "R = unat (kmalloc_realsize sz (2 ^ k) (memnode_data m))"
  have R: "R = (if ?d mod 2 ^ k = 0 then unat sz else unat sz + (unat sz + (aligned_data k ?d - ?d)))"
    unfolding R_def using kmalloc_realsize_spec [OF k(2), of sz "memnode_data m"] d by simp
  have RL: "R \<le> unat (len (node h m))" using fit by (simp add: word_le_nat_alt R_def)
  have ad: "?d \<le> aligned_data k ?d" "2 ^ k dvd aligned_data k ?d" by (rule aligned_data_spec)+
  have al: "aligned_data k ?d + unat sz \<le> ?d + R"
    using R ad(1) by (cases "?d mod 2 ^ k = 0") (auto simp: aligned_data_def)
  have ua: "unat a = aligned_data k ?d"
    unfolding a using kmalloc_daddr_spec [OF k(2), of "memnode_data m"] d al RL nem e by simp
  show "unat m + 40 \<le> unat a" using ua ad by simp
  show "unat a + unat sz \<le> node_end h m" using ua al RL nem by simp
  then show s: "unat (a + ucast sz) = unat a + unat sz"
    using e by (subst unat_add_lem [THEN iffD1]) auto
  show dv: "2 ^ k dvd unat a" using ua ad by simp
  have "(2 :: nat) ^ 3 dvd 2 ^ k" using k(1) by (rule le_imp_power_dvd)
  then have "8 dvd unat a" using dv by (simp add: dvd_trans)
  then show "8 dvd unat (a + ucast sz)" using s sz by simp
  assume "\<not> ucast (len (node h m)) - kmalloc_realsize sz (2 ^ k) (memnode_data m) < MINBLKSIZE"
  then have "64 \<le> unat (len (node h m)) - R"
    using fit by (simp add: MINBLKSIZE_def word_less_nat_alt unat_sub R_def)
  then show "unat a + unat sz + 40 \<le> node_end h m" using ua al nem by simp
qed

text \<open>One more block of at least \<open>n\<close> bytes at \<open>p\<close> among the ones handed out.\<close>

definition adds_block :: "mempool \<Rightarrow> mheap \<Rightarrow> addr list \<Rightarrow> addr \<Rightarrow> nat \<Rightarrow> mheap \<Rightarrow> bool" where
  "adds_block pool h ms p n h' \<longleftrightarrow> p \<noteq> 0 \<and> (\<exists>ms' pre post e. pool_ok pool h' ms'
     \<and> live h ms = pre @ post \<and> live h' ms' = pre @ (p, e) # post \<and> unat p + n \<le> e)"

lemma adds_blockI:
  "pool_ok pool h' ms' \<Longrightarrow> live h' ms' = pre @ (p, e) # post \<Longrightarrow> live h ms = pre @ post \<Longrightarrow> p \<noteq> 0 \<Longrightarrow>
     unat p + n \<le> e \<Longrightarrow> adds_block pool h ms p n h'"
  unfolding adds_block_def by blast

lemma kmalloc_take:
  fixes sz :: u32 and align :: u32 and m :: addr
  defines "s \<equiv> kmalloc_size sz" and "al \<equiv> kmalloc_align align" and "d \<equiv> memnode_data m"
  assumes ok: "pool_ok pool h ms" and k: "al = 2 ^ k" "3 \<le> k" "k < 32" and sz: "unat sz \<le> 2 ^ 32 - 8"
    and ms: "ms = pre @ m # post" and free: "status (node h m) = memnode_free"
    and fit: "kmalloc_realsize s al d \<le> ucast (len (node h m))"
    and found: "kmalloc_find s al h (root pool) 0 0 = Some (m, d, kmalloc_realsize s al d)"
  shows "\<exists>p h'. kmalloc pool sz align h = Some (p, h') \<and> adds_block pool h ms p (unat sz) h' \<and> 2 ^ k dvd unat p"
proof -
  let ?e = "unat (base pool) + unat (pool_length pool)"
  note szs = kmalloc_size_spec [OF sz, folded s_def]
  have c: "chain h (root pool) (unat (root pool)) (pre @ m # post) 0 ?e" and e: "?e < 2 ^ 64"
    using ok ms by (auto simp: pool_ok_def)
  have m: "m \<in> set (pre @ m # post)" by simp
  have nok: "node_ok h m" and ne: "node_end h m \<le> ?e" and m0: "m \<noteq> 0"
    using chain_node_ok [OF c m] chain_bounds [OF c m] by (auto simp: node_ok_def)
  define a where "a = (if d AND (al - 1) \<noteq> 0 then (d + al) AND NOT (al - 1) else d)"
  have "node_end h m < 2 ^ 64" using ne e by simp
  note room = kmalloc_room [OF k(2,3) nok this szs(3,1) fit [unfolded k(1) d_def] a_def [unfolded k(1) d_def]]
  have lt: "unat a < node_end h m" and ab: "unat a < unat (a + ucast s)" and a0: "a \<noteq> 0"
    using room(1,2,5) szs(3) by auto
  have lv: "live h ms = live h pre @ live h post" using ms free by (simp add: live_Cons)
  note res = kmalloc_found [OF found [unfolded s_def al_def] m0 a_def [unfolded al_def], folded s_def al_def, unfolded Let_def]
  have len: "len (node (kmalloc_mark m a h) m) = len (node h m)" by (simp add: kmalloc_mark_def)
  have "\<exists>h'. kmalloc pool sz align h = Some (a, h') \<and> adds_block pool h ms a (unat sz) h'"
  proof (cases "ucast (len (node h m)) - kmalloc_realsize s al d < MINBLKSIZE")
    case True
    note mk = kmalloc_mark_chain [OF c free room(1) lt]
    have "pool_ok pool (kmalloc_mark m a h) (pre @ m # post)" using ok mk(1) by (auto simp: pool_ok_def)
    from adds_blockI [OF this mk(2) lv a0, of "unat sz"] show ?thesis
      using True res len room(2) szs(2) by simp
  next
    case False
    let ?b = "a + ucast s" and ?h = "kmalloc_split s m a (kmalloc_mark m a h)"
    have b40: "unat ?b + 40 \<le> node_end h m" using room(5,6) False k(1) by (simp add: d_def)
    note sp = kmalloc_split_chain [OF c e room(1) ab b40 room(4)]
    have "pool_ok pool ?h (pre @ [m, ?b] @ post)" using ok sp(1) by (auto simp: pool_ok_def)
    from adds_blockI [OF this sp(2) lv a0, of "unat sz"] show ?thesis
      using False res len sp(3) room(5) szs(2) by simp
  qed
  then show ?thesis using room(3) by blast
qed

lemma kmalloc_ok:
  assumes ok: "pool_ok pool h ms" and al: "align = 0 \<or> (\<exists>k. unat align = 2 ^ k)" and sz: "unat sz \<le> 2 ^ 32 - 8"
  shows "kmalloc pool sz align h = Some (0, h) \<and>
       (\<forall>m\<in>set ms. status (node h m) = memnode_free \<longrightarrow>
          ucast (len (node h m)) < kmalloc_realsize (kmalloc_size sz) (kmalloc_align align) (memnode_data m))
     \<or> (\<exists>p h'. kmalloc pool sz align h = Some (p, h') \<and> adds_block pool h ms p (unat sz) h'
          \<and> 8 dvd unat p \<and> (align \<noteq> 0 \<longrightarrow> unat align dvd unat p))"
proof -
  let ?e = "unat (base pool) + unat (pool_length pool)" and ?sz = "kmalloc_size sz" and ?al = "kmalloc_align align"
  obtain k where k: "?al = 2 ^ k" "3 \<le> k" "k < 32" and dv: "unat align dvd 2 ^ k \<or> align = 0"
    using kmalloc_align_spec [OF al] .
  have "(2 :: nat) ^ 3 dvd 2 ^ k" using k(2) by (rule le_imp_power_dvd)
  then have dv8: "8 dvd (2 :: nat) ^ k" by simp
  have "chain h (root pool) (unat (root pool)) ms 0 ?e" using ok by (auto simp: pool_ok_def)
  from kmalloc_find_chain [OF this, of ?sz ?al 0 0] show ?thesis
  proof (elim disjE exE conjE)
    fix pre m post
    assume "ms = pre @ m # post" and "status (node h m) = memnode_free"
      and "kmalloc_realsize ?sz ?al (memnode_data m) \<le> ucast (len (node h m))"
      and "kmalloc_find ?sz ?al h (root pool) 0 0 = Some (m, memnode_data m, kmalloc_realsize ?sz ?al (memnode_data m))"
    from kmalloc_take [OF ok k sz this] dv dv8 show ?thesis by (meson dvd_trans)
  qed (auto simp: kmalloc_def)
qed


section \<open>Statistics\<close>

lemma chain_not_bad:
  assumes "chain h p s (m # ms) 0 e" and "e < 2 ^ 64"
  shows "\<not> memnode_bad h m"
proof -
  have ok: "node_ok h m" and ne: "node_end h m \<le> e" and nxt: "ms = [] \<Longrightarrow> next_node (node h m) = 0"
    "\<And>m' ms'. ms = m' # ms' \<Longrightarrow> next_node (node h m) = m' \<and> unat m' = node_end h m"
    using assms(1) chain_bounds [OF assms(1), of m] by auto
  have d: "unat (memnode_data m + ucast (len (node h m))) = node_end h m"
  proof -
    have "unat (memnode_data m) = unat m + 40"
      using ne assms(2) unfolding memnode_data_def sizeof_memnode_def node_end_def
      by (subst unat_add_lem [THEN iffD1]) auto
    then show ?thesis using ne assms(2)
      by (subst unat_add_lem [THEN iffD1]) (auto simp: node_end_def sizeof_memnode_def)
  qed
  have "memnode_data m + ucast (len (node h m)) = next_node (node h m) \<and> \<not> next_node (node h m) < m" if "next_node (node h m) \<noteq> 0"
  proof (cases ms)
    case (Cons m' ms')
    with nxt(2) [OF Cons] d node_end_gt [of m h] show ?thesis by (simp add: word_unat_eq_iff word_less_nat_alt)
  qed (use that nxt in simp)
  with ok show ?thesis
    by (auto simp: memnode_bad_def Let_def node_ok_def word_less_nat_alt sizeof_memnode_def)
qed

lemma kmemstats_loop_chain:
  "chain h p s ms 0 e \<Longrightarrow> e < 2 ^ 64 \<Longrightarrow>
     kmemstats_loop h p st = Some (0, fold (\<lambda>m. memstats_count (node h m)) ms st)"
proof (induction ms arbitrary: p s st)
  case Nil
  then show ?case by (subst kmemstats_loop.simps) simp
next
  case (Cons m ms)
  then show ?case using chain_not_bad [OF Cons.prems]
    by (subst kmemstats_loop.simps) (auto simp: node_ok_def)
qed

abbreviation in_use :: "mheap \<Rightarrow> addr \<Rightarrow> bool" where
  "in_use h m \<equiv> status (node h m) = memnode_alloc"

lemma memstats_count_fold:
  fixes ms h st
  defines "st' \<equiv> fold (\<lambda>m. memstats_count (node h m)) ms st"
  shows "mem_totalbytes st' = mem_totalbytes st"
    and "mem_allocnodes st' = mem_allocnodes st + of_nat (length (filter (in_use h) ms))"
    and "mem_freenodes st' = mem_freenodes st + of_nat (length (filter (\<lambda>m. \<not> in_use h m) ms))"
    and "mem_allocbytes st' = mem_allocbytes st + of_nat (\<Sum>m\<leftarrow>filter (in_use h) ms. unat (len (node h m)))"
    and "mem_freebytes st' = mem_freebytes st + of_nat (\<Sum>m\<leftarrow>filter (\<lambda>m. \<not> in_use h m) ms. unat (len (node h m)))"
    and "mem_largest st' = fold max (map (\<lambda>m. len (node h m)) (filter (\<lambda>m. \<not> in_use h m) ms)) (mem_largest st)"
  unfolding st'_def by (induction ms arbitrary: st) (auto simp: memstats_count_def Let_def algebra_simps max_def)

lemma chain_sum: "chain h p s ms q e \<Longrightarrow> s + (\<Sum>m\<leftarrow>ms. unat (len (node h m))) + 40 * length ms = e"
proof (induction ms arbitrary: p s)
  case (Cons m ms)
  then have "node_end h m + (\<Sum>m\<leftarrow>ms. unat (len (node h m))) + 40 * length ms = e" and "s = unat m" by auto
  then show ?case by (simp add: node_end_def sizeof_memnode_def)
qed simp

lemma kmemstats_ok:
  assumes "pool_ok pool h ms"
  shows "\<exists>st. kmemstats pool h = Some (0, st)
     \<and> mem_totalbytes st = pool_length pool
     \<and> unat (mem_allocbytes st) = (\<Sum>m\<leftarrow>filter (in_use h) ms. unat (len (node h m)))
     \<and> unat (mem_freebytes st) = (\<Sum>m\<leftarrow>filter (\<lambda>m. \<not> in_use h m) ms. unat (len (node h m)))
     \<and> unat (mem_allocnodes st) = length (live h ms)
     \<and> unat (mem_allocbytes st) + unat (mem_freebytes st) + 40 * (unat (mem_allocnodes st) + unat (mem_freenodes st)) = unat (pool_length pool)"
proof -
  let ?e = "unat (base pool) + unat (pool_length pool)"
  let ?A = "\<Sum>m\<leftarrow>filter (in_use h) ms. unat (len (node h m))" and ?F = "\<Sum>m\<leftarrow>filter (\<lambda>m. \<not> in_use h m) ms. unat (len (node h m))"
  let ?a = "length (filter (in_use h) ms)" and ?f = "length (filter (\<lambda>m. \<not> in_use h m) ms)"
  have c: "chain h (root pool) (unat (root pool)) ms 0 ?e" and lt: "?e < 2 ^ 64" and "base pool = root pool"
    using assms by (auto simp: pool_ok_def)
  have "(\<Sum>m\<leftarrow>ks. unat (len (node h m))) = (\<Sum>m\<leftarrow>filter (in_use h) ks. unat (len (node h m))) + (\<Sum>m\<leftarrow>filter (\<lambda>m. \<not> in_use h m) ks. unat (len (node h m)))" for ks
    by (induction ks) auto
  note this [of ms]
  moreover have "length ms = ?a + ?f" by (rule sum_length_filter_compl [symmetric])
  ultimately have total: "?A + ?F + 40 * (?a + ?f) = unat (pool_length pool)"
    using chain_sum [OF c, unfolded \<open>base pool = root pool\<close>] by simp
  have small: "n < 2 ^ 32 \<Longrightarrow> unat (of_nat n :: u32) = n" for n by (simp add: unat_of_nat)
  have "unat (pool_length pool) < 2 ^ 32" using unsigned_less [of "pool_length pool", where ?'a = nat] by simp
  moreover have "A + F + 40 * (a + f) = n \<Longrightarrow> n < 2 ^ 32 \<Longrightarrow> A < 2 ^ 32 \<and> F < 2 ^ 32 \<and> a < 2 ^ 32 \<and> f < 2 ^ 32"
    for A F a f n :: nat by auto
  ultimately have "?A < 2 ^ 32" "?F < 2 ^ 32" "?a < 2 ^ 32" "?f < 2 ^ 32" using total by blast+
  then have words: "unat (of_nat ?A :: u32) = ?A" "unat (of_nat ?F :: u32) = ?F"
    "unat (of_nat ?a :: u32) = ?a" "unat (of_nat ?f :: u32) = ?f"
    by (blast intro: small)+
  define st0 where "st0 = \<lparr>mem_totalbytes = pool_length pool, mem_allocbytes = 0, mem_freebytes = 0, mem_allocnodes = 0,
      mem_freenodes = 0, mem_largest = 0 :: u32\<rparr>"
  define st where "st = fold (\<lambda>m. memstats_count (node h m)) ms st0"
  have "kmemstats pool h = Some (0, st)"
    unfolding kmemstats_def st0_def [symmetric] kmemstats_loop_chain [OF c lt] st_def by (rule refl)
  moreover have "mem_totalbytes st = pool_length pool" "mem_allocbytes st = of_nat ?A" "mem_freebytes st = of_nat ?F"
    "mem_allocnodes st = of_nat ?a" "mem_freenodes st = of_nat ?f"
    unfolding st_def memstats_count_fold by (simp_all add: st0_def)
  moreover have "length (live h ms) = ?a" by (simp add: live_def)
  ultimately show ?thesis using words total by auto
qed

section \<open>The allocator interface\<close>

lemma chain_live_sorted:
  "chain h p s ms q e \<Longrightarrow> sorted_wrt (\<lambda>b b'. snd b + 40 \<le> unat (fst b')) (live h ms) \<and> (\<forall>b\<in>set (live h ms). s + 40 \<le> unat (fst b) \<and> unat (fst b) < snd b \<and> snd b \<le> e)"
proof (induction ms arbitrary: p s)
  case (Cons m ms)
  then have ok: "node_ok h m" and s: "s = unat m" and c: "chain h (next_node (node h m)) (node_end h m) ms q e" by auto
  note ih = Cons.IH [OF c]
  have "node_end h m \<le> e" by (rule chain_le [OF c])
  with ih ok s node_end_gt [of m h] show ?case
    by (auto simp: live_Cons node_ok_def sizeof_memnode_def)
qed simp

lemma pool_ok_live:
  assumes "pool_ok pool h ms"
  shows "sorted_wrt (\<lambda>b b'. snd b + 40 \<le> unat (fst b')) (live h ms)"
    and "b \<in> set (live h ms) \<Longrightarrow> unat (base pool) + 40 \<le> unat (fst b) \<and> unat (fst b) < snd b
           \<and> snd b \<le> unat (base pool) + unat (pool_length pool)"
  using assms chain_live_sorted [of h "root pool" "unat (root pool)" ms 0 "unat (base pool) + unat (pool_length pool)"]
  unfolding pool_ok_def by auto

text \<open>The blocks handed out, as a set.\<close>

definition pool_blocks :: "mempool \<Rightarrow> mheap \<Rightarrow> (addr \<times> nat) set \<Rightarrow> bool" where
  "pool_blocks pool h B \<longleftrightarrow> (\<exists>ms. pool_ok pool h ms \<and> B = set (live h ms))"

lemma sorted_apart:
  "sorted_wrt (\<lambda>b b'. snd b + 40 \<le> unat (fst b')) bs \<Longrightarrow> b \<in> set bs \<Longrightarrow> b' \<in> set bs \<Longrightarrow> b \<noteq> b' \<Longrightarrow>
     snd b \<le> unat (fst b') \<or> snd b' \<le> unat (fst b)" for bs :: "(addr \<times> nat) list"
  by (induction bs) auto

lemma sorted_fresh:
  fixes bs :: "(addr \<times> nat) list"
  assumes "sorted_wrt (\<lambda>b b'. snd b + 40 \<le> unat (fst b')) (pre @ (p, e) # post)"
    and "b \<in> set (pre @ post)" and "unat (fst b) < snd b" and "unat p < e"
  shows "fst b \<noteq> p"
proof -
  have "snd b + 40 \<le> unat p \<or> e + 40 \<le> unat (fst b)"
    using assms(1,2) by (auto simp: sorted_wrt_append)
  with assms(3,4) show ?thesis by auto
qed

text \<open>Serving a list of requests: the pointers got, up to the first request that fails. And giving back
  a list of blocks.\<close>

fun alloc_all :: "('r \<Rightarrow> 's \<Rightarrow> ('p \<times> 's) option) \<Rightarrow> 'p \<Rightarrow> 'r list \<Rightarrow> 's \<Rightarrow> ('p list \<times> 's) option" where
  "alloc_all alloc null [] s = Some ([], s)"
| "alloc_all alloc null (r # rs) s =
     (case alloc r s of None \<Rightarrow> None
      | Some (p, s') \<Rightarrow> if p = null then Some ([], s')
                       else map_option (\<lambda>(ps, s''). (p # ps, s'')) (alloc_all alloc null rs s'))"

fun free_all :: "('p \<Rightarrow> 's \<Rightarrow> 's option) \<Rightarrow> 'p list \<Rightarrow> 's \<Rightarrow> 's option" where
  "free_all free [] s = Some s"
| "free_all free (p # ps) s = (case free p s of None \<Rightarrow> None | Some s' \<Rightarrow> free_all free ps s')"

text \<open>
  What a client of the allocator relies on. \<open>holds s B\<close>: in the state \<open>s\<close> the blocks \<open>B\<close>, pairs of a
  pointer and the end of the space behind it, are handed out.
\<close>

locale allocator =
  fixes alloc :: "'r \<Rightarrow> 's \<Rightarrow> ('p \<times> 's) option"
    and free :: "'p \<Rightarrow> 's \<Rightarrow> 's option"
    and holds :: "'s \<Rightarrow> ('p \<times> nat) set \<Rightarrow> bool"
    and loc :: "'p \<Rightarrow> nat"
    and null :: "'p"
    and valid :: "'r \<Rightarrow> bool"
    and bytes :: "'r \<Rightarrow> nat"
  assumes alloc_holds: "holds s B \<Longrightarrow> valid r \<Longrightarrow> alloc r s = Some (null, s)
      \<or> (\<exists>p s' e. alloc r s = Some (p, s') \<and> p \<noteq> null \<and> holds s' (insert (p, e) B) \<and> (\<forall>b\<in>B. fst b \<noteq> p) \<and> loc p + bytes r \<le> e)"
    and free_holds: "holds s B \<Longrightarrow> (p, e) \<in> B \<Longrightarrow> \<exists>s'. free p s = Some s' \<and> holds s' {b \<in> B. fst b \<noteq> p}"
    and holds_apart: "holds s B \<Longrightarrow> b \<in> B \<Longrightarrow> b' \<in> B \<Longrightarrow> b \<noteq> b' \<Longrightarrow> snd b \<le> loc (fst b') \<or> snd b' \<le> loc (fst b)"
begin

lemma alloc_disjoint:
  assumes "holds s B" and "valid r" and "alloc r s = Some (p, s')" and "p \<noteq> null"
  obtains e where "holds s' (insert (p, e) B)" and "loc p + bytes r \<le> e"
    and "\<And>b. b \<in> B \<Longrightarrow> snd b \<le> loc p \<or> e \<le> loc (fst b)"
proof -
  from alloc_holds [OF assms(1,2)] assms(3,4) obtain e where e: "holds s' (insert (p, e) B)" "\<forall>b\<in>B. fst b \<noteq> p" "loc p + bytes r \<le> e"
    by auto
  show ?thesis
  proof (rule that [OF e(1,3)])
    fix b assume "b \<in> B"
    moreover from this e(2) have "b \<noteq> (p, e)" by auto
    ultimately show "snd b \<le> loc p \<or> e \<le> loc (fst b)" using holds_apart [OF e(1), of b "(p, e)"] by auto
  qed
qed

lemma alloc_all_holds:
  "holds s B \<Longrightarrow> \<forall>r\<in>set rs. valid r \<Longrightarrow>
     \<exists>ps s' C. alloc_all alloc null rs s = Some (ps, s') \<and> holds s' (B \<union> C) \<and> fst ` C = set ps \<and> fst ` B \<inter> set ps = {} \<and> distinct ps"
proof (induction rs arbitrary: s B)
  case Nil
  then show ?case by (intro exI [of _ "[]"] exI [of _ s] exI [of _ "{}"]) simp
next
  case (Cons r rs)
  have "valid r" using Cons.prems(2) by simp
  from alloc_holds [OF Cons.prems(1) this] show ?case
  proof (elim disjE)
    assume "alloc r s = Some (null, s)"
    with Cons.prems(1) show ?thesis by (intro exI [of _ "[]"] exI [of _ s] exI [of _ "{}"]) simp
  next
    assume "\<exists>p s' e. alloc r s = Some (p, s') \<and> p \<noteq> null \<and> holds s' (insert (p, e) B) \<and> (\<forall>b\<in>B. fst b \<noteq> p) \<and> loc p + bytes r \<le> e"
    then obtain p s' e where p: "alloc r s = Some (p, s')" "p \<noteq> null" "holds s' (insert (p, e) B)" "\<forall>b\<in>B. fst b \<noteq> p"
      by blast
    from Cons.IH [OF p(3)] Cons.prems(2) obtain ps s'' C where "alloc_all alloc null rs s' = Some (ps, s'')"
      "holds s'' (insert (p, e) B \<union> C)" "fst ` C = set ps" "fst ` insert (p, e) B \<inter> set ps = {}" "distinct ps"
      by auto
    with p show ?thesis
      by (intro exI [of _ "p # ps"] exI [of _ s''] exI [of _ "insert (p, e) C"]) auto
  qed
qed

lemma free_all_holds:
  "holds s B \<Longrightarrow> distinct ps \<Longrightarrow> set ps \<subseteq> fst ` B \<Longrightarrow>
     \<exists>s'. free_all free ps s = Some s' \<and> holds s' {b \<in> B. fst b \<notin> set ps}"
proof (induction ps arbitrary: s B)
  case (Cons p ps)
  then obtain e where "(p, e) \<in> B" by auto
  from free_holds [OF Cons.prems(1) this] obtain s' where s': "free p s = Some s'" "holds s' {b \<in> B. fst b \<noteq> p}" by blast
  have "set ps \<subseteq> fst ` {b \<in> B. fst b \<noteq> p}" using Cons.prems(2,3) by force
  from Cons.IH [OF s'(2) _ this] Cons.prems(2) s'(1) show ?case by (auto simp: conj_ac)
qed simp

end

type_synonym request = "u32 \<times> u32"

definition kmalloc_valid :: "request \<Rightarrow> bool" where
  "kmalloc_valid r \<longleftrightarrow> unat (fst r) \<le> 2 ^ 32 - 8 \<and> (snd r = 0 \<or> (\<exists>k. unat (snd r) = 2 ^ k))"

definition serve :: "mempool \<Rightarrow> request \<Rightarrow> mheap \<Rightarrow> (addr \<times> mheap) option" where
  "serve pool r h = kmalloc pool (fst r) (snd r) h"

lemma adds_block_fresh:
  assumes "adds_block pool h ms p n h'" and "pool_ok pool h ms"
  obtains e where "pool_blocks pool h' (insert (p, e) (set (live h ms)))" and "\<forall>b\<in>set (live h ms). fst b \<noteq> p"
    and "unat p + n \<le> e" and "p \<noteq> 0"
proof -
  from assms(1) obtain ms' pre post e where ok': "pool_ok pool h' ms'" and l: "live h ms = pre @ post" "live h' ms' = pre @ (p, e) # post"
    and p: "p \<noteq> 0" "unat p + n \<le> e"
    by (auto simp: adds_block_def)
  have "insert (p, e) (set (live h ms)) = set (live h' ms')" using l by auto
  with ok' have "pool_blocks pool h' (insert (p, e) (set (live h ms)))" unfolding pool_blocks_def by blast
  moreover have "fst b \<noteq> p" if b: "b \<in> set (live h ms)" for b
  proof (rule sorted_fresh)
    show "sorted_wrt (\<lambda>b b'. snd b + 40 \<le> unat (fst b')) (pre @ (p, e) # post)" using pool_ok_live(1) [OF ok'] l(2) by simp
    show "b \<in> set (pre @ post)" using b l(1) by simp
    then show "unat (fst b) < snd b" using pool_ok_live(2) [OF ok', of b] l(2) by auto
    show "unat p < e" using pool_ok_live(2) [OF ok', of "(p, e)"] l(2) by auto
  qed
  ultimately show ?thesis using that p by blast
qed

lemma serve_holds:
  assumes "pool_blocks pool h B" and v: "kmalloc_valid r"
  shows "serve pool r h = Some (0, h) \<or> (\<exists>p h' e. serve pool r h = Some (p, h') \<and> p \<noteq> 0
      \<and> pool_blocks pool h' (insert (p, e) B) \<and> (\<forall>b\<in>B. fst b \<noteq> p) \<and> unat p + unat (fst r) \<le> e)"
proof -
  obtain ms where ok: "pool_ok pool h ms" and B: "B = set (live h ms)" using assms(1) by (auto simp: pool_blocks_def)
  have "snd r = 0 \<or> (\<exists>k. unat (snd r) = 2 ^ k)" and "unat (fst r) \<le> 2 ^ 32 - 8"
    using v by (auto simp: kmalloc_valid_def)
  from kmalloc_ok [OF ok this] show ?thesis unfolding serve_def
  proof (elim disjE exE conjE)
    fix p h' assume *: "kmalloc pool (fst r) (snd r) h = Some (p, h')" "adds_block pool h ms p (unat (fst r)) h'"
    obtain e where "pool_blocks pool h' (insert (p, e) B)" "\<forall>b\<in>B. fst b \<noteq> p" "unat p + unat (fst r) \<le> e" "p \<noteq> 0"
      by (rule adds_block_fresh [OF *(2) ok, folded B])
    with *(1) show "kmalloc pool (fst r) (snd r) h = Some (0, h) \<or> (\<exists>p h' e. kmalloc pool (fst r) (snd r) h = Some (p, h') \<and> p \<noteq> 0
      \<and> pool_blocks pool h' (insert (p, e) B) \<and> (\<forall>b\<in>B. fst b \<noteq> p) \<and> unat p + unat (fst r) \<le> e)"
      by blast
  qed simp
qed

interpretation km: allocator "serve pool" "kfree pool" "pool_blocks pool" unat 0 kmalloc_valid "\<lambda>r. unat (fst r)" for pool
proof unfold_locales
  show "\<And>h B r. pool_blocks pool h B \<Longrightarrow> kmalloc_valid r \<Longrightarrow> serve pool r h = Some (0, h)
      \<or> (\<exists>p h' e. serve pool r h = Some (p, h') \<and> p \<noteq> 0
        \<and> pool_blocks pool h' (insert (p, e) B) \<and> (\<forall>b\<in>B. fst b \<noteq> p) \<and> unat p + unat (fst r) \<le> e)"
    by (rule serve_holds)
next
  fix h B p e
  assume "pool_blocks pool h B" and p: "(p, e) \<in> B"
  then obtain ms where ok: "pool_ok pool h ms" and B: "B = set (live h ms)" by (auto simp: pool_blocks_def)
  from kfree_ok [OF ok p [unfolded B]] obtain h' ms' where "kfree pool p h = Some h'" "pool_ok pool h' ms'"
    "live h' ms' = filter (\<lambda>b. fst b \<noteq> p) (live h ms)" by blast
  moreover have "set (filter (\<lambda>b. fst b \<noteq> p) (live h ms)) = {b \<in> B. fst b \<noteq> p}" using B by simp
  ultimately show "\<exists>h'. kfree pool p h = Some h' \<and> pool_blocks pool h' {b \<in> B. fst b \<noteq> p}"
    unfolding pool_blocks_def by metis
next
  fix h B and b b' :: "addr \<times> nat"
  assume "pool_blocks pool h B" and b: "b \<in> B" "b' \<in> B" "b \<noteq> b'"
  then obtain ms where ok: "pool_ok pool h ms" and B: "B = set (live h ms)" by (auto simp: pool_blocks_def)
  from sorted_apart [OF pool_ok_live(1) [OF ok]] b B show "snd b \<le> unat (fst b') \<or> snd b' \<le> unat (fst b)"
    by auto
qed


lemma chain_unique: "chain h p s ms 0 e \<Longrightarrow> chain h p s' ms' 0 e' \<Longrightarrow> ms = ms'"
proof (induction ms arbitrary: p s s' ms')
  case Nil
  then show ?case by (cases ms') (auto simp: node_ok_def)
next
  case (Cons m ms)
  then show ?case by (cases ms') (auto simp: node_ok_def)
qed

lemma pool_ok_unique: "pool_ok pool h ms \<Longrightarrow> pool_ok pool h ms' \<Longrightarrow> ms = ms'"
  unfolding pool_ok_def by (blast intro: chain_unique)

lemma pool_ok_base: "pool_ok pool h ms \<Longrightarrow> base pool = root pool"
  by (simp add: pool_ok_def)

lemma pool_blocksI: "pool_ok pool h ms \<Longrightarrow> pool_blocks pool h (set (live h ms))"
  by (auto simp: pool_blocks_def)

lemma free_all_coalesced:
  "pool_blocks pool h B \<Longrightarrow> distinct ps \<Longrightarrow> set ps \<subseteq> fst ` B \<Longrightarrow> ps \<noteq> [] \<Longrightarrow> free_all (kfree pool) ps h = Some h' \<Longrightarrow>
     \<exists>ms. pool_ok pool h' ms \<and> coalesced h' ms"
proof (induction ps arbitrary: h B)
  case (Cons p ps)
  then obtain e where p: "(p, e) \<in> B" by auto
  obtain ms where ok: "pool_ok pool h ms" and B: "B = set (live h ms)" using Cons.prems(1) by (auto simp: pool_blocks_def)
  from kfree_ok [OF ok p [unfolded B]] obtain h1 ms1 where h1: "kfree pool p h = Some h1" "pool_ok pool h1 ms1" "coalesced h1 ms1"
    and l: "live h1 ms1 = filter (\<lambda>b. fst b \<noteq> p) (live h ms)" by blast
  show ?case
  proof (cases "ps = []")
    case True
    then show ?thesis using Cons.prems(5) h1 by auto
  next
    case False
    have "pool_blocks pool h1 {b \<in> B. fst b \<noteq> p}" using h1 l B by (auto simp: pool_blocks_def intro!: exI [of _ ms1])
    moreover have "set ps \<subseteq> fst ` {b \<in> B. fst b \<noteq> p}" using Cons.prems(2,3) by force
    ultimately show ?thesis using Cons.IH [of h1] Cons.prems(2,5) h1(1) False by simp
  qed
qed simp

lemma alloc_all_none:
  assumes "pool_blocks pool h B" and "\<forall>r\<in>set rs. kmalloc_valid r" and "alloc_all (serve pool) 0 rs h = Some ([], h')"
  shows "h' = h"
proof (cases rs)
  case (Cons r rs')
  with assms serve_holds [OF assms(1), of r] show ?thesis by (auto split: option.splits prod.splits if_splits)
qed (use assms in simp)

text \<open>A small pool for the witnesses.\<close>

definition demo_heap :: mheap where
  "demo_heap = \<lparr>node = \<lambda>_. \<lparr>seal = 0, next_node = 0, len = 0, status = memnode_free, data = 0\<rparr>, ptr_at = \<lambda>_. 0\<rparr>"

definition demo_pool :: "mempool \<times> mheap" where
  "demo_pool = kmeminit 0x1000 1024 demo_heap"

lemma demo_pool_ok: "pool_ok (fst demo_pool) (snd demo_pool) [0x1000]" "live (snd demo_pool) [0x1000] = []"
  using kmeminit_ok(1,2) [of "0x1000" 1024 demo_heap "fst demo_pool" "snd demo_pool"]
  by (simp_all add: demo_pool_def)

lemma demo_alloc:
  obtains p h' ms' e where "kmalloc (fst demo_pool) 24 64 (snd demo_pool) = Some (p, h')" and "pool_ok (fst demo_pool) h' ms'"
    and "(p, e) \<in> set (live h' ms')"
proof -
  have al: "(64 :: u32) = 0 \<or> (\<exists>k. unat (64 :: u32) = 2 ^ k)" by (intro disjI2 exI [of _ 6]) simp
  have sz: "unat (24 :: u32) \<le> 2 ^ 32 - 8" by simp
  have room: "\<not> ucast (len (node (snd demo_pool) 0x1000)) < kmalloc_realsize (kmalloc_size 24) (kmalloc_align 64) (memnode_data 0x1000)"
    and free: "status (node (snd demo_pool) 0x1000) = memnode_free"
    by (simp_all add: demo_pool_def kmeminit_def demo_heap_def kmalloc_realsize_def kmalloc_size_def kmalloc_align_def memnode_data_def sizeof_memnode_def)
  from kmalloc_ok [OF demo_pool_ok(1) al sz] show ?thesis
  proof (elim disjE exE conjE)
    fix p h' assume k: "kmalloc (fst demo_pool) 24 64 (snd demo_pool) = Some (p, h')"
      and "adds_block (fst demo_pool) (snd demo_pool) [0x1000] p (unat (24 :: u32)) h'"
    then obtain ms' pre post e where "pool_ok (fst demo_pool) h' ms'" "live h' ms' = pre @ (p, e) # post"
      by (auto simp: adds_block_def)
    then show ?thesis using that [OF k, of ms' e] by simp
  qed (use room free in simp)
qed

section \<open>Properties\<close>



text \<open>C12: \<open>kfree\<close> of a block that is handed out returns, takes back exactly that block, keeps the
  pool well-formed and leaves no two adjacent free nodes.\<close>

theorem kfree_block:
  assumes "pool_ok pool h ms" and "(p, e) \<in> set (live h ms)"
  shows "\<exists>h' ms'. kfree pool p h = Some h' \<and> pool_ok pool h' ms' \<and> coalesced h' ms'
     \<and> live h' ms' = filter (\<lambda>b. fst b \<noteq> p) (live h ms)"
  using assms by (rule kfree_ok)

theorem kfree_block_witness:
  "\<exists>p h1 h2 ms. kmalloc (fst demo_pool) 24 64 (snd demo_pool) = Some (p, h1) \<and> kfree (fst demo_pool) p h1 = Some h2
     \<and> pool_ok (fst demo_pool) h2 ms \<and> coalesced h2 ms"
proof -
  obtain p h1 ms1 e where "kmalloc (fst demo_pool) 24 64 (snd demo_pool) = Some (p, h1)" and ok: "pool_ok (fst demo_pool) h1 ms1"
    and l: "(p, e) \<in> set (live h1 ms1)" by (rule demo_alloc)
  with kfree_block [OF ok l] show ?thesis by blast
qed

text \<open>C9: no memory is lost: after any list of requests on a fresh pool, returning the blocks in
  any order makes the pool one free node of its full size again.\<close>

theorem malloc_free_restores:
  assumes "unat buffer + unat n < 2 ^ 64" and "40 \<le> n" and "8 dvd unat buffer" and "buffer \<noteq> 0"
    and "kmeminit buffer n h = (pool, h0)" and "\<forall>r\<in>set rs. kmalloc_valid r"
  shows "\<exists>ps h1. alloc_all (serve pool) 0 rs h0 = Some (ps, h1) \<and> distinct ps \<and>
     (\<forall>qs. distinct qs \<and> set qs = set ps \<longrightarrow>
        (\<exists>h2. free_all (kfree pool) qs h1 = Some h2 \<and> pool_ok pool h2 [buffer] \<and> status (node h2 buffer) = memnode_free
           \<and> unat (len (node h2 buffer)) + 40 = unat n))"
proof -
  note init = kmeminit_ok [OF assms(1-5)]
  have fresh: "pool_blocks pool h0 {}" by (rule pool_blocksI [OF init(1), unfolded init(2) list.set(1)])
  have root: "root pool = buffer" using pool_ok_base [OF init(1)] init(3) by (rule subst)
  obtain ps h1 C where a: "alloc_all (serve pool) 0 rs h0 = Some (ps, h1)" "pool_blocks pool h1 C" "fst ` C = set ps" "distinct ps"
    using km.alloc_all_holds [OF fresh assms(6)] by (elim exE conjE) simp
  have "\<exists>h2. free_all (kfree pool) qs h1 = Some h2 \<and> pool_ok pool h2 [buffer] \<and> status (node h2 buffer) = memnode_free
      \<and> unat (len (node h2 buffer)) + 40 = unat n" if qs: "distinct qs" "set qs = set ps" for qs
  proof -
    have sub: "set qs \<subseteq> fst ` C" using qs(2) a(3) by simp
    obtain h2 where h2: "free_all (kfree pool) qs h1 = Some h2" "pool_blocks pool h2 {b \<in> C. fst b \<notin> set qs}"
      using km.free_all_holds [OF a(2) qs(1) sub] by (elim exE conjE)
    moreover have "{b \<in> C. fst b \<notin> set qs} = {}" using qs(2) a(3) imageI [of _ C fst] by fastforce
    ultimately obtain ms where ms: "pool_ok pool h2 ms" "live h2 ms = []" by (auto simp: pool_blocks_def)
    have "\<exists>ms. pool_ok pool h2 ms \<and> coalesced h2 ms"
    proof (cases "qs = []")
      case True
      then have "ps = []" "h2 = h1" using h2(1) qs(2) by simp_all
      moreover from this have "h1 = h0" using a(1) alloc_all_none [OF fresh assms(6), of h1] by simp
      ultimately have "h2 = h0" by simp
      then show ?thesis using init(1) by (intro exI [of _ "[buffer]"]) simp
    next
      case False
      from free_all_coalesced [OF a(2) qs(1) sub this h2(1)] show ?thesis .
    qed
    then have co: "coalesced h2 ms" using pool_ok_unique [OF ms(1)] by blast
    have pos: "0 < pool_length pool" using init(4) assms(2) by (simp add: word_less_nat_alt word_le_nat_alt)
    note e = pool_empty [OF ms(1) co ms(2) pos, unfolded root init(4)]
    show ?thesis using h2(1) ms(1) e by (intro exI [of _ h2]) simp
  qed
  then show ?thesis using a(1,4) by (intro exI [of _ ps] exI [of _ h1]) simp
qed

theorem malloc_free_restores_witness:
  "\<exists>ps h1. alloc_all (serve (fst demo_pool)) 0 [(24, 64), (100, 0)] (snd demo_pool) = Some (ps, h1) \<and>
     (\<exists>h2. free_all (kfree (fst demo_pool)) (rev ps) h1 = Some h2 \<and> unat (len (node h2 0x1000)) + 40 = 1024)"
proof -
  have "kmalloc_valid (24, 64)" by (auto simp: kmalloc_valid_def intro!: exI [of _ 6])
  then have v: "\<forall>r\<in>set [(24, 64), (100, 0)]. kmalloc_valid r" by (simp add: kmalloc_valid_def)
  have "kmeminit 0x1000 1024 demo_heap = (fst demo_pool, snd demo_pool)" by (simp add: demo_pool_def)
  from malloc_free_restores [OF _ _ _ _ this v] obtain ps h1
    where a: "alloc_all (serve (fst demo_pool)) 0 [(24, 64), (100, 0)] (snd demo_pool) = Some (ps, h1)" "distinct ps"
      and f: "\<And>qs. distinct qs \<and> set qs = set ps \<Longrightarrow> \<exists>h2. free_all (kfree (fst demo_pool)) qs h1 = Some h2
        \<and> unat (len (node h2 0x1000)) + 40 = unat (1024 :: u32)"
    by fastforce
  from f [of "rev ps"] a show ?thesis by auto
qed

text \<open>C32: the checks of \<open>kmemstats\<close> pass on a well-formed pool, and its numbers add up to the pool
  without wrapping: the allocated and the free bytes and 40 bytes of header per node are all of it.\<close>

theorem kmemstats_consistent:
  assumes "pool_ok pool h ms"
  shows "\<exists>st. kmemstats pool h = Some (0, st)
     \<and> mem_totalbytes st = pool_length pool
     \<and> unat (mem_allocbytes st) = (\<Sum>m\<leftarrow>filter (in_use h) ms. unat (len (node h m)))
     \<and> unat (mem_freebytes st) = (\<Sum>m\<leftarrow>filter (\<lambda>m. \<not> in_use h m) ms. unat (len (node h m)))
     \<and> unat (mem_allocnodes st) = length (live h ms)
     \<and> unat (mem_allocbytes st) + unat (mem_freebytes st) + 40 * (unat (mem_allocnodes st) + unat (mem_freenodes st)) = unat (pool_length pool)"
  using assms by (rule kmemstats_ok)

theorem kmemstats_consistent_witness:
  "\<exists>st. kmemstats (fst demo_pool) (snd demo_pool) = Some (0, st) \<and> unat (mem_allocnodes st) = 0"
  using kmemstats_consistent [OF demo_pool_ok(1)] demo_pool_ok(2) by auto

lemma kmalloc_size_wraps_facts:
  assumes "0xFFFFFFF9 \<le> sz"
  shows "kmalloc_size sz = 0" and "kmalloc_realsize (kmalloc_size sz) (kmalloc_align 0) (memnode_data 0x1000) = 0"
    and "\<exists>h'. kmalloc (fst demo_pool) sz 0 (snd demo_pool) = Some (0x1028, h')"
proof -
  have "unat sz < 2 ^ 32" using unsigned_less [of sz, where ?'a = nat] by simp
  then have "unat sz \<in> {4294967289, 4294967290, 4294967291, 4294967292, 4294967293, 4294967294, 4294967295}"
    using assms by (simp add: word_le_nat_alt) linarith
  then have "sz \<in> {4294967289, 4294967290, 4294967291, 4294967292, 4294967293, 4294967294, 4294967295}"
    by (simp add: word_unat_eq_iff)
  then show size: "kmalloc_size sz = 0" by (elim insertE emptyE) (simp_all add: kmalloc_size_def)
  show "kmalloc_realsize (kmalloc_size sz) (kmalloc_align 0) (memnode_data 0x1000) = 0"
    by (simp add: size kmalloc_realsize_def kmalloc_align_def memnode_data_def sizeof_memnode_def)
  have "kmalloc_find 0 8 (snd demo_pool) 0x1000 0 0 = Some (0x1000, 0x1028, 0)"
    by (subst kmalloc_find.simps)
      (simp add: demo_pool_def kmeminit_def demo_heap_def kmalloc_realsize_def memnode_data_def sizeof_memnode_def)
  then show "\<exists>h'. kmalloc (fst demo_pool) sz 0 (snd demo_pool) = Some (0x1028, h')"
    by (simp add: kmalloc_def size kmalloc_align_def Let_def)
      (simp add: demo_pool_def kmeminit_def kmalloc_split_def Let_def memnode_data_def sizeof_memnode_def)
qed



end
