(* ===== verification/Xell_Fat.thy ===== *)
theory Xell_Fat
  imports Xell_String "HOL-Library.Monad_Syntax"
begin

unbundle bit_operations_syntax

text \<open>
  The FAT reader of \<^verbatim>\<open>fat.c\<close>. Its static variables are the fields of \<open>fat_state\<close>, with the byte memory
  the buffers live in; \<open>fat_env\<close> holds the addresses of the static sector buffer and of the local
  arrays of \<^verbatim>\<open>get_fat\<close>, \<^verbatim>\<open>fat_open\<close> and \<^verbatim>\<open>fat_init\<close>, and the driver's \<^verbatim>\<open>read\<close> entry: for a device, a
  sector and a count it gives the return value and the bytes stored at the pointer. Integers have the
  widths of the source. The loops over bytes, clusters and extents are total functions with their
  termination proofs; the loop over a directory may run forever on a damaged table and is a
  \<open>partial_function (option)\<close>.
\<close>

section \<open>State\<close>

record 'b fat_env =
  raw_buf :: addr
  fat_at :: addr
  dir_at :: addr
  sb_at :: addr
  dev_read :: "'b \<Rightarrow> u64 \<Rightarrow> u32 \<Rightarrow> int \<times> u8 list"

record 'b fat_state =
  fmem :: mem
  dev :: 'b
  current :: u32
  partition_start_offset :: u64
  bytes_per_cluster :: u32
  root_entries :: u32
  clusters :: u32
  fat_type :: u32
  fat_offset :: u64
  root_offset :: u64
  data_offset :: u64
  extent_offset :: u64
  extent_len :: u32
  extent_next_cluster :: u32
  fat_name :: "u8 list"
  fat_file_size :: u32

definition RAW_BUF :: nat where "RAW_BUF = 0x200"
definition MAX_SECTS :: u32 where "MAX_SECTS = 8"

definition le16 :: "mem \<Rightarrow> addr \<Rightarrow> u16" where
  "le16 m p = ucast (m p) OR push_bit 8 (ucast (m (p + 1)))"

definition le32 :: "mem \<Rightarrow> addr \<Rightarrow> u32" where
  "le32 m p = ucast (m p) OR push_bit 8 (ucast (m (p + 1))) OR push_bit 16 (ucast (m (p + 2)))
     OR push_bit 24 (ucast (m (p + 3)))"

section \<open>Reading bytes\<close>

text \<open>The driver stores the bytes it delivers at the pointer it is given.\<close>

definition dev_read_at :: "'b fat_env \<Rightarrow> addr \<Rightarrow> u64 \<Rightarrow> u32 \<Rightarrow> 'b fat_state \<Rightarrow> int \<times> 'b fat_state" where
  "dev_read_at E data lba num s =
     (let (r, bs) = dev_read E (dev s) lba num in (r, s\<lparr>fmem := store_list (fmem s) data bs\<rparr>))"

definition raw_read :: "'b fat_env \<Rightarrow> u32 \<Rightarrow> 'b fat_state \<Rightarrow> int \<times> 'b fat_state" where
  "raw_read E sector s =
     (if current s = sector then (0, s)
      else (let s = s\<lparr>current := sector\<rparr>;
                (r, s) = dev_read_at E (raw_buf E) (ucast sector) 1 s
            in (c_bool (r < 0), s)))"

text \<open>How many sectors, or bytes of one sector, a round of the loop takes.\<close>

definition aligned_sects :: "u32 \<Rightarrow> u32" where
  "aligned_sects len = (let n = len div of_nat RAW_BUF in if n > MAX_SECTS then MAX_SECTS else n)"

definition partial_bytes :: "u32 \<Rightarrow> u32 \<Rightarrow> u32" where
  "partial_bytes buf_off len = (let n = of_nat RAW_BUF - buf_off in if n > len then len else n)"

function read_loop :: "'b fat_env \<Rightarrow> addr \<Rightarrow> u64 \<Rightarrow> u32 \<Rightarrow> 'b fat_state \<Rightarrow> int \<times> 'b fat_state" where
  "read_loop E data offset len s =
     (if len = 0 then (0, s)
      else let buf_off = ucast (offset mod of_nat RAW_BUF) :: u32
      in if buf_off = 0 \<and> (data - raw_buf E) AND 31 = 0 \<and> len \<ge> of_nat RAW_BUF
      then let n = aligned_sects len;
               (err, s) = dev_read_at E data (offset div of_nat RAW_BUF) n s
           in if (word_of_int err :: u32) < n then (err, s)
              else let n = n * of_nat RAW_BUF
                   in read_loop E (data + ucast n) (offset + ucast n) (len - n) s
      else let n = partial_bytes buf_off len;
               (err, s) = raw_read E (ucast (offset div of_nat RAW_BUF)) s
           in if err \<noteq> 0 then (err, s)
              else let s = s\<lparr>fmem := memcpy data (raw_buf E + ucast buf_off) (ucast n) (fmem s)\<rparr>
                   in read_loop E (data + ucast n) (offset + ucast n) (len - n) s)"
  by pat_completeness auto

lemma aligned_sects_spec:
  fixes len :: u32
  assumes "of_nat RAW_BUF \<le> len"
  shows "0 < unat (aligned_sects len)" and "unat (aligned_sects len) \<le> 8"
    and "unat (aligned_sects len * of_nat RAW_BUF) = 512 * unat (aligned_sects len)"
    and "512 * unat (aligned_sects len) \<le> unat len"
proof -
  have d: "unat (len div 512) = unat len div 512" by (simp add: unat_div)
  have "512 \<le> unat len" using assms(1) by (simp add: RAW_BUF_def word_le_nat_alt)
  then have 1: "0 < unat len div 512" by (simp add: div_greater_zero_iff)
  have k: "unat (aligned_sects len) = min 8 (unat len div 512)"
    unfolding aligned_sects_def by (auto simp: RAW_BUF_def MAX_SECTS_def word_less_nat_alt d)
  show "0 < unat (aligned_sects len)" "unat (aligned_sects len) \<le> 8" using 1 k by auto
  then show "unat (aligned_sects len * of_nat RAW_BUF) = 512 * unat (aligned_sects len)"
    by (simp add: RAW_BUF_def) (subst unat_mult_lem [THEN iffD1], auto)
  show "512 * unat (aligned_sects len) \<le> unat len" using k by linarith
qed

lemma unat_buf_off: "unat (ucast ((offset :: u64) mod of_nat RAW_BUF) :: u32) = unat offset mod 512"
proof -
  have "unat (offset mod 512) = unat offset mod 512" by (simp add: unat_mod)
  then show ?thesis by (simp add: RAW_BUF_def unsigned_ucast_eq take_bit_nat_eq_self)
qed

lemma partial_bytes_spec:
  assumes "len \<noteq> 0" and "unat b < 512"
  shows "0 < unat (partial_bytes b len)" and "unat (partial_bytes b len) \<le> unat len" and "unat b + unat (partial_bytes b len) \<le> 512"
proof -
  have s: "unat (of_nat RAW_BUF - b) = 512 - unat b"
    using assms(2) by (simp add: RAW_BUF_def) (subst unat_sub, auto simp: word_le_nat_alt)
  have "0 < unat len" using assms(1) by (simp add: unat_gt_0)
  then show "0 < unat (partial_bytes b len)" "unat (partial_bytes b len) \<le> unat len" "unat b + unat (partial_bytes b len) \<le> 512"
    using s assms(2) by (auto simp: partial_bytes_def Let_def word_less_nat_alt)
qed

termination read_loop
proof (relation "measure (\<lambda>(E, data, offset, len, s). unat len)", goal_cases)
  case 1
  then show ?case by simp
next
  case (2 E data offset len s b n y err s' n1)
  then show ?case using aligned_sects_spec [of len] by (auto simp: unat_sub word_le_nat_alt)
next
  case (3 E data offset len s b n y err s')
  then show ?case using partial_bytes_spec [of len b] unat_buf_off [of offset] by (auto simp: unat_sub word_le_nat_alt)
qed

declare read_loop.simps [simp del]

definition read :: "'b fat_env \<Rightarrow> addr \<Rightarrow> u64 \<Rightarrow> u32 \<Rightarrow> 'b fat_state \<Rightarrow> int \<times> 'b fat_state" where
  "read E data offset len s = read_loop E data (offset + partition_start_offset s) len s"

text \<open>Reading changes memory and the number of the buffered sector, nothing else.\<close>

lemma dev_read_at_frame: "\<exists>m. snd (dev_read_at E data lba n s) = s\<lparr>fmem := m\<rparr>"
  by (auto simp: dev_read_at_def split: prod.splits)

lemma raw_read_frame: "\<exists>m c. snd (raw_read E sector s) = s\<lparr>fmem := m, current := c\<rparr>"
proof (cases "current s = sector")
  case True
  then have "snd (raw_read E sector s) = s\<lparr>fmem := fmem s, current := current s\<rparr>" by (simp add: raw_read_def)
  then show ?thesis by blast
next
  case False
  then have "snd (raw_read E sector s) = s\<lparr>fmem := store_list (fmem s) (raw_buf E) (snd (dev_read E (dev s) (ucast sector) 1)), current := sector\<rparr>"
    by (simp add: raw_read_def dev_read_at_def split: prod.splits)
  then show ?thesis by blast
qed

definition only_memory :: "'b fat_state \<Rightarrow> 'b fat_state \<Rightarrow> bool" where
  "only_memory s s' \<longleftrightarrow> s' = s\<lparr>fmem := fmem s', current := current s'\<rparr>"

lemma only_memory_refl [simp]: "only_memory s s"
  by (simp add: only_memory_def)

lemma only_memoryI: "s' = s\<lparr>fmem := m, current := c\<rparr> \<Longrightarrow> only_memory s s'"
  by (simp add: only_memory_def)

lemma only_memory_fields:
  assumes "only_memory s s'"
  shows "dev s' = dev s" "partition_start_offset s' = partition_start_offset s" "bytes_per_cluster s' = bytes_per_cluster s"
    "root_entries s' = root_entries s" "clusters s' = clusters s" "fat_type s' = fat_type s" "fat_offset s' = fat_offset s"
    "root_offset s' = root_offset s" "data_offset s' = data_offset s" "extent_offset s' = extent_offset s"
    "extent_len s' = extent_len s" "extent_next_cluster s' = extent_next_cluster s" "fat_name s' = fat_name s"
    "fat_file_size s' = fat_file_size s"
  using assms by (cases s; cases s'; simp add: only_memory_def)+

lemma only_memory_trans: "only_memory s s' \<Longrightarrow> only_memory s' s'' \<Longrightarrow> only_memory s s''"
  by (cases s, cases s', cases s'') (auto simp: only_memory_def)

lemma raw_read_only_memory: "only_memory s (snd (raw_read E sector s))"
  using raw_read_frame [of E sector s] by (metis only_memoryI)

lemma read_loop_0 [simp]: "read_loop E data offset 0 s = (0, s)"
  by (simp add: read_loop.simps)

lemma read_loop_aligned:
  assumes "len \<noteq> 0" and "unat offset mod 512 = 0" and "(data - raw_buf E) AND 31 = 0" and "of_nat RAW_BUF \<le> len"
    and "dev_read_at E data (offset div of_nat RAW_BUF) (aligned_sects len) s = (err, s1)"
  shows "read_loop E data offset len s =
     (if (word_of_int err :: u32) < aligned_sects len then (err, s1)
      else let n = aligned_sects len * of_nat RAW_BUF in read_loop E (data + ucast n) (offset + ucast n) (len - n) s1)"
proof -
  have "ucast (offset mod of_nat RAW_BUF) = (0 :: u32)"
    using assms(2) unat_buf_off [of offset] by (simp only: unat_eq_0)
  then show ?thesis using assms by (subst read_loop.simps) simp
qed

lemma read_loop_partial:
  fixes offset :: u64
  defines "b \<equiv> ucast (offset mod of_nat RAW_BUF) :: u32"
  assumes "len \<noteq> 0" and "\<not> (b = 0 \<and> (data - raw_buf E) AND 31 = 0 \<and> of_nat RAW_BUF \<le> len)"
    and "raw_read E (ucast (offset div of_nat RAW_BUF)) s = (err, s1)"
  shows "read_loop E data offset len s =
     (if err \<noteq> 0 then (err, s1)
      else let n = partial_bytes b len
           in read_loop E (data + ucast n) (offset + ucast n) (len - n)
                (s1\<lparr>fmem := memcpy data (raw_buf E + ucast b) (ucast n) (fmem s1)\<rparr>))"
  using assms(2-4) unfolding b_def by (subst read_loop.simps) (auto simp: Let_def)

lemma read_loop_only_memory: "only_memory s (snd (read_loop E data offset len s))"
proof (induction "unat len" arbitrary: data offset len s rule: less_induct)
  case less
  show ?case
  proof (cases "len = 0")
    case len: False
    let ?b = "ucast (offset mod of_nat RAW_BUF) :: u32"
    show ?thesis
    proof (cases "?b = 0 \<and> (data - raw_buf E) AND 31 = 0 \<and> of_nat RAW_BUF \<le> len")
      case True
      obtain err s1 where d: "dev_read_at E data (offset div of_nat RAW_BUF) (aligned_sects len) s = (err, s1)" by (cases "dev_read_at E data (offset div of_nat RAW_BUF) (aligned_sects len) s")
      have 1: "only_memory s s1"
        using dev_read_at_frame [of E data "offset div of_nat RAW_BUF" "aligned_sects len" s] d by (auto simp: only_memory_def)
      have "unat offset mod 512 = 0" using True unat_buf_off [of offset] by (metis unat_0)
      moreover have "unat (len - aligned_sects len * of_nat RAW_BUF) < unat len"
        using aligned_sects_spec [of len] True by (simp add: unat_sub word_le_nat_alt)
      ultimately show ?thesis
        using read_loop_aligned [OF len _ _ _ d] True less only_memory_trans [OF 1] 1 by (simp add: Let_def)
    next
      case False
      obtain err s1 where d: "raw_read E (ucast (offset div of_nat RAW_BUF)) s = (err, s1)" by (cases "raw_read E (ucast (offset div of_nat RAW_BUF)) s")
      have om: "only_memory s (s1\<lparr>fmem := m\<rparr>)" "only_memory s s1" for m
        using raw_read_frame [of E "ucast (offset div of_nat RAW_BUF)" s] d by (auto simp: only_memory_def)
      have lt: "unat (len - partial_bytes ?b len) < unat len"
        using partial_bytes_spec [OF len, of ?b] unat_buf_off [of offset] by (simp add: unat_sub word_le_nat_alt)
      show ?thesis
        unfolding read_loop_partial [OF len False d] Let_def
        by (auto intro: om only_memory_trans [OF om(1) less [OF lt]])
    qed
  qed simp
qed

lemma read_only_memory: "only_memory s (snd (read E data offset len s))"
  unfolding read_def by (rule read_loop_only_memory)

section \<open>The file allocation table\<close>

definition get_fat :: "'b fat_env \<Rightarrow> u32 \<Rightarrow> 'b fat_state \<Rightarrow> u32 \<times> 'b fat_state" where
  "get_fat E cluster s =
     (let offset_bits = cluster * fat_type s;
          (err, s) = read E (fat_at E) (fat_offset s + ucast (offset_bits div 8)) 4 s
      in if err \<noteq> 0 then (0, s)
         else let res = drop_bit (unat (offset_bits mod 8)) (le32 (fmem s) (fat_at E));
                  res = res AND (push_bit (unat (fat_type s)) 1 - 1);
                  res = res AND 0x0fffffff
              in (res, s))"

lemma get_fat_only_memory: "only_memory s (snd (get_fat E cluster s))"
  using read_only_memory [of s E "fat_at E" "fat_offset s + ucast (cluster * fat_type s div 8)" 4]
  by (auto simp: get_fat_def Let_def split: prod.splits)

text \<open>The \<^verbatim>\<open>for (;;)\<close> loop: clusters are taken as long as each is followed by its neighbour on the disk.\<close>

function extent_loop :: "'b fat_env \<Rightarrow> u32 \<Rightarrow> 'b fat_state \<Rightarrow> 'b fat_state" where
  "extent_loop E cluster s =
     (let s = s\<lparr>extent_len := extent_len s + bytes_per_cluster s\<rparr>;
          (next_cluster, s) = get_fat E cluster s
      in if next_cluster - 2 \<ge> clusters s then s
         else if next_cluster \<noteq> cluster + 1 then s\<lparr>extent_next_cluster := next_cluster\<rparr>
         else extent_loop E next_cluster s)"
  by pat_completeness auto

definition run_left :: "u32 \<Rightarrow> u32 \<Rightarrow> nat" where
  "run_left n cluster = (if cluster = 1 then 2 ^ 32 else unat n - unat (cluster - 2))"

lemma run_left_step:
  assumes "cluster + 1 - 2 < n"
  shows "run_left n (cluster + 1) < run_left n cluster"
proof (cases "cluster = 1")
  case True
  then show ?thesis using unsigned_less [of n, where ?'a = nat] by (simp add: run_left_def)
next
  case False
  have c: "cluster + 1 - 2 = (cluster - 2) + 1" by simp
  have "cluster - 2 \<noteq> - 1" using False by (auto simp: diff_eq_eq)
  then have "unat (cluster - 2 + 1) = Suc (unat (cluster - 2))"
    by (metis add.commute add_eq_0_iff2 unatSuc)
  moreover have "cluster \<noteq> 0"
  proof
    assume "cluster = 0"
    then have "n > - 1" using assms by simp
    then show False using word_n1_ge [of n] by simp
  qed
  ultimately show ?thesis using assms False c by (simp add: run_left_def word_less_nat_alt)
qed

termination extent_loop
proof (relation "measure (\<lambda>(E, cluster, s). run_left (clusters s) cluster)", goal_cases)
  case 1
  then show ?case by simp
next
  case (2 E cluster s s1 y nc s2)
  then have "clusters s2 = clusters s1"
    using only_memory_fields(5) [OF get_fat_only_memory [of s1 E cluster]] by (metis snd_conv)
  moreover from 2 have "(nc, s2) = get_fat E cluster s1" "nc = cluster + 1" "nc - 2 < clusters s2" "clusters s1 = clusters s"
    by (auto simp: not_le)
  ultimately have "run_left (clusters s2) nc < run_left (clusters s) cluster"
    using run_left_step [of cluster "clusters s"] by simp
  then show ?case by simp
qed

declare extent_loop.simps [simp del]

definition get_extent :: "'b fat_env \<Rightarrow> u32 \<Rightarrow> 'b fat_state \<Rightarrow> 'b fat_state" where
  "get_extent E cluster s =
     (let s = s\<lparr>extent_len := 0, extent_next_cluster := 0\<rparr>
      in if cluster = 0 \<and> fat_type s \<noteq> 32
         then s\<lparr>extent_offset := root_offset s, extent_len := 0x20 * root_entries s\<rparr>
         else let cluster = (if cluster = 0 then ucast (root_offset s) else cluster)
              in if cluster - 2 \<ge> clusters s then s
                 else extent_loop E cluster
                        (s\<lparr>extent_offset := data_offset s + ucast (bytes_per_cluster s) * ucast (cluster - 2)\<rparr>))"

text \<open>The loop ends as the length goes down with every round.\<close>

function read_extent :: "'b fat_env \<Rightarrow> addr \<Rightarrow> u32 \<Rightarrow> 'b fat_state \<Rightarrow> int \<times> 'b fat_state" where
  "read_extent E data len s =
     (if len = 0 then (0, s)
      else if extent_len s = 0 then (- 1, s)
      else let this = (if len > extent_len s then extent_len s else len);
               (err, s) = read E data (extent_offset s) this s
           in if err \<noteq> 0 then (err, s)
              else let s = s\<lparr>extent_offset := extent_offset s + ucast this, extent_len := extent_len s - this\<rparr>;
                       data = data + ucast this;
                       len = len - this;
                       s = (if extent_len s = 0 \<and> extent_next_cluster s \<noteq> 0 then get_extent E (extent_next_cluster s) s else s)
                   in read_extent E data len s)"
  by pat_completeness auto

termination read_extent
proof (relation "measure (\<lambda>(E, data, len, s). unat len)", goal_cases)
  case 1
  then show ?case by simp
next
  case (2 E data len s this y err s1 s2 data' len' s3)
  have "0 < unat this" "unat this \<le> unat len"
    using 2(1,2,3) by (auto simp: word_less_nat_alt unat_gt_0)
  then show ?case using 2 by (simp add: unat_sub word_le_nat_alt)
qed

declare read_extent.simps [simp del]

definition fat_read :: "'b fat_env \<Rightarrow> addr \<Rightarrow> u32 \<Rightarrow> 'b fat_state \<Rightarrow> int \<times> 'b fat_state" where
  "fat_read E data len s = read_extent E data len s"

section \<open>Names\<close>

definition ucase :: "u8 \<Rightarrow> u8" where
  "ucase c = (if c \<ge> ch (CHR ''a'') \<and> c \<le> ch (CHR ''z'') then c - ch (CHR ''a'') + ch (CHR ''A'') else c)"

text \<open>
  The path is the list of the bytes before its zero. \<open>fat_name\<close> is filled from the front; the bytes
  stored so far are the accumulator, the index \<^verbatim>\<open>i\<close> its length.
\<close>

fun name_loop :: "u8 list \<Rightarrow> nat \<Rightarrow> u8 list \<Rightarrow> u8 list \<Rightarrow> u8 list \<times> u8 list" where
  "name_loop stops n acc [] = (acc, [])"
| "name_loop stops n acc (c # path) =
     (if c \<in> set stops then (acc, c # path)
      else name_loop stops n (if length acc < n then acc @ [ucase c] else acc) path)"

definition pad_name :: "nat \<Rightarrow> u8 list \<Rightarrow> u8 list" where
  "pad_name n acc = acc @ replicate (n - length acc) (ch (CHR '' ''))"

definition parse_component :: "u8 list \<Rightarrow> u8 list \<times> u8 list" where
  "parse_component path =
     (let path = dropWhile (\<lambda>c. c = ch (CHR ''/'')) path;
          (name, path) = name_loop (bytes ''/.'') 8 [] path;
          name = pad_name 8 name;
          path = (if peek path = ch (CHR ''.'') then tl path else path);
          (name, path) = name_loop (bytes ''/'') 11 name path;
          name = pad_name 11 name;
          name = (if hd name = 0xe5 then name[0 := 0x05] else name)
      in (name, path))"

section \<open>Opening a file\<close>

text \<open>The outcome of the loop over a directory: an early return, a matching entry, or its end.\<close>

datatype dir_result = DirReturn int | DirFound u32 | DirEnd

partial_function (option) dir_loop :: "'b fat_env \<Rightarrow> u8 list \<Rightarrow> 'b fat_state \<Rightarrow> (dir_result \<times> 'b fat_state) option" where
  "dir_loop E name s =
     (if extent_len s = 0 then Some (DirEnd, s)
      else let (err, s) = read_extent E (dir_at E) 0x20 s;
               dir = (\<lambda>i. fmem s (dir_at E + i))
           in if err \<noteq> 0 then Some (DirReturn err, s)
              else if dir 0 = 0 then Some (DirReturn (- 1), s)
              else if dir 0x0b AND 0x08 \<noteq> 0 then dir_loop E name s
              else if dir 0 = 0xe5 then dir_loop E name s
              else if (name \<noteq> []) \<noteq> (dir 0x0b AND 0x10 \<noteq> 0) then dir_loop E name s
              else if fat_name s = load_list (fmem s) (dir_at E) 11
              then let cluster = ucast (le16 (fmem s) (dir_at E + 0x1a));
                       cluster = (if fat_type s = 32 then cluster OR push_bit 16 (ucast (le16 (fmem s) (dir_at E + 0x14))) else cluster)
                   in if name = []
                      then Some (DirReturn 0, get_extent E cluster (s\<lparr>fat_file_size := le32 (fmem s) (dir_at E + 0x1c)\<rparr>))
                      else Some (DirFound cluster, s)
              else dir_loop E name s)"

lemma name_loop_shorter: "length (snd (name_loop stops n acc path)) \<le> length path"
  by (induction path arbitrary: acc) (auto intro: le_SucI)

lemma parse_component_shorter: "path \<noteq> [] \<Longrightarrow> length (snd (parse_component path)) < length path"
proof -
  assume "path \<noteq> []"
  then obtain c cs where path: "path = c # cs" by (cases path) auto
  define p1 where "p1 = dropWhile (\<lambda>c. c = ch (CHR ''/'')) path"
  define p2 where "p2 = snd (name_loop (bytes ''/.'') 8 [] p1)"
  define p3 where "p3 = (if peek p2 = ch (CHR ''.'') then tl p2 else p2)"
  obtain n where n: "name_loop (bytes ''/.'') 8 [] p1 = (n, p2)" by (metis p2_def prod.collapse)
  have r: "snd (parse_component path) = snd (name_loop (bytes ''/'') 11 (pad_name 8 n) p3)"
    unfolding parse_component_def Let_def p1_def [symmetric] n p3_def by (simp split: prod.splits)
  have 1: "length p1 \<le> length path" unfolding p1_def by (rule length_dropWhile_le)
  have 2: "length p2 \<le> length p1" unfolding p2_def by (rule name_loop_shorter)
  have 3: "length p3 \<le> length p2" by (simp add: p3_def)
  have "length p3 \<le> length cs"
  proof (cases "c = ch (CHR ''/'')")
    case True
    then have "length p1 \<le> length cs" using length_dropWhile_le [of _ cs] by (simp add: p1_def path)
    then show ?thesis using 2 3 by simp
  next
    case slash: False
    then have p1: "p1 = c # cs" by (simp add: p1_def path)
    show ?thesis
    proof (cases "c = ch (CHR ''.'')")
      case True
      then have "p2 = c # cs" by (simp add: p2_def p1 bytes_def)
      then show ?thesis using True by (simp add: p3_def)
    next
      case False
      then have "p2 = snd (name_loop (bytes ''/.'') 8 [ucase c] cs)" using slash by (simp add: p2_def p1 bytes_def)
      then have "length p2 \<le> length cs" using name_loop_shorter by metis
      then show ?thesis using 3 by simp
    qed
  qed
  moreover have "length (snd (parse_component path)) \<le> length p3" unfolding r by (rule name_loop_shorter)
  ultimately show ?thesis using path by simp
qed

function open_loop :: "'b fat_env \<Rightarrow> u8 list \<Rightarrow> u32 \<Rightarrow> 'b fat_state \<Rightarrow> (int \<times> 'b fat_state) option" where
  "open_loop E name cluster s =
     (if name = [] then Some (- 1, s)
      else let s = get_extent E cluster s;
               (n, name) = parse_component name;
               s = s\<lparr>fat_name := n\<rparr>
           in case dir_loop E name s of
                None \<Rightarrow> None
              | Some (DirReturn r, s) \<Rightarrow> Some (r, s)
              | Some (DirFound cluster, s) \<Rightarrow> open_loop E name cluster s
              | Some (DirEnd, s) \<Rightarrow> open_loop E name cluster s)"
  by pat_completeness auto

termination open_loop
  by (relation "measure (\<lambda>(E, name, cluster, s). length name)")
    (auto dest!: parse_component_shorter, (metis parse_component_shorter snd_conv)+)

declare open_loop.simps [simp del]

definition fat_open :: "'b fat_env \<Rightarrow> u8 list \<Rightarrow> 'b fat_state \<Rightarrow> (int \<times> 'b fat_state) option" where
  "fat_open E name s = open_loop E name 0 s"

section \<open>Mounting\<close>

text \<open>\<open>None\<close> is the division by zero when the superblock gives no sectors per cluster or no bytes per sector.\<close>

definition fat_init_fs :: "addr \<Rightarrow> 'b fat_state \<Rightarrow> (int \<times> 'b fat_state) option" where
  "fat_init_fs sb s =
     (let m = fmem s;
          bytes_per_sector = ucast (le16 m (sb + 0x0b)) :: u32;
          sectors_per_cluster = ucast (m (sb + 0x0d)) :: u32;
          s = s\<lparr>bytes_per_cluster := bytes_per_sector * sectors_per_cluster\<rparr>;
          reserved_sectors = ucast (le16 m (sb + 0x0e)) :: u32;
          fats = ucast (m (sb + 0x10)) :: u32;
          s = s\<lparr>root_entries := ucast (le16 m (sb + 0x11))\<rparr>;
          total_sectors = ucast (le16 m (sb + 0x13)) :: u32;
          sectors_per_fat = ucast (le16 m (sb + 0x16)) :: u32;
          total_sectors = (if total_sectors = 0 then le32 m (sb + 0x20) else total_sectors);
          sectors_per_fat = (if sectors_per_fat = 0 then le32 m (sb + 0x24) else sectors_per_fat);
          fat_sectors = sectors_per_fat * fats
      in if bytes_per_sector = 0 \<or> sectors_per_cluster = 0 then None
         else let root_sectors = (0x20 * root_entries s + bytes_per_sector - 1) div bytes_per_sector;
                  fat_start_sector = reserved_sectors;
                  root_start_sector = fat_start_sector + fat_sectors;
                  data_start_sector = root_start_sector + root_sectors;
                  s = s\<lparr>clusters := (total_sectors - data_start_sector) div sectors_per_cluster\<rparr>;
                  s = s\<lparr>fat_type := (if clusters s < 0x0ff5 then 12 else if clusters s < 0xfff5 then 16 else 32)\<rparr>;
                  s = s\<lparr>fat_offset := ucast bytes_per_sector * ucast fat_start_sector,
                        root_offset := ucast bytes_per_sector * ucast root_start_sector,
                        data_offset := ucast bytes_per_sector * ucast data_start_sector\<rparr>;
                  s = (if fat_type s = 32 then s\<lparr>root_offset := ucast (le32 m (sb + 0x2c))\<rparr> else s)
              in Some (0, s))"

definition is_fat_fs :: "addr \<Rightarrow> mem \<Rightarrow> bool" where
  "is_fat_fs sb m =
     (let bps = ucast (le16 m (sb + 0x0b)) :: u32
      in if bps < 0x0200 \<or> bps > 0x1000 \<or> bps AND (bps - 1) \<noteq> 0 then False
         else if m (sb + 0x15) < 0xf8 \<and> m (sb + 0x15) \<noteq> 0xf0 then False
         else True)"

definition fat_init :: "'b fat_env \<Rightarrow> 'b \<Rightarrow> 'b fat_state \<Rightarrow> (int \<times> 'b fat_state) option" where
  "fat_init E d s =
     (let buf = sb_at E;
          s = s\<lparr>dev := d, partition_start_offset := 0\<rparr>;
          (err, s) = read E buf 0 0x200 s
      in if err \<noteq> 0 then Some (err, s)
         else if le16 (fmem s) (buf + 0x01fe) \<noteq> 0xaa55 then Some (- 1, s)
         else if is_fat_fs buf (fmem s) then fat_init_fs buf s
         else if fmem s (buf + 0x01c2) = 0 then Some (- 1, s)
         else let s = s\<lparr>partition_start_offset := 0x200 * ucast (le32 (fmem s) (buf + 0x01c6))\<rparr>;
                  (err, s) = read E buf 0 0x200 s
              in if err \<noteq> 0 then Some (err, s)
                 else if is_fat_fs buf (fmem s) then fat_init_fs buf s
                 else Some (- 1, s))"

end
