(* ===== verification/Xell_Fat_Files.thy ===== *)
theory Xell_Fat_Files
  imports Xell_Fat
begin

unbundle bit_operations_syntax

text \<open>
  Correctness of the FAT reader of \<open>Xell_Fat\<close> against a disk, the sequence of its bytes: a working
  driver (\<open>good_dev\<close>) delivers its sectors. \<open>read\<close> delivers its bytes, \<open>get_fat\<close> its table
  entries, \<open>get_extent\<close> and \<open>read_extent\<close> the bytes of a cluster chain (\<open>chain_bytes\<close>), the loop of
  \<open>fat_open\<close> the entry of a directory (\<open>scan\<close>), and the whole of it the file a path leads to
  (\<open>path_to\<close>). The last section holds the properties, with what the code does when the driver fails.
\<close>

section \<open>Reading returns what is on the disk\<close>

definition slice :: "(nat \<Rightarrow> u8) \<Rightarrow> nat \<Rightarrow> nat \<Rightarrow> u8 list" where
  "slice disk a n = map disk [a..<a + n]"

lemma length_slice [simp]: "length (slice disk a n) = n"
  by (simp add: slice_def)

lemma slice_0 [simp]: "slice disk a 0 = []"
  by (simp add: slice_def)

lemma slice_append: "slice disk a (n + k) = slice disk a n @ slice disk (a + n) k"
  using upt_add_eq_append [of a "a + n" k] by (simp add: slice_def add.assoc)

lemma slice_nth [simp]: "i < n \<Longrightarrow> slice disk a n ! i = disk (a + i)"
  by (simp add: slice_def)

lemma slice_part: "i + k \<le> n \<Longrightarrow> take k (drop i (slice disk a n)) = slice disk (a + i) k"
  by (rule nth_equalityI) (auto simp: add.assoc)

text \<open>
  A working driver: it delivers the sectors asked for, as long as they exist, and returns their number.
  The disk is the sequence of its bytes.
\<close>

definition good_dev :: "'b fat_env \<Rightarrow> 'b \<Rightarrow> (nat \<Rightarrow> u8) \<Rightarrow> nat \<Rightarrow> bool" where
  "good_dev E d disk nsec \<longleftrightarrow> nsec < 2 ^ 32 \<and>
     (\<forall>lba n. 0 < n \<and> n \<le> 8 \<and> lba + n \<le> nsec \<longrightarrow>
        dev_read E d (of_nat lba) (of_nat n) = (int n, slice disk (512 * lba) (512 * n)))"

lemma good_devD:
  "good_dev E d disk nsec \<Longrightarrow> 0 < n \<Longrightarrow> n \<le> 8 \<Longrightarrow> lba + n \<le> nsec \<Longrightarrow>
     dev_read E d (of_nat lba) (of_nat n) = (int n, slice disk (512 * lba) (512 * n))"
  by (simp add: good_dev_def)

text \<open>The sector buffer holds the sector it is said to hold.\<close>

definition cache_ok :: "'b fat_env \<Rightarrow> (nat \<Rightarrow> u8) \<Rightarrow> nat \<Rightarrow> 'b fat_state \<Rightarrow> bool" where
  "cache_ok E disk nsec s \<longleftrightarrow> current s = - 1 \<or>
     unat (current s) < nsec \<and> load_list (fmem s) (raw_buf E) 512 = slice disk (512 * unat (current s)) 512"

lemma cache_ok_store:
  assumes "cache_ok E disk nsec s" and "region (raw_buf E) 512 \<inter> region data (length bs) = {}"
  shows "cache_ok E disk nsec (s\<lparr>fmem := store_list (fmem s) data bs\<rparr>)"
  using assms load_store_other [of "raw_buf E" 512 data bs "fmem s"] by (auto simp: cache_ok_def)

lemma raw_read_correct:
  assumes good: "good_dev E (dev s) disk nsec" and c: "cache_ok E disk nsec s" and q: "q < nsec"
  shows "\<exists>s1. raw_read E (of_nat q) s = (0, s1) \<and> cache_ok E disk nsec s1 \<and> dev s1 = dev s
     \<and> load_list (fmem s1) (raw_buf E) 512 = slice disk (512 * q) 512
     \<and> (\<forall>a. a \<notin> region (raw_buf E) 512 \<longrightarrow> fmem s1 a = fmem s a)"
proof -
  have nsec: "nsec < 2 ^ 32" using good by (simp add: good_dev_def)
  then have uq: "unat (of_nat q :: u32) = q" using q by (simp add: unat_of_nat)
  have "(of_nat q :: u32) \<noteq> - 1"
  proof
    assume "(of_nat q :: u32) = - 1"
    then have "unat (of_nat q :: u32) = unat (- 1 :: u32)" by simp
    moreover have "unat (- 1 :: u32) = 2 ^ 32 - 1" by (simp add: unsigned_minus_1_eq_mask mask_eq_exp_minus_1)
    ultimately show False using uq q nsec by simp
  qed
  show ?thesis
  proof (cases "current s = of_nat q")
    case True
    then show ?thesis using c uq \<open>of_nat q \<noteq> - 1\<close> by (auto simp: raw_read_def cache_ok_def)
  next
    case False
    have u: "(ucast (of_nat q :: u32) :: u64) = of_nat q"
    proof -
      have "(ucast (of_nat q :: u32) :: u64) = of_nat (unat (of_nat q :: u32))" by simp
      then show ?thesis using uq by simp
    qed
    have "dev_read E (dev s) (of_nat q) (of_nat 1) = (1, slice disk (512 * q) 512)"
      using good_devD [OF good, of 1 q] q by simp
    then have r: "raw_read E (of_nat q) s =
        (0, s\<lparr>current := of_nat q, fmem := store_list (fmem s) (raw_buf E) (slice disk (512 * q) 512)\<rparr>)"
      using False u by (simp add: raw_read_def dev_read_at_def c_bool_def)
    moreover have "load_list (store_list (fmem s) (raw_buf E) (slice disk (512 * q) 512)) (raw_buf E) 512 = slice disk (512 * q) 512"
      using load_store_list [of "slice disk (512 * q) 512" "fmem s" "raw_buf E"] by simp
    ultimately show ?thesis using uq q by (auto simp: cache_ok_def store_list_other)
  qed
qed

text \<open>What reading \<open>n\<close> bytes at the disk offset \<open>off\<close> to \<open>data\<close> achieves.\<close>

definition delivers :: "'b fat_env \<Rightarrow> (nat \<Rightarrow> u8) \<Rightarrow> nat \<Rightarrow> addr \<Rightarrow> nat \<Rightarrow> nat \<Rightarrow> 'b fat_state \<Rightarrow> 'b fat_state \<Rightarrow> bool" where
  "delivers E disk nsec data off n s s' \<longleftrightarrow> cache_ok E disk nsec s' \<and> dev s' = dev s
     \<and> load_list (fmem s') data n = slice disk off n
     \<and> (\<forall>a. a \<notin> region data n \<union> region (raw_buf E) 512 \<longrightarrow> fmem s' a = fmem s a)"

text \<open>One round followed by the rest.\<close>

lemma delivers_step:
  assumes n: "n \<le> len" "len < 2 ^ 32" and dj: "region (raw_buf E) 512 \<inter> region data len = {}"
    and m1: "dev s1 = dev s" "\<And>a. a \<notin> region (raw_buf E) 512 \<Longrightarrow> fmem s1 a = fmem s a"
    and rest: "delivers E disk nsec (data + of_nat n) (off + n) (len - n)
                 (s1\<lparr>fmem := store_list (fmem s1) data (slice disk off n)\<rparr>) s'"
  shows "delivers E disk nsec data off len s s'"
proof -
  let ?m = "store_list (fmem s1) data (slice disk off n)"
  have split: "region data len = region data n \<union> region (data + of_nat n) (len - n)"
    using region_add [of data n "len - n"] n by simp
  have d2: "region data n \<inter> region (data + of_nat n) (len - n) = {}"
    using region_split_disjoint [of n "len - n" data] n by simp
  have keep: "fmem s' a = ?m a" if "a \<notin> region (data + of_nat n) (len - n) \<union> region (raw_buf E) 512" for a
    using rest that by (simp add: delivers_def)
  have "load_list (fmem s') data n = load_list ?m data n"
    using keep d2 dj split by (intro load_list_cong) blast
  also have "\<dots> = slice disk off n"
    using load_store_list [of "slice disk off n" "fmem s1" data] n by simp
  finally have "load_list (fmem s') data n = slice disk off n" .
  moreover have "load_list (fmem s') (data + of_nat n) (len - n) = slice disk (off + n) (len - n)"
    using rest by (simp add: delivers_def)
  ultimately have "load_list (fmem s') data (n + (len - n)) = slice disk off (n + (len - n))"
    by (simp add: load_list_add slice_append)
  then have "load_list (fmem s') data len = slice disk off len" using n by simp
  moreover have "fmem s' a = fmem s a" if "a \<notin> region data len \<union> region (raw_buf E) 512" for a
    using keep [of a] that split m1(2) [of a] store_list_other [of a data "slice disk off n" "fmem s1"] by simp
  ultimately show ?thesis using rest m1(1) by (simp add: delivers_def)
qed

lemma u64_sector: "(offset :: u64) div of_nat RAW_BUF = of_nat (unat offset div 512)"
proof -
  have "unat (offset div 512) = unat offset div 512" by (simp add: unat_div)
  from arg_cong [OF this, of "of_nat :: nat \<Rightarrow> u64"] show ?thesis by (simp add: RAW_BUF_def)
qed

lemma u32_sector:
  assumes "unat (offset :: u64) div 512 < 2 ^ 32"
  shows "(ucast (offset div of_nat RAW_BUF) :: u32) = of_nat (unat offset div 512)"
proof -
  have u: "unat (offset div of_nat RAW_BUF) = unat offset div 512" by (simp add: unat_div RAW_BUF_def)
  have "unat (ucast (offset div of_nat RAW_BUF) :: u32) = unat offset div 512"
    using assms u unat_ucast_u64_u32 [of "offset div of_nat RAW_BUF"] by simp
  then show ?thesis by (metis of_nat_unat ucast_id)
qed

lemma delivers_rest:
  fixes k len :: u32
  assumes IH: "\<forall>len' s data offset. unat len' < unat len \<longrightarrow> good_dev E (dev s) disk nsec \<longrightarrow> cache_ok E disk nsec s \<longrightarrow>
      region (raw_buf E) 512 \<inter> region data (unat len') = {} \<longrightarrow> unat offset + unat len' \<le> 512 * nsec \<longrightarrow>
      (\<exists>s'. read_loop E data offset len' s = (0, s') \<and> delivers E disk nsec data (unat offset) (unat len') s s')"
    and good: "good_dev E (dev s) disk nsec" and dj: "region (raw_buf E) 512 \<inter> region data (unat len) = {}"
    and rng: "unat offset + unat len \<le> 512 * nsec"
    and k: "0 < unat k" "unat k \<le> unat len" and s1: "cache_ok E disk nsec s1" "dev s1 = dev s"
        "\<And>a. a \<notin> region (raw_buf E) 512 \<Longrightarrow> fmem s1 a = fmem s a"
  shows "\<exists>s'. read_loop E (data + ucast k) (offset + ucast k) (len - k) (s1\<lparr>fmem := store_list (fmem s1) data (slice disk (unat offset) (unat k))\<rparr>) = (0, s')
        \<and> delivers E disk nsec data (unat offset) (unat len) s s'"
proof -
  have len32: "unat len < 2 ^ 32" using unsigned_less [of len, where ?'a = nat] by simp
  have nsec: "nsec < 2 ^ 32" using good by (simp add: good_dev_def)
  let ?s = "s1\<lparr>fmem := store_list (fmem s1) data (slice disk (unat offset) (unat k))\<rparr>"
  have lk: "unat (len - k) = unat len - unat k" using k by (simp add: unat_sub word_le_nat_alt)
  have ok: "unat (offset + ucast k) = unat offset + unat k"
    using rng nsec k by (subst unat_add_lem [THEN iffD1]) auto
  have dk: "data + ucast k = data + of_nat (unat k)" by simp
  have split: "region data (unat len) = region data (unat k) \<union> region (data + of_nat (unat k)) (unat len - unat k)"
    using region_add [of data "unat k" "unat len - unat k"] k by simp
  have c: "cache_ok E disk nsec ?s"
  proof (rule cache_ok_store [OF s1(1)])
    show "region (raw_buf E) 512 \<inter> region data (length (slice disk (unat offset) (unat k))) = {}" using split dj by auto
  qed
  have r: "region (raw_buf E) 512 \<inter> region (data + ucast k) (unat (len - k)) = {}"
    unfolding lk dk using split dj by blast
  have lt: "unat (len - k) < unat len" using k lk by simp
  have g: "good_dev E (dev ?s) disk nsec" using good s1(2) by simp
  have rg: "unat (offset + ucast k) + unat (len - k) \<le> 512 * nsec" using rng k lk ok by simp
  from IH [rule_format, OF lt g c r rg] obtain s' where s': "read_loop E (data + ucast k) (offset + ucast k) (len - k) ?s = (0, s')"
    and d: "delivers E disk nsec (data + ucast k) (unat (offset + ucast k)) (unat (len - k)) ?s s'"
    by blast
  have "delivers E disk nsec data (unat offset) (unat len) s s'"
    by (rule delivers_step [OF k(2) len32 dj s1(2,3) d [unfolded lk ok dk]])
  with s' show ?thesis by blast
qed

lemma read_loop_correct:
  assumes "good_dev E (dev s) disk nsec" and "cache_ok E disk nsec s"
    and "region (raw_buf E) 512 \<inter> region data (unat len) = {}" and "unat offset + unat len \<le> 512 * nsec"
  shows "\<exists>s'. read_loop E data offset len s = (0, s') \<and> delivers E disk nsec data (unat offset) (unat len) s s'"
  using assms
proof (induction "unat len" arbitrary: data offset len s rule: less_induct)
  case less
  note good = less.prems(1) and cache = less.prems(2) and dj = less.prems(3) and rng = less.prems(4)
  have nsec: "nsec < 2 ^ 32" using good by (simp add: good_dev_def)
  show ?case
  proof (cases "len = 0")
    case True
    then show ?thesis using cache by (simp add: delivers_def)
  next
    case len: False
    have "\<forall>len' s data offset. unat len' < unat len \<longrightarrow> good_dev E (dev s) disk nsec \<longrightarrow> cache_ok E disk nsec s \<longrightarrow>
      region (raw_buf E) 512 \<inter> region data (unat len') = {} \<longrightarrow> unat offset + unat len' \<le> 512 * nsec \<longrightarrow>
      (\<exists>s'. read_loop E data offset len' s = (0, s') \<and> delivers E disk nsec data (unat offset) (unat len') s s')"
      using less.hyps by blast
    note go = delivers_rest [OF this good dj rng]
    let ?b = "ucast (offset mod of_nat RAW_BUF) :: u32" and ?q = "unat offset div 512"
    have b: "unat ?b = unat offset mod 512" by (rule unat_buf_off)
    have "0 < unat len" using len by (simp add: unat_gt_0)
    then have "unat offset < nsec * 512" using rng by simp
    then have q: "?q < nsec" by (rule less_mult_imp_div_less)
    show ?thesis
    proof (cases "?b = 0 \<and> (data - raw_buf E) AND 31 = 0 \<and> of_nat RAW_BUF \<le> len")
      case True
      let ?n = "aligned_sects len"
      have off: "unat offset mod 512 = 0" using True b by (metis unat_0)
      note sp = aligned_sects_spec [of len]
      have n: "0 < unat ?n" "unat ?n \<le> 8" "unat (?n * of_nat RAW_BUF) = 512 * unat ?n" "512 * unat ?n \<le> unat len"
        using sp True by auto
      have q512: "512 * ?q = unat offset" using off mult_div_mod_eq [of 512 "unat offset"] by linarith
      have "512 * (?q + unat ?n) \<le> 512 * nsec" unfolding distrib_left q512 using rng n(4) by linarith
      then have "?q + unat ?n \<le> nsec" by simp
      with q512 have "dev_read E (dev s) (of_nat ?q) (of_nat (unat ?n)) = (int (unat ?n), slice disk (unat offset) (512 * unat ?n))"
        using good_devD [OF good n(1,2)] by simp
      then have d: "dev_read_at E data (offset div of_nat RAW_BUF) ?n s
          = (int (unat ?n), s\<lparr>fmem := store_list (fmem s) data (slice disk (unat offset) (unat (?n * of_nat RAW_BUF)))\<rparr>)"
        using u64_sector [of offset] n(3) by (simp add: dev_read_at_def)
      have nl: "((word_of_int (int (unat ?n)) :: u32) < ?n) = False" by simp
      have k: "0 < unat (?n * of_nat RAW_BUF)" "unat (?n * of_nat RAW_BUF) \<le> unat len" using n by simp_all
      have al: "(data - raw_buf E) AND 31 = 0" "of_nat RAW_BUF \<le> len" using True by blast+
      show ?thesis
        unfolding read_loop_aligned [OF len off al d] Let_def nl if_False by (rule go [OF k cache refl refl])
    next
      case False
      let ?n = "partial_bytes ?b len"
      have "(ucast (offset div of_nat RAW_BUF) :: u32) = of_nat ?q" using q nsec by (intro u32_sector) simp
      with raw_read_correct [OF good cache q] obtain s1 where r: "raw_read E (ucast (offset div of_nat RAW_BUF)) s = (0, s1)"
        and s1: "cache_ok E disk nsec s1" "dev s1 = dev s" "\<And>a. a \<notin> region (raw_buf E) 512 \<Longrightarrow> fmem s1 a = fmem s a"
        and l: "load_list (fmem s1) (raw_buf E) 512 = slice disk (512 * ?q) 512" by auto
      have n: "0 < unat ?n" "unat ?n \<le> unat len" "unat ?b + unat ?n \<le> 512"
        using partial_bytes_spec [OF len, of ?b] b by auto
      have rb: "raw_buf E + ucast ?b = raw_buf E + of_nat (unat ?b)" by simp
      have "region (raw_buf E + of_nat (unat ?b)) (unat ?n) \<subseteq> region (raw_buf E) 512" by (rule region_sub) (rule n(3))
      moreover have "region data (unat ?n) \<subseteq> region data (unat len)" by (rule region_mono) (rule n(2))
      ultimately have "region data (unat ?n) \<inter> region (raw_buf E + of_nat (unat ?b)) (unat ?n) = {}" using dj by blast
      then have "memcpy data (raw_buf E + ucast ?b) (ucast ?n) (fmem s1)
          = store_list (fmem s1) data (load_list (fmem s1) (raw_buf E + of_nat (unat ?b)) (unat ?n))"
        unfolding rb by (subst memcpy_disjoint) simp_all
      also have "load_list (fmem s1) (raw_buf E + of_nat (unat ?b)) (unat ?n) = take (unat ?n) (drop (unat ?b) (load_list (fmem s1) (raw_buf E) 512))"
        using n(3) by (simp add: drop_load_list take_load_list)
      also have "\<dots> = slice disk (unat offset) (unat ?n)"
        unfolding l using slice_part [OF n(3), of disk "512 * ?q"] b by simp
      finally have "memcpy data (raw_buf E + ucast ?b) (ucast ?n) (fmem s1) = store_list (fmem s1) data (slice disk (unat offset) (unat ?n))" .
      then show ?thesis
        unfolding read_loop_partial [OF len False r] Let_def using go [OF n(1,2) s1] by (simp only: if_False not_True_eq_False simp_thms)
    qed
  qed
qed


lemma read_correct:
  assumes "good_dev E (dev s) disk nsec" and "cache_ok E disk nsec s"
    and "region (raw_buf E) 512 \<inter> region data (unat len) = {}"
    and "unat (partition_start_offset s) + unat offset + unat len \<le> 512 * nsec"
  shows "\<exists>s'. read E data offset len s = (0, s') \<and> only_memory s s' \<and>
     delivers E disk nsec data (unat (partition_start_offset s) + unat offset) (unat len) s s'"
proof -
  have "nsec < 2 ^ 32" using assms(1) by (simp add: good_dev_def)
  then have "unat (offset + partition_start_offset s) = unat (partition_start_offset s) + unat offset"
    using assms(4) by (subst unat_add_lem [THEN iffD1]) auto
  with read_loop_correct [OF assms(1-3), of "offset + partition_start_offset s"] assms(4)
    read_only_memory [of s E data offset len] show ?thesis
    by (auto simp: read_def)
qed

section \<open>Table entries\<close>

lemma or_plus: "(x :: 'a :: len word) AND y = 0 \<Longrightarrow> x OR y = x + y"
  by (simp add: disjunctive_add_eq_or)

lemma le32_of_nat:
  "le32 m p = of_nat (unat (m p) + 2 ^ 8 * unat (m (p + 1)) + 2 ^ 16 * unat (m (p + 2)) + 2 ^ 24 * unat (m (p + 3)))"
proof -
  define a b c d :: u32 where abcd: "a = ucast (m p)" "b = push_bit 8 (ucast (m (p + 1)))"
    "c = push_bit 16 (ucast (m (p + 2)))" "d = push_bit 24 (ucast (m (p + 3)))"
  have z: "a AND b = 0" "(a OR b) AND c = 0" "(a OR b OR c) AND d = 0"
    unfolding abcd by (auto simp: bit_eq_iff bit_simps u8_bit_high)
  have "le32 m p = a + b + c + d"
    using z by (simp add: le32_def or_plus flip: abcd or.assoc)
  also have "\<dots> = of_nat (unat (m p)) + 2 ^ 8 * of_nat (unat (m (p + 1))) + 2 ^ 16 * of_nat (unat (m (p + 2))) + 2 ^ 24 * of_nat (unat (m (p + 3)))"
    unfolding abcd by (simp add: push_bit_eq_mult)
  finally show ?thesis by simp
qed

lemma unat_le32:
  "unat (le32 m p) = unat (m p) + 2 ^ 8 * unat (m (p + 1)) + 2 ^ 16 * unat (m (p + 2)) + 2 ^ 24 * unat (m (p + 3))"
proof -
  have b: "unat (x :: u8) \<le> 255" for x using unsigned_less [of x, where ?'a = nat] by simp
  have "unat (m p) + 2 ^ 8 * unat (m (p + 1)) + 2 ^ 16 * unat (m (p + 2)) + 2 ^ 24 * unat (m (p + 3)) < 2 ^ 32"
    using b [of "m p"] b [of "m (p + 1)"] b [of "m (p + 2)"] b [of "m (p + 3)"] by simp
  then show ?thesis unfolding le32_of_nat unat_of_nat by (intro mod_less) simp
qed

text \<open>The little-endian number in four bytes of the disk, and a table entry the way the format defines
  it: 12-bit entries packed two in three bytes, 16-bit entries, and 28 bits of a 32-bit entry.\<close>

definition disk_le32 :: "(nat \<Rightarrow> u8) \<Rightarrow> nat \<Rightarrow> nat" where
  "disk_le32 disk a = unat (disk a) + 2 ^ 8 * unat (disk (a + 1)) + 2 ^ 16 * unat (disk (a + 2)) + 2 ^ 24 * unat (disk (a + 3))"

definition disk_le16 :: "(nat \<Rightarrow> u8) \<Rightarrow> nat \<Rightarrow> nat" where
  "disk_le16 disk a = unat (disk a) + 2 ^ 8 * unat (disk (a + 1))"

definition fat_entry :: "(nat \<Rightarrow> u8) \<Rightarrow> nat \<Rightarrow> nat \<Rightarrow> nat \<Rightarrow> nat" where
  "fat_entry disk t table c =
     (if t = 12 then (if even c then disk_le16 disk (table + 3 * (c div 2)) mod 2 ^ 12
                      else disk_le16 disk (table + 3 * (c div 2) + 1) div 2 ^ 4)
      else if t = 16 then disk_le16 disk (table + 2 * c)
      else disk_le32 disk (table + 4 * c) mod 2 ^ 28)"

lemma disk_le16_less: "disk_le16 disk a < 2 ^ 16"
proof -
  have b: "unat (x :: u8) \<le> 255" for x using unsigned_less [of x, where ?'a = nat] by simp
  show ?thesis using b [of "disk a"] b [of "disk (a + 1)"] by (simp add: disk_le16_def)
qed

lemma disk_le32_le16: "disk_le32 disk a = disk_le16 disk a + 2 ^ 16 * disk_le16 disk (a + 2)"
proof -
  have "a + 2 + 1 = a + 3" by simp
  then show ?thesis unfolding disk_le32_def disk_le16_def by (simp only: distrib_left mult.assoc [symmetric] add.assoc [symmetric]) simp
qed

lemma low_bits: "(x + 65536 * y) mod 4096 = x mod (4096 :: nat)"
proof -
  have "x + 65536 * y = x + 4096 * (16 * y)" by simp
  then show ?thesis by (simp only: mod_mult_self2)
qed

lemma middle_bits:
  assumes "x < (65536 :: nat)"
  shows "(x + 65536 * y) div 16 mod 4096 = x div 16"
proof -
  have "x + 65536 * y = x + 16 * (4096 * y)" by simp
  then have "(x + 65536 * y) div 16 = 4096 * y + x div 16" by simp
  moreover have "x div 16 < 4096" using assms by (simp add: less_mult_imp_div_less)
  ultimately show ?thesis by simp
qed

text \<open>The bits the code takes from the four bytes are the ones the format means.\<close>

lemma fat_entry_bits:
  assumes "t = 12 \<or> t = 16 \<or> t = 32"
  shows "disk_le32 disk (table + c * t div 8) div 2 ^ (c * t mod 8) mod 2 ^ min t 28 = fat_entry disk t table c"
  using assms
proof (elim disjE)
  assume t: "t = 16"
  have "c * 16 div 8 = 2 * c" "c * 16 mod 8 = 0" by simp_all
  with t show ?thesis using disk_le16_less [of disk "table + 2 * c"]
    by (simp add: fat_entry_def disk_le32_le16)
next
  assume t: "t = 32"
  have "c * 32 div 8 = 4 * c" "c * 32 mod 8 = 0" by simp_all
  with t show ?thesis by (simp add: fat_entry_def)
next
  assume t: "t = 12"
  show ?thesis
  proof (cases "even c")
    case True
    then obtain k where c: "c = 2 * k" by (elim evenE)
    have "c * 12 div 8 = 3 * k" "c * 12 mod 8 = 0" "c div 2 = k" unfolding c by simp_all
    with t True show ?thesis by (simp add: fat_entry_def disk_le32_le16 low_bits)
  next
    case False
    then obtain k where c: "c = 2 * k + 1" by (elim oddE)
    have d: "c * 12 div 8 = 3 * k + 1" "c * 12 mod 8 = 4" "c div 2 = k" unfolding c by presburger+
    have "disk_le32 disk (table + (3 * k + 1)) div 16 mod 4096 = disk_le16 disk (table + (3 * k + 1)) div 16"
      unfolding disk_le32_le16 using disk_le16_less [of disk "table + (3 * k + 1)"] middle_bits by simp
    with t False d show ?thesis by (simp add: fat_entry_def)
  qed
qed


text \<open>A mounted file system: the driver works, the table and the clusters are on the disk, and the
  numbers do not wrap.\<close>

definition table_at :: "'b fat_state \<Rightarrow> nat" where
  "table_at s = unat (partition_start_offset s) + unat (fat_offset s)"

definition fs_geom :: "'b fat_env \<Rightarrow> (nat \<Rightarrow> u8) \<Rightarrow> nat \<Rightarrow> 'b fat_state \<Rightarrow> bool" where
  "fs_geom E disk nsec s \<longleftrightarrow> good_dev E (dev s) disk nsec
     \<and> (fat_type s = 12 \<or> fat_type s = 16 \<or> fat_type s = 32) \<and> 0 < bytes_per_cluster s
     \<and> region (raw_buf E) 512 \<inter> region (fat_at E) 4 = {}
     \<and> (unat (clusters s) + 2) * unat (fat_type s) \<le> 2 ^ 32
     \<and> table_at s + (unat (clusters s) + 2) * unat (fat_type s) div 8 + 4 \<le> 512 * nsec
     \<and> unat (partition_start_offset s) + unat (data_offset s) + unat (bytes_per_cluster s) * unat (clusters s) \<le> 512 * nsec"

definition fs_ok :: "'b fat_env \<Rightarrow> (nat \<Rightarrow> u8) \<Rightarrow> nat \<Rightarrow> 'b fat_state \<Rightarrow> bool" where
  "fs_ok E disk nsec s \<longleftrightarrow> fs_geom E disk nsec s \<and> cache_ok E disk nsec s"

definition valid_cluster :: "'b fat_state \<Rightarrow> nat \<Rightarrow> bool" where
  "valid_cluster s c \<longleftrightarrow> 2 \<le> c \<and> c < unat (clusters s) + 2"

definition next_of :: "(nat \<Rightarrow> u8) \<Rightarrow> 'b fat_state \<Rightarrow> nat \<Rightarrow> nat" where
  "next_of disk s c = fat_entry disk (unat (fat_type s)) (table_at s) c"

lemma unat_drop_bit_div: "unat (drop_bit k (w :: 'a :: len word)) = unat w div 2 ^ k"
  by (simp only: unat_drop_bit_eq drop_bit_nat_def)

lemma fat_mask:
  fixes w :: u32
  assumes "t = 12 \<or> t = 16 \<or> t = (32 :: u32)"
  shows "unat (w AND (push_bit (unat t) 1 - 1) AND 0x0fffffff) = unat w mod 2 ^ min (unat t) 28"
proof -
  have m28: "(x :: u32) AND 0x0fffffff = take_bit 28 x" for x using and_mask_take_bit [of x 28] by simp
  have m12: "(x :: u32) AND 4095 = take_bit 12 x" and m16: "x AND 65535 = take_bit 16 x" for x
    using and_mask_take_bit [of x 12] and_mask_take_bit [of x 16] by simp_all
  from assms show ?thesis
    by (elim disjE) (simp_all add: m12 m16 m28 unat_take_bit_mod take_bit_take_bit)
qed

lemma get_fat_correct:
  assumes fs: "fs_ok E disk nsec s" and c: "valid_cluster s (unat c)"
  shows "\<exists>s'. get_fat E c s = (of_nat (next_of disk s (unat c)), s') \<and> only_memory s s' \<and> cache_ok E disk nsec s'
     \<and> (\<forall>a. a \<notin> region (fat_at E) 4 \<union> region (raw_buf E) 512 \<longrightarrow> fmem s' a = fmem s a)"
proof -
  let ?t = "unat (fat_type s)" and ?c = "unat c"
  let ?ob = "c * fat_type s" and ?off = "fat_offset s + ucast (c * fat_type s div 8)"
  have t: "?t = 12 \<or> ?t = 16 \<or> ?t = 32" "0 < ?t" using fs by (auto simp: fs_ok_def fs_geom_def)
  have "?c * ?t \<le> (unat (clusters s) + 1) * ?t" using c by (intro mult_right_mono) (auto simp: valid_cluster_def)
  then have le: "?c * ?t + ?t \<le> (unat (clusters s) + 2) * ?t" by simp
  have lt: "?c * ?t < 2 ^ 32" using le fs t(2) by (simp add: fs_ok_def fs_geom_def)
  then have ob: "unat ?ob = ?c * ?t" by (subst unat_mult_lem [THEN iffD1]) auto
  have d: "?c * ?t div 8 \<le> (unat (clusters s) + 2) * ?t div 8" using le by (intro div_le_mono) simp
  have nsec: "nsec < 2 ^ 32" and rng: "table_at s + ?c * ?t div 8 + 4 \<le> 512 * nsec"
    using fs d by (auto simp: fs_ok_def fs_geom_def good_dev_def)
  have off: "unat ?off = unat (fat_offset s) + ?c * ?t div 8"
    using rng nsec ob by (subst unat_add_lem [THEN iffD1]) (auto simp: unat_div table_at_def)
  have dj: "region (raw_buf E) 512 \<inter> region (fat_at E) (unat (4 :: u32)) = {}" using fs by (simp add: fs_ok_def fs_geom_def)
  have rng': "unat (partition_start_offset s) + unat ?off + unat (4 :: u32) \<le> 512 * nsec" using rng off by (simp add: table_at_def)
  obtain s' where r: "read E (fat_at E) ?off 4 s = (0, s')" and om: "only_memory s s'"
    and dl: "delivers E disk nsec (fat_at E) (unat (partition_start_offset s) + unat ?off) (unat (4 :: u32)) s s'"
    using read_correct [OF _ _ dj rng'] fs unfolding fs_ok_def fs_geom_def by blast
  let ?a = "table_at s + ?c * ?t div 8"
  have "load_list (fmem s') (fat_at E) 4 = slice disk ?a 4" using dl off by (simp add: delivers_def table_at_def add.assoc)
  then have "load_list (fmem s') (fat_at E) 4 ! i = slice disk ?a 4 ! i" for i by simp
  then have b: "i < 4 \<Longrightarrow> fmem s' (fat_at E + of_nat i) = disk (?a + i)" for i using load_list_nth [of i 4 "fmem s'" "fat_at E"] by simp
  have le: "unat (le32 (fmem s') (fat_at E)) = disk_le32 disk ?a"
    using b [of 0] b [of 1] b [of 2] b [of 3] by (simp add: unat_le32 disk_le32_def)
  let ?w = "drop_bit (unat (?ob mod 8)) (le32 (fmem s') (fat_at E))"
  have "unat ?w = disk_le32 disk ?a div 2 ^ (?c * ?t mod 8)"
    unfolding unat_drop_bit_div using ob le by (simp add: unat_mod)
  then have "unat (?w AND (push_bit ?t 1 - 1) AND 0x0fffffff) = next_of disk s ?c"
    using fat_mask [of "fat_type s" ?w] fs fat_entry_bits [OF t(1), of disk "table_at s" ?c]
    by (simp add: fs_ok_def fs_geom_def next_of_def)
  then have "?w AND (push_bit ?t 1 - 1) AND 0x0fffffff = of_nat (next_of disk s ?c)"
    by (metis of_nat_unat ucast_id)
  then have "get_fat E c s = (of_nat (next_of disk s ?c), s')"
    using r only_memory_fields(6) [OF om] by (simp add: get_fat_def and.assoc)
  then show ?thesis using om dl by (auto simp: delivers_def)
qed

section \<open>Cluster chains\<close>

text \<open>The clusters of a file: each entry of the table leads to the next until one is no cluster number.\<close>

fun fat_chain :: "(nat \<Rightarrow> u8) \<Rightarrow> 'b fat_state \<Rightarrow> nat \<Rightarrow> nat list \<Rightarrow> bool" where
  "fat_chain disk s c [] \<longleftrightarrow> \<not> valid_cluster s c"
| "fat_chain disk s c (x # xs) \<longleftrightarrow> x = c \<and> valid_cluster s c \<and> fat_chain disk s (next_of disk s c) xs"

definition cluster_at :: "'b fat_state \<Rightarrow> nat \<Rightarrow> nat" where
  "cluster_at s c = unat (partition_start_offset s) + unat (data_offset s) + unat (bytes_per_cluster s) * (c - 2)"

definition chain_bytes :: "(nat \<Rightarrow> u8) \<Rightarrow> 'b fat_state \<Rightarrow> nat list \<Rightarrow> u8 list" where
  "chain_bytes disk s cs = concat (map (\<lambda>c. slice disk (cluster_at s c) (unat (bytes_per_cluster s))) cs)"

lemma length_chain_bytes [simp]: "length (chain_bytes disk s cs) = length cs * unat (bytes_per_cluster s)"
  by (induction cs) (auto simp: chain_bytes_def)

lemma chain_bytes_Nil [simp]: "chain_bytes disk s [] = []"
  by (simp add: chain_bytes_def)

lemma chain_bytes_append [simp]: "chain_bytes disk s (cs @ ds) = chain_bytes disk s cs @ chain_bytes disk s ds"
  by (simp add: chain_bytes_def)

lemma chain_bytes_run: "2 \<le> c \<Longrightarrow> chain_bytes disk s [c..<c + k] = slice disk (cluster_at s c) (k * unat (bytes_per_cluster s))"
proof (induction k)
  case (Suc k)
  let ?b = "unat (bytes_per_cluster s)"
  have "c + k - 2 = (c - 2) + k" using Suc.prems by simp
  then have at: "cluster_at s (c + k) = cluster_at s c + k * ?b"
    unfolding cluster_at_def by (simp only: distrib_left add.assoc mult.commute)
  have "chain_bytes disk s [c..<c + Suc k] = slice disk (cluster_at s c) (k * ?b) @ slice disk (cluster_at s (c + k)) ?b"
    using Suc by (simp add: chain_bytes_def)
  also have "\<dots> = slice disk (cluster_at s c) (k * ?b + ?b)" unfolding at by (rule slice_append [symmetric])
  finally show ?case by (simp add: add.commute)
qed simp

text \<open>What only depends on the geometry.\<close>

definition same_fs :: "'b fat_state \<Rightarrow> 'b fat_state \<Rightarrow> bool" where
  "same_fs s s' \<longleftrightarrow> partition_start_offset s' = partition_start_offset s \<and> bytes_per_cluster s' = bytes_per_cluster s
     \<and> clusters s' = clusters s \<and> fat_type s' = fat_type s \<and> fat_offset s' = fat_offset s \<and> root_offset s' = root_offset s
     \<and> root_entries s' = root_entries s \<and> data_offset s' = data_offset s \<and> dev s' = dev s"

lemma same_fs_refl [simp]: "same_fs s s"
  by (simp add: same_fs_def)

lemma same_fs_trans: "same_fs s s' \<Longrightarrow> same_fs s' s'' \<Longrightarrow> same_fs s s''"
  by (simp add: same_fs_def)

lemma only_memory_same_fs: "only_memory s s' \<Longrightarrow> same_fs s s'"
  by (simp add: same_fs_def only_memory_fields)

lemma same_fs_simps:
  assumes "same_fs s s'"
  shows "table_at s' = table_at s" and "valid_cluster s' = valid_cluster s" and "next_of disk s' = next_of disk s"
    and "fat_chain disk s' = fat_chain disk s" and "chain_bytes disk s' = chain_bytes disk s" and "cluster_at s' = cluster_at s"
    and "fs_geom E disk nsec s' = fs_geom E disk nsec s" and "bytes_per_cluster s' = bytes_per_cluster s"
proof -
  note f = assms [unfolded same_fs_def]
  show t: "table_at s' = table_at s" using f by (simp add: table_at_def)
  show v: "valid_cluster s' = valid_cluster s" using f by (intro ext) (simp add: valid_cluster_def)
  show n: "next_of disk s' = next_of disk s" using f t by (intro ext) (simp add: next_of_def)
  have "fat_chain disk s' c cs = fat_chain disk s c cs" for c cs by (induction cs arbitrary: c) (auto simp: v n)
  then show "fat_chain disk s' = fat_chain disk s" by (intro ext)
  show a: "cluster_at s' = cluster_at s" using f by (intro ext) (simp add: cluster_at_def)
  show "chain_bytes disk s' = chain_bytes disk s" using f a by (intro ext) (simp add: chain_bytes_def)
  show "fs_geom E disk nsec s' = fs_geom E disk nsec s" using f t by (simp add: fs_geom_def)
  show "bytes_per_cluster s' = bytes_per_cluster s" using f by simp
qed


lemma valid_cluster_word:
  assumes "fs_geom E disk nsec s"
  shows "c - 2 \<ge> clusters s \<longleftrightarrow> \<not> valid_cluster s (unat c)"
proof -
  have t: "12 \<le> unat (fat_type s)" and p: "(unat (clusters s) + 2) * unat (fat_type s) \<le> 2 ^ 32"
    using assms by (auto simp: fs_geom_def)
  have "(unat (clusters s) + 2) * 12 \<le> 2 ^ 32"
    using mult_le_mono2 [OF t, of "unat (clusters s) + 2"] p by linarith
  then have n: "unat (clusters s) < 2 ^ 32 - 2" by simp
  show ?thesis
  proof (cases "2 \<le> unat c")
    case True
    then have "unat (c - 2) = unat c - 2" by (simp add: unat_sub word_le_nat_alt)
    then show ?thesis using True by (auto simp: valid_cluster_def word_le_nat_alt)
  next
    case False
    then have "unat c = 0 \<or> unat c = 1" by linarith
    then have "c = 0 \<or> c = 1" by (metis unat_1 unat_0 word_unat_eq_iff)
    then have "unat (c - 2) \<ge> 2 ^ 32 - 2" by (elim disjE) (simp_all add: unsigned_minus_1_eq_mask mask_eq_exp_minus_1)
    then show ?thesis using False n by (simp add: valid_cluster_def word_le_nat_alt)
  qed
qed

lemma next_of_less: "next_of disk s c < 2 ^ 32"
proof -
  have "fat_entry disk t a c < 2 ^ 32" for t a
  proof -
    have "disk_le32 disk x mod 2 ^ 28 < 2 ^ 28" for x by simp
    then have "disk_le32 disk x mod 2 ^ 28 < 2 ^ 32" for x by (rule less_trans) simp
    moreover have l: "disk_le16 disk x < 2 ^ 32" for x using disk_le16_less [of disk x] by (rule less_trans) simp
    moreover have "disk_le16 disk x div 2 ^ 4 < 2 ^ 32" for x by (rule le_less_trans [OF div_le_dividend l])
    moreover have "disk_le16 disk x mod 2 ^ 12 < 2 ^ 32" for x by (rule le_less_trans [OF mod_less_eq_dividend l])
    ultimately show ?thesis unfolding fat_entry_def by (auto split: if_splits)
  qed
  then show ?thesis by (simp add: next_of_def)
qed

lemma unat_next_of [simp]: "unat (of_nat (next_of disk s c) :: u32) = next_of disk s c"
  using next_of_less [of disk s c] by (simp add: unat_of_nat)

text \<open>Looking at the table only touches its two buffers.\<close>

definition quiet :: "'b fat_env \<Rightarrow> 'b fat_state \<Rightarrow> 'b fat_state \<Rightarrow> bool" where
  "quiet E s s' \<longleftrightarrow> same_fs s s' \<and> fat_name s' = fat_name s \<and> fat_file_size s' = fat_file_size s
     \<and> (\<forall>a. a \<notin> region (fat_at E) 4 \<union> region (raw_buf E) 512 \<longrightarrow> fmem s' a = fmem s a)"

lemma quiet_refl [simp]: "quiet E s s"
  by (simp add: quiet_def)

lemma quiet_trans: "quiet E s s' \<Longrightarrow> quiet E s' s'' \<Longrightarrow> quiet E s s''"
  by (auto simp: quiet_def intro: same_fs_trans)

lemma quiet_extent [simp]:
  "quiet E (s\<lparr>extent_len := l\<rparr>) s' = quiet E s s'" "quiet E (s\<lparr>extent_next_cluster := n\<rparr>) s' = quiet E s s'"
  "quiet E (s\<lparr>extent_offset := b\<rparr>) s' = quiet E s s'" "quiet E s (s'\<lparr>extent_len := l\<rparr>) = quiet E s s'"
  "quiet E s (s'\<lparr>extent_next_cluster := n\<rparr>) = quiet E s s'" "quiet E s (s'\<lparr>extent_offset := b\<rparr>) = quiet E s s'"
  by (simp_all add: quiet_def same_fs_def)

lemma cache_ok_extent [simp]:
  "cache_ok E disk nsec (s\<lparr>extent_len := l\<rparr>) = cache_ok E disk nsec s"
  "cache_ok E disk nsec (s\<lparr>extent_next_cluster := n\<rparr>) = cache_ok E disk nsec s"
  "cache_ok E disk nsec (s\<lparr>extent_offset := b\<rparr>) = cache_ok E disk nsec s"
  by (simp_all add: cache_ok_def)

lemma quiet_fs_ok: "quiet E s s' \<Longrightarrow> cache_ok E disk nsec s' \<Longrightarrow> fs_ok E disk nsec s \<Longrightarrow> fs_ok E disk nsec s'"
  using same_fs_simps(7) [of s s' E disk nsec] by (auto simp: quiet_def fs_ok_def)

lemmas quiet_same = quiet_def [THEN iffD1, THEN conjunct1]

text \<open>The table entry of a valid cluster, as the loop sees it.\<close>

lemma get_fat_quiet:
  assumes fs: "fs_ok E disk nsec s" and c: "valid_cluster s (unat c)"
  obtains s' where "get_fat E c s = (of_nat (next_of disk s (unat c)), s')" and "quiet E s s'" and "fs_ok E disk nsec s'"
    and "extent_offset s' = extent_offset s" and "extent_len s' = extent_len s" and "extent_next_cluster s' = extent_next_cluster s"
proof -
  obtain s' where s': "get_fat E c s = (of_nat (next_of disk s (unat c)), s')" "only_memory s s'" "cache_ok E disk nsec s'"
    "\<forall>a. a \<notin> region (fat_at E) 4 \<union> region (raw_buf E) 512 \<longrightarrow> fmem s' a = fmem s a"
    using get_fat_correct [OF assms] by blast
  have q: "quiet E s s'" using s' by (simp add: quiet_def only_memory_same_fs only_memory_fields)
  show ?thesis
    using that [OF s'(1) q quiet_fs_ok [OF q s'(3) fs]] only_memory_fields [OF s'(2)] by simp
qed

lemma extent_loop_correct:
  assumes "fs_ok E disk nsec s" and "fat_chain disk s (unat c) cs" and "cs \<noteq> []"
    and "unat (extent_len s) + length cs * unat (bytes_per_cluster s) < 2 ^ 32"
  shows "\<exists>k cs'. cs = [unat c..<unat c + Suc k] @ cs' \<and> quiet E s (extent_loop E c s) \<and> fs_ok E disk nsec (extent_loop E c s)
     \<and> extent_offset (extent_loop E c s) = extent_offset s
     \<and> unat (extent_len (extent_loop E c s)) = unat (extent_len s) + Suc k * unat (bytes_per_cluster s)
     \<and> (cs' = [] \<and> extent_next_cluster (extent_loop E c s) = extent_next_cluster s
        \<or> cs' \<noteq> [] \<and> fat_chain disk s (unat (extent_next_cluster (extent_loop E c s))) cs' \<and> extent_next_cluster (extent_loop E c s) \<noteq> 0)"
  using assms
proof (induction cs arbitrary: c s)
  case (Cons x cs)
  let ?b = "unat (bytes_per_cluster s)" and ?n = "next_of disk s (unat c)"
  let ?s0 = "s\<lparr>extent_len := extent_len s + bytes_per_cluster s\<rparr>"
  have x: "x = unat c" and v: "valid_cluster s (unat c)" and rest: "fat_chain disk s ?n cs" using Cons.prems(2) by auto
  have len: "unat (extent_len s + bytes_per_cluster s) = unat (extent_len s) + ?b"
    using Cons.prems(4) by (subst unat_add_lem [THEN iffD1]) auto
  have q0: "quiet E s ?s0" by simp
  have s0: "fs_ok E disk nsec ?s0" using quiet_fs_ok [OF q0] Cons.prems(1) by (simp add: fs_ok_def)
  have sm: "next_of disk ?s0 = next_of disk s" "valid_cluster ?s0 = valid_cluster s"
    using same_fs_simps(2,3) [OF quiet_same [OF q0]] by auto
  obtain s1 where g: "get_fat E c ?s0 = (of_nat ?n, s1)" and q1: "quiet E ?s0 s1" and f1: "fs_ok E disk nsec s1"
    and e1: "extent_offset s1 = extent_offset s" "extent_len s1 = extent_len s + bytes_per_cluster s" "extent_next_cluster s1 = extent_next_cluster s"
    by (rule get_fat_quiet [OF s0, of c]) (use v sm in auto)
  have q: "quiet E s s1" using q1 by simp
  note sm1 = same_fs_simps [OF quiet_same [OF q]]
  have vw: "(of_nat ?n :: u32) - 2 \<ge> clusters s1 \<longleftrightarrow> \<not> valid_cluster s ?n"
    using valid_cluster_word [of E disk nsec s1 "of_nat ?n"] f1 sm1(2) by (simp add: fs_ok_def)
  consider (stop) "\<not> valid_cluster s ?n" | (jump) "valid_cluster s ?n" "(of_nat ?n :: u32) \<noteq> c + 1"
    | (on) "valid_cluster s ?n" "(of_nat ?n :: u32) = c + 1" by blast
  then show ?case
  proof cases
    case stop
    then have e: "extent_loop E c s = s1" using g vw by (subst extent_loop.simps) simp
    have "cs = []" using stop rest by (cases cs) auto
    then show ?thesis unfolding e using x q f1 e1 len by (intro exI [of _ 0] exI [of _ "[]"]) simp
  next
    case jump
    then have e: "extent_loop E c s = s1\<lparr>extent_next_cluster := of_nat ?n\<rparr>" using g vw by (subst extent_loop.simps) simp
    have ne: "cs \<noteq> []" "(of_nat ?n :: u32) \<noteq> 0"
      using jump(1) rest by (auto simp: valid_cluster_def unat_eq_0 [symmetric] simp del: unat_eq_0)
    have "fs_ok E disk nsec (s1\<lparr>extent_next_cluster := of_nat ?n\<rparr>)"
      using f1 quiet_fs_ok [of E s1 "s1\<lparr>extent_next_cluster := of_nat ?n\<rparr>"] by (simp add: fs_ok_def)
    then show ?thesis unfolding e using x q e1 len ne rest by (intro exI [of _ 0] exI [of _ cs]) simp
  next
    case on
    then have e: "extent_loop E c s = extent_loop E (c + 1) s1" using g vw by (subst extent_loop.simps) simp
    have n: "unat (c + 1) = ?n" using on(2) by (metis unat_next_of)
    have "c + 1 \<noteq> 0" using n on(1) by (auto simp: valid_cluster_def)
    then have "?n = unat c + 1" using n unatSuc [of c] by (simp add: add.commute)
    have ne: "cs \<noteq> []" using on(1) rest by auto
    have "fat_chain disk s1 (unat (c + 1)) cs" using rest sm1(4) n by simp
    moreover have "unat (extent_len s1) + length cs * unat (bytes_per_cluster s1) < 2 ^ 32"
      using Cons.prems(4) e1 len sm1(8) by simp
    ultimately obtain k cs' where ih: "cs = [unat (c + 1)..<unat (c + 1) + Suc k] @ cs'" "quiet E s1 (extent_loop E (c + 1) s1)"
      "fs_ok E disk nsec (extent_loop E (c + 1) s1)" "extent_offset (extent_loop E (c + 1) s1) = extent_offset s1"
      "unat (extent_len (extent_loop E (c + 1) s1)) = unat (extent_len s1) + Suc k * unat (bytes_per_cluster s1)"
      "cs' = [] \<and> extent_next_cluster (extent_loop E (c + 1) s1) = extent_next_cluster s1
        \<or> cs' \<noteq> [] \<and> fat_chain disk s1 (unat (extent_next_cluster (extent_loop E (c + 1) s1))) cs' \<and> extent_next_cluster (extent_loop E (c + 1) s1) \<noteq> 0"
      using Cons.IH [OF f1 _ ne, of "c + 1"] by blast
    have "x # cs = [unat c..<unat c + Suc (Suc k)] @ cs'"
      using ih(1) n x \<open>?n = unat c + 1\<close> by (simp add: upt_conv_Cons)
    then show ?thesis unfolding e
      using ih quiet_trans [OF q ih(2)] e1 len sm1(4,8) by (intro exI [of _ "Suc k"] exI [of _ cs']) auto
  qed
qed simp


section \<open>Extents and files\<close>

text \<open>The bytes still ahead of the reader: the current extent and the chain that follows it.\<close>

definition ahead :: "(nat \<Rightarrow> u8) \<Rightarrow> nat \<Rightarrow> 'b fat_state \<Rightarrow> u8 list \<Rightarrow> bool" where
  "ahead disk nsec s bs \<longleftrightarrow> (\<exists>cs.
     (if extent_next_cluster s = 0 then cs = [] else cs \<noteq> [] \<and> fat_chain disk s (unat (extent_next_cluster s)) cs)
     \<and> bs = slice disk (unat (partition_start_offset s) + unat (extent_offset s)) (unat (extent_len s)) @ chain_bytes disk s cs
     \<and> (extent_len s = 0 \<longrightarrow> extent_next_cluster s = 0)
     \<and> (extent_len s \<noteq> 0 \<longrightarrow> unat (partition_start_offset s) + unat (extent_offset s) + unat (extent_len s) \<le> 512 * nsec)
     \<and> length bs < 2 ^ 32)"

lemma fat_chain_valid: "fat_chain disk s c cs \<Longrightarrow> x \<in> set cs \<Longrightarrow> valid_cluster s x"
  by (induction cs arbitrary: c) auto

text \<open>The address of a valid cluster fits, and so does a run of clusters.\<close>

lemma cluster_offset:
  fixes c :: u32
  assumes fs: "fs_ok E disk nsec s" and v: "valid_cluster s (unat c)"
  shows "unat (partition_start_offset s) + unat (data_offset s + ucast (bytes_per_cluster s) * ucast (c - 2)) = cluster_at s (unat c)"
proof -
  let ?b = "unat (bytes_per_cluster s)"
  have c2: "2 \<le> unat c" "unat c - 2 \<le> unat (clusters s)" using v by (auto simp: valid_cluster_def)
  then have u: "unat (c - 2) = unat c - 2" by (simp add: unat_sub word_le_nat_alt)
  have room: "unat (partition_start_offset s) + unat (data_offset s) + ?b * unat (clusters s) \<le> 512 * nsec" and nsec: "nsec < 2 ^ 32"
    using fs by (auto simp: fs_ok_def fs_geom_def good_dev_def)
  have bc: "?b * (unat c - 2) \<le> ?b * unat (clusters s)" using c2(2) by (rule mult_le_mono2)
  have "p + d + y \<le> 512 * nsec \<Longrightarrow> nsec < 2 ^ 32 \<Longrightarrow> x \<le> y \<Longrightarrow> d + x < 2 ^ 64" for p d x y :: nat by simp
  note lt2 = this [OF room nsec bc]
  have lt1: "?b * (unat c - 2) < 2 ^ 64" using lt2 by (rule le_less_trans [rotated]) simp
  have "unat (ucast (bytes_per_cluster s) * ucast (c - 2) :: u64) = ?b * (unat c - 2)"
    using lt1 u by (subst unat_mult_lem [THEN iffD1]) auto
  then have "unat (data_offset s + ucast (bytes_per_cluster s) * ucast (c - 2)) = unat (data_offset s) + ?b * (unat c - 2)"
    using lt2 by (subst unat_add_lem [THEN iffD1]) auto
  then show ?thesis by (simp add: cluster_at_def)
qed

lemma run_fits:
  assumes "fs_ok E disk nsec s" and "2 \<le> c" and "valid_cluster s (c + k)"
  shows "cluster_at s c + Suc k * unat (bytes_per_cluster s) \<le> 512 * nsec"
proof -
  have "c - 2 + Suc k \<le> unat (clusters s)" using assms(2,3) by (simp add: valid_cluster_def)
  from mult_le_mono2 [OF this, of "unat (bytes_per_cluster s)"] show ?thesis
    using assms(1) by (simp add: fs_ok_def fs_geom_def cluster_at_def algebra_simps)
qed

lemma get_extent_chain:
  assumes fs: "fs_ok E disk nsec s" and ch: "fat_chain disk s (unat c) cs" and c: "c \<noteq> 0"
    and len: "length cs * unat (bytes_per_cluster s) < 2 ^ 32"
  shows "quiet E s (get_extent E c s) \<and> fs_ok E disk nsec (get_extent E c s) \<and> ahead disk nsec (get_extent E c s) (chain_bytes disk s cs)"
proof -
  let ?s0 = "s\<lparr>extent_len := 0, extent_next_cluster := 0\<rparr>"
  have q0: "quiet E s ?s0" by simp
  then have fs0: "fs_ok E disk nsec ?s0" using quiet_fs_ok [OF q0] fs by (simp add: fs_ok_def)
  have vw: "c - 2 \<ge> clusters s \<longleftrightarrow> \<not> valid_cluster s (unat c)" using valid_cluster_word [of E disk nsec s c] fs by (simp add: fs_ok_def)
  show ?thesis
  proof (cases "valid_cluster s (unat c)")
    case False
    then have e: "get_extent E c s = ?s0" using c vw by (simp add: get_extent_def)
    have "cs = []" using False ch by (cases cs) auto
    then have "ahead disk nsec ?s0 (chain_bytes disk s cs)" by (simp add: ahead_def)
    then show ?thesis unfolding e using q0 fs0 by blast
  next
    case True
    let ?o = "data_offset s + ucast (bytes_per_cluster s) * ucast (c - 2) :: u64"
    let ?s1 = "?s0\<lparr>extent_offset := ?o\<rparr>"
    let ?b = "unat (bytes_per_cluster s)"
    have e: "get_extent E c s = extent_loop E c ?s1" using c vw True by (simp add: get_extent_def)
    have c2: "2 \<le> unat c" using True by (auto simp: valid_cluster_def)
    note at = cluster_offset [OF fs True]
    have q1: "quiet E s ?s1" by simp
    then have fs1: "fs_ok E disk nsec ?s1" using quiet_fs_ok [OF q1] fs by (simp add: fs_ok_def)
    note sm = same_fs_simps [OF quiet_same [OF q1]]
    have ne: "cs \<noteq> []" using True ch by auto
    obtain k cs' where x: "cs = [unat c..<unat c + Suc k] @ cs'" and q2: "quiet E ?s1 (extent_loop E c ?s1)"
      and f2: "fs_ok E disk nsec (extent_loop E c ?s1)" and off: "extent_offset (extent_loop E c ?s1) = ?o"
      and l2: "unat (extent_len (extent_loop E c ?s1)) = Suc k * ?b"
      and nx: "cs' = [] \<and> extent_next_cluster (extent_loop E c ?s1) = 0
        \<or> cs' \<noteq> [] \<and> fat_chain disk s (unat (extent_next_cluster (extent_loop E c ?s1))) cs' \<and> extent_next_cluster (extent_loop E c ?s1) \<noteq> 0"
      using extent_loop_correct [OF fs1, of c cs] ch ne len sm(4,8) by auto
    have q: "quiet E s (extent_loop E c ?s1)" by (rule quiet_trans [OF q1 q2])
    note sm2 = same_fs_simps [OF quiet_same [OF q]]
    have p2: "partition_start_offset (extent_loop E c ?s1) = partition_start_offset s" using quiet_same [OF q] by (simp add: same_fs_def)
    have bytes: "chain_bytes disk s cs = slice disk (cluster_at s (unat c)) (Suc k * ?b) @ chain_bytes disk s cs'"
      unfolding x chain_bytes_append chain_bytes_run [OF c2] by (rule refl)
    have "0 < ?b" using fs by (simp add: fs_ok_def fs_geom_def word_less_nat_alt)
    then have l0: "extent_len (extent_loop E c ?s1) \<noteq> 0" using l2 by (metis add_is_0 mult_Suc neq0_conv unat_0)
    have "valid_cluster s (unat c + k)" using fat_chain_valid [OF ch, of "unat c + k"] x by simp
    note rg = run_fits [OF fs c2 this]
    have lb: "length (chain_bytes disk s cs) < 2 ^ 32" using len by simp
    have "ahead disk nsec (extent_loop E c ?s1) (chain_bytes disk s cs)"
      unfolding ahead_def p2 off l2 sm2(4,5) at
    proof (intro exI [of _ cs'] conjI)
      show "if extent_next_cluster (extent_loop E c ?s1) = 0 then cs' = []
        else cs' \<noteq> [] \<and> fat_chain disk s (unat (extent_next_cluster (extent_loop E c ?s1))) cs'" using nx by auto
    qed (use bytes l0 rg lb in auto)
    then show ?thesis unfolding e using q f2 by blast
  qed
qed

lemma get_extent_root:
  assumes fs: "fs_ok E disk nsec s" and t: "fat_type s \<noteq> 32" and r: "unat (root_entries s) < 2 ^ 27"
    and room: "unat (partition_start_offset s) + unat (root_offset s) + 32 * unat (root_entries s) \<le> 512 * nsec"
  shows "quiet E s (get_extent E 0 s) \<and> fs_ok E disk nsec (get_extent E 0 s)
     \<and> ahead disk nsec (get_extent E 0 s) (slice disk (unat (partition_start_offset s) + unat (root_offset s)) (32 * unat (root_entries s)))"
proof -
  let ?s = "s\<lparr>extent_len := 0, extent_next_cluster := 0, extent_offset := root_offset s, extent_len := 0x20 * root_entries s\<rparr>"
  have e: "get_extent E 0 s = ?s" using t by (simp add: get_extent_def)
  have q: "quiet E s ?s" by simp
  have f: "fs_ok E disk nsec ?s" using quiet_fs_ok [OF q] fs by (simp add: fs_ok_def)
  have u: "unat (0x20 * root_entries s) = 32 * unat (root_entries s)"
    using r by (subst unat_mult_lem [THEN iffD1]) auto
  have "ahead disk nsec ?s (slice disk (unat (partition_start_offset s) + unat (root_offset s)) (32 * unat (root_entries s)))"
    using room r u by (simp add: ahead_def)
  then show ?thesis unfolding e using q f by blast
qed

lemma slice_eq_Nil [simp]: "slice disk a n = [] \<longleftrightarrow> n = 0"
  by (auto simp: slice_def)

lemma drop_slice: "n \<le> k \<Longrightarrow> drop n (slice disk a k) = slice disk (a + n) (k - n)"
  using slice_append [of disk a n "k - n"] by simp

lemma take_slice: "n \<le> k \<Longrightarrow> take n (slice disk a k) = slice disk a n"
  using slice_append [of disk a n "k - n"] by simp

lemma ahead_advance:
  assumes a: "ahead disk nsec s bs" and n: "unat n \<le> unat (extent_len s)" and L: "extent_len s \<noteq> 0"
    and om: "only_memory s s1" and nsec: "nsec < 2 ^ 32"
    and keep: "unat n < unat (extent_len s) \<or> extent_next_cluster s = 0"
  shows "ahead disk nsec (s1\<lparr>extent_offset := extent_offset s1 + ucast n, extent_len := extent_len s1 - n\<rparr>) (drop (unat n) bs)"
proof -
  let ?s = "s1\<lparr>extent_offset := extent_offset s1 + ucast n, extent_len := extent_len s1 - n\<rparr>"
  let ?p = "unat (partition_start_offset s) + unat (extent_offset s)"
  note f = only_memory_fields [OF om]
  from a obtain cs where cs: "if extent_next_cluster s = 0 then cs = [] else cs \<noteq> [] \<and> fat_chain disk s (unat (extent_next_cluster s)) cs"
    and bs: "bs = slice disk ?p (unat (extent_len s)) @ chain_bytes disk s cs"
    and rg: "?p + unat (extent_len s) \<le> 512 * nsec" and lb: "length bs < 2 ^ 32"
    using L by (auto simp: ahead_def)
  have "same_fs s ?s" using only_memory_same_fs [OF om] by (simp add: same_fs_def)
  note sm = same_fs_simps [OF this]
  have o: "unat (extent_offset s + ucast n) = unat (extent_offset s) + unat n"
    using rg n nsec by (subst unat_add_lem [THEN iffD1]) auto
  have l: "unat (extent_len s - n) = unat (extent_len s) - unat n" using n by (simp add: unat_sub word_le_nat_alt)
  have z: "extent_len s - n = 0 \<longrightarrow> extent_next_cluster s = 0" using keep by auto
  have d: "drop (unat n) bs = slice disk (?p + unat n) (unat (extent_len s) - unat n) @ chain_bytes disk s cs"
    unfolding bs using n by (simp add: drop_slice)
  have "length (drop (unat n) bs) < 2 ^ 32" using lb by simp
  then show ?thesis
    unfolding ahead_def sm using cs d rg n o l z f by (intro exI [of _ cs]) (simp add: add.assoc)
qed

definition fetches :: "'b fat_env \<Rightarrow> (nat \<Rightarrow> u8) \<Rightarrow> nat \<Rightarrow> addr \<Rightarrow> nat \<Rightarrow> u8 list \<Rightarrow> 'b fat_state \<Rightarrow> 'b fat_state \<Rightarrow> bool" where
  "fetches E disk nsec data n bs s s' \<longleftrightarrow> fs_ok E disk nsec s' \<and> ahead disk nsec s' (drop n bs)
     \<and> load_list (fmem s') data n = take n bs \<and> same_fs s s' \<and> fat_name s' = fat_name s
     \<and> fat_file_size s' = fat_file_size s
     \<and> (\<forall>a. a \<notin> region data n \<union> region (fat_at E) 4 \<union> region (raw_buf E) 512 \<longrightarrow> fmem s' a = fmem s a)"

lemma fetches_step:
  assumes n: "n \<le> len" "len < 2 ^ 32" and dj: "region (raw_buf E) 512 \<inter> region data len = {}" "region (fat_at E) 4 \<inter> region data len = {}"
    and one: "fetches E disk nsec data n bs s s2" and rest: "fetches E disk nsec (data + of_nat n) (len - n) (drop n bs) s2 s'"
    and len: "len \<le> length bs"
  shows "fetches E disk nsec data len bs s s'"
proof -
  have split: "region data len = region data n \<union> region (data + of_nat n) (len - n)"
    using region_add [of data n "len - n"] n by simp
  have d2: "region data n \<inter> region (data + of_nat n) (len - n) = {}"
    using region_split_disjoint [of n "len - n" data] n by simp
  have keep: "fmem s' a = fmem s2 a" if "a \<notin> region (data + of_nat n) (len - n) \<union> region (fat_at E) 4 \<union> region (raw_buf E) 512" for a
    using rest that by (simp add: fetches_def)
  have "load_list (fmem s') data n = load_list (fmem s2) data n"
    using keep d2 dj split by (intro load_list_cong) blast
  then have "load_list (fmem s') data (n + (len - n)) = take n bs @ take (len - n) (drop n bs)"
    using one rest by (simp add: load_list_add fetches_def)
  then have "load_list (fmem s') data len = take len bs" using n len by (simp flip: take_add)
  moreover have "drop (len - n) (drop n bs) = drop len bs" using n by simp
  moreover have "fmem s' a = fmem s a" if "a \<notin> region data len \<union> region (fat_at E) 4 \<union> region (raw_buf E) 512" for a
    using keep [of a] one that split by (simp add: fetches_def)
  ultimately show ?thesis using one rest by (auto simp: fetches_def intro: same_fs_trans)
qed

lemma quiet_load:
  "quiet E s s' \<Longrightarrow> region (raw_buf E) 512 \<inter> region a n = {} \<Longrightarrow> region (fat_at E) 4 \<inter> region a n = {} \<Longrightarrow>
     load_list (fmem s') a n = load_list (fmem s) a n"
  by (intro load_list_cong) (auto simp: quiet_def disjoint_iff)

lemma read_extent_round:
  fixes len :: u32
  assumes fs: "fs_ok E disk nsec s" and a: "ahead disk nsec s bs" and len: "len \<noteq> 0" and ne: "bs \<noteq> []"
    and dj: "region (raw_buf E) 512 \<inter> region data (unat len) = {}" "region (fat_at E) 4 \<inter> region data (unat len) = {}"
  obtains n s2 where "0 < unat n" "unat n \<le> unat len" "unat n \<le> length bs" "read_extent E data len s = read_extent E (data + ucast n) (len - n) s2"
    "fetches E disk nsec data (unat n) bs s s2"
proof -
  define n where "n = (if len > extent_len s then extent_len s else len)"
  let ?p = "unat (partition_start_offset s) + unat (extent_offset s)"
  have nsec: "nsec < 2 ^ 32" using fs by (simp add: fs_ok_def fs_geom_def good_dev_def)
  have L: "extent_len s \<noteq> 0" using a ne by (auto simp: ahead_def)
  from a L obtain cs where cs: "if extent_next_cluster s = 0 then cs = [] else cs \<noteq> [] \<and> fat_chain disk s (unat (extent_next_cluster s)) cs"
    and bs: "bs = slice disk ?p (unat (extent_len s)) @ chain_bytes disk s cs"
    and rg: "?p + unat (extent_len s) \<le> 512 * nsec" and lb: "length bs < 2 ^ 32"
    by (auto simp: ahead_def)
  have n: "0 < unat n" "unat n \<le> unat len" "unat n \<le> unat (extent_len s)"
    using len L by (auto simp: n_def unat_gt_0 word_less_nat_alt)
  have dj1: "region (raw_buf E) 512 \<inter> region data (unat n) = {}" using dj(1) region_mono [OF n(2), of data] by blast
  have dj2: "region (fat_at E) 4 \<inter> region data (unat n) = {}" using dj(2) region_mono [OF n(2), of data] by blast
  obtain s1 where r: "read E data (extent_offset s) n s = (0, s1)" and om: "only_memory s s1"
    and dl: "delivers E disk nsec data ?p (unat n) s s1"
    using read_correct [OF _ _ dj1, of s disk nsec "extent_offset s"] fs n rg by (auto simp: fs_ok_def fs_geom_def)
  let ?s = "s1\<lparr>extent_offset := extent_offset s1 + ucast n, extent_len := extent_len s1 - n\<rparr>"
  note f = only_memory_fields [OF om]
  have sf: "same_fs s ?s" using only_memory_same_fs [OF om] by (simp add: same_fs_def)
  have ck: "cache_ok E disk nsec ?s" using dl by (simp add: delivers_def)
  have fs1: "fs_ok E disk nsec ?s" using fs ck same_fs_simps(7) [OF sf] by (simp add: fs_ok_def)
  have ld: "load_list (fmem ?s) data (unat n) = take (unat n) bs" using dl n by (simp add: delivers_def bs take_slice)
  have fr: "fmem ?s a = fmem s a" if "a \<notin> region data (unat n) \<union> region (raw_buf E) 512" for a
    using dl that by (simp add: delivers_def)
  define s2 where "s2 = (if extent_len ?s = 0 \<and> extent_next_cluster ?s \<noteq> 0 then get_extent E (extent_next_cluster ?s) ?s else ?s)"
  have step: "read_extent E data len s = read_extent E (data + ucast n) (len - n) s2"
    using len L r by (subst read_extent.simps) (simp add: n_def [symmetric] s2_def Let_def)
  have "fetches E disk nsec data (unat n) bs s s2"
  proof (cases "extent_len ?s = 0 \<and> extent_next_cluster ?s \<noteq> 0")
    case False
    then have "unat n < unat (extent_len s) \<or> extent_next_cluster s = 0"
      using f n(3) by (auto simp: unat_eq_0 [symmetric] unat_sub word_le_nat_alt simp del: unat_eq_0)
    from ahead_advance [OF a n(3) L om nsec this] have "fetches E disk nsec data (unat n) bs s ?s"
      using fs1 ld sf f fr by (simp add: fetches_def)
    moreover have "s2 = ?s" unfolding s2_def using False by (rule if_not_P)
    ultimately show ?thesis by simp
  next
    case True
    then have nn: "unat n = unat (extent_len s)" "extent_next_cluster s \<noteq> 0" using f by auto
    have ch: "fat_chain disk ?s (unat (extent_next_cluster s)) cs"
      unfolding same_fs_simps(4) [OF sf] using cs nn by simp
    have ln: "length cs * unat (bytes_per_cluster ?s) < 2 ^ 32" using lb bs f by simp
    note ge = get_extent_chain [OF fs1 ch nn(2) ln]
    have "drop (unat n) bs = chain_bytes disk ?s cs" using bs nn(1) same_fs_simps(5) [OF sf] by simp
    moreover have "load_list (fmem (get_extent E (extent_next_cluster s) ?s)) data (unat n) = load_list (fmem ?s) data (unat n)"
      by (rule quiet_load [OF conjunct1 [OF ge] dj1 dj2])
    ultimately have "fetches E disk nsec data (unat n) bs s (get_extent E (extent_next_cluster s) ?s)"
      using ge ld f fr same_fs_trans [OF sf] by (auto simp: fetches_def quiet_def)
    moreover have "s2 = get_extent E (extent_next_cluster ?s) ?s" unfolding s2_def using True by (rule if_P)
    ultimately show ?thesis using f by simp
  qed
  moreover have "unat n \<le> length bs" using n(3) bs by simp
  ultimately show ?thesis using step n that by blast
qed

text \<open>Reading from a file gives the next bytes ahead, moves behind them, and leaves the rest of memory
  alone except for the two buffers. Behind the end of the file it fails.\<close>

lemma read_extent_correct:
  assumes "fs_ok E disk nsec s" and "ahead disk nsec s bs"
    and "region (raw_buf E) 512 \<inter> region data (unat len) = {}" and "region (fat_at E) 4 \<inter> region data (unat len) = {}"
  shows "\<exists>s'. read_extent E data len s = (if unat len \<le> length bs then 0 else - 1, s')
     \<and> fetches E disk nsec data (min (unat len) (length bs)) bs s s'"
  using assms
proof (induction "unat len" arbitrary: data len s bs rule: less_induct)
  case less
  show ?case
  proof (cases "len = 0 \<or> bs = []")
    case True
    have "extent_len s = 0" if "bs = []" using that less.prems(2) by (auto simp: ahead_def unat_eq_0)
    then show ?thesis using True less.prems(1,2)
      by (cases "len = 0") (auto simp: read_extent.simps fetches_def unat_eq_0)
  next
    case False
    then have len0: "len \<noteq> 0" and bs0: "bs \<noteq> []" by auto
    obtain n s2 where n: "0 < unat n" "unat n \<le> unat len" "unat n \<le> length bs"
      and step: "read_extent E data len s = read_extent E (data + ucast n) (len - n) s2"
      and one: "fetches E disk nsec data (unat n) bs s s2"
      by (rule read_extent_round [OF less.prems(1,2) len0 bs0 less.prems(3,4)])
    let ?k = "min (unat len) (length bs)"
    have ln: "unat (len - n) = unat len - unat n" using n by (simp add: unat_sub word_le_nat_alt)
    have dn: "data + ucast n = data + of_nat (unat n)" by simp
    have sub: "region (data + of_nat (unat n)) (unat len - unat n) \<subseteq> region data (unat len)" using n by (intro region_sub) simp
    have dj: "region (raw_buf E) 512 \<inter> region (data + ucast n) (unat (len - n)) = {}" "region (fat_at E) 4 \<inter> region (data + ucast n) (unat (len - n)) = {}"
      unfolding ln dn using sub less.prems(3,4) by blast+
    have lt: "unat (len - n) < unat len" using n ln by simp
    have s2: "fs_ok E disk nsec s2" "ahead disk nsec s2 (drop (unat n) bs)" using one by (auto simp: fetches_def)
    have m: "min (unat len - unat n) (length (drop (unat n) bs)) = ?k - unat n" by auto
    from less.hyps [OF lt s2 dj] obtain s' where r: "read_extent E (data + ucast n) (len - n) s2
        = (if unat len - unat n \<le> length (drop (unat n) bs) then 0 else - 1, s')"
      and rest: "fetches E disk nsec (data + of_nat (unat n)) (?k - unat n) (drop (unat n) bs) s2 s'"
      unfolding ln dn m by blast
    have "unat len < 2 ^ 32" using unsigned_less [of len, where ?'a = nat] by simp
    then have k: "?k < 2 ^ 32" "unat n \<le> ?k" "?k \<le> length bs" using n by auto
    have kr: "region data ?k \<subseteq> region data (unat len)" by (rule region_mono) simp
    have "fetches E disk nsec data ?k bs s s'"
      by (rule fetches_step [OF k(2,1) _ _ one rest k(3)]) (use less.prems(3,4) kr in blast)+
    moreover have "(unat len - unat n \<le> length (drop (unat n) bs)) = (unat len \<le> length bs)" using n by auto
    ultimately show ?thesis using step r by simp
  qed
qed


section \<open>Directories\<close>

text \<open>A directory as the list of its 32-byte entries, and the entry a name leads to: the first one, before
  the end mark, that is not deleted and no label, is of the kind wanted and has the name.\<close>

datatype scan_result = ScanStop | ScanHit "u8 list" | ScanMiss

fun scan :: "u8 list \<Rightarrow> bool \<Rightarrow> u8 list list \<Rightarrow> scan_result" where
  "scan n d [] = ScanMiss"
| "scan n d (e # es) =
     (if e ! 0 = 0 then ScanStop
      else if e ! 11 AND 8 \<noteq> 0 \<or> e ! 0 = 0xe5 \<or> d \<noteq> (e ! 11 AND 16 \<noteq> 0) \<or> n \<noteq> take 11 e then scan n d es
      else ScanHit e)"

definition entry16 :: "u8 list \<Rightarrow> nat \<Rightarrow> u16" where
  "entry16 e i = ucast (e ! i) OR push_bit 8 (ucast (e ! (i + 1)))"

definition entry_cluster :: "u32 \<Rightarrow> u8 list \<Rightarrow> u32" where
  "entry_cluster t e = (if t = 32 then ucast (entry16 e 26) OR push_bit 16 (ucast (entry16 e 20)) else ucast (entry16 e 26))"

definition entry_size :: "u8 list \<Rightarrow> u32" where
  "entry_size e = ucast (e ! 28) OR push_bit 8 (ucast (e ! 29)) OR push_bit 16 (ucast (e ! 30)) OR push_bit 24 (ucast (e ! 31))"

lemma dir_fields:
  assumes "load_list m a 32 = e"
  shows "i < 32 \<Longrightarrow> m (a + of_nat i) = e ! i" and "le16 m (a + 0x1a) = entry16 e 26" and "le16 m (a + 0x14) = entry16 e 20"
    and "le32 m (a + 0x1c) = entry_size e" and "load_list m a 11 = take 11 e"
proof -
  have n: "j < 32 \<Longrightarrow> m (a + of_nat j) = e ! j" for j using load_list_nth [of j 32 m a] assms by simp
  then show "i < 32 \<Longrightarrow> m (a + of_nat i) = e ! i" .
  show "le16 m (a + 0x1a) = entry16 e 26" "le16 m (a + 0x14) = entry16 e 20"
    using n [of 26] n [of 27] n [of 20] n [of 21] by (simp_all add: le16_def entry16_def add.assoc)
  show "le32 m (a + 0x1c) = entry_size e"
    using n [of 28] n [of 29] n [of 30] n [of 31] by (simp add: le32_def entry_size_def add.assoc)
  show "load_list m a 11 = take 11 e" using take_load_list [of 11 32 m a] assms by simp
qed

definition dir_buffer_ok :: "'b fat_env \<Rightarrow> bool" where
  "dir_buffer_ok E \<longleftrightarrow> region (raw_buf E) 512 \<inter> region (dir_at E) 32 = {} \<and> region (fat_at E) 4 \<inter> region (dir_at E) 32 = {}"

text \<open>What the loop over a directory answers.\<close>

definition dir_answer :: "'b fat_env \<Rightarrow> (nat \<Rightarrow> u8) \<Rightarrow> nat \<Rightarrow> u8 list \<Rightarrow> u8 list list \<Rightarrow> 'b fat_state \<Rightarrow> dir_result \<times> 'b fat_state \<Rightarrow> bool" where
  "dir_answer E disk nsec name es s res \<longleftrightarrow>
     (case scan (fat_name s) (name \<noteq> []) es of
        ScanStop \<Rightarrow> fst res = DirReturn (- 1) \<and> fs_ok E disk nsec (snd res) \<and> same_fs s (snd res)
      | ScanMiss \<Rightarrow> fst res = DirEnd \<and> fs_ok E disk nsec (snd res) \<and> same_fs s (snd res)
      | ScanHit e \<Rightarrow>
          \<exists>s1. fs_ok E disk nsec s1 \<and> same_fs s s1 \<and>
            (if name = [] then res = (DirReturn 0, get_extent E (entry_cluster (fat_type s) e) (s1\<lparr>fat_file_size := entry_size e\<rparr>))
             else res = (DirFound (entry_cluster (fat_type s) e), s1)))"

lemma dir_loop_correct:
  assumes "fs_ok E disk nsec s" and "ahead disk nsec s (concat es)" and "\<forall>e\<in>set es. length e = 32" and "dir_buffer_ok E"
  shows "\<exists>res. dir_loop E name s = Some res \<and> dir_answer E disk nsec name es s res"
  using assms
proof (induction es arbitrary: s)
  case Nil
  then have "extent_len s = 0" by (auto simp: ahead_def unat_eq_0)
  then have "dir_loop E name s = Some (DirEnd, s)" by (subst dir_loop.simps) simp
  then show ?case using Nil by (simp add: dir_answer_def)
next
  case (Cons e es)
  have l: "length e = 32" using Cons.prems(3) by simp
  then have "e \<noteq> []" by auto
  then have L: "extent_len s \<noteq> 0" using Cons.prems(2) by (auto simp: ahead_def)
  have dj: "region (raw_buf E) 512 \<inter> region (dir_at E) (unat (0x20 :: u32)) = {}" "region (fat_at E) 4 \<inter> region (dir_at E) (unat (0x20 :: u32)) = {}"
    using Cons.prems(4) by (auto simp: dir_buffer_ok_def)
  obtain s1 where r: "read_extent E (dir_at E) 0x20 s = (0, s1)" and f: "fetches E disk nsec (dir_at E) 32 (e @ concat es) s s1"
    using read_extent_correct [OF Cons.prems(1,2) dj] l by auto
  have s1: "fs_ok E disk nsec s1" "ahead disk nsec s1 (concat es)" "load_list (fmem s1) (dir_at E) 32 = e" "same_fs s s1" "fat_name s1 = fat_name s"
    using f l by (auto simp: fetches_def)
  note d = dir_fields [OF s1(3)]
  have d0: "fmem s1 (dir_at E) = e ! 0" and d11: "fmem s1 (dir_at E + 0x0b) = e ! 11" using d(1) [of 0] d(1) [of 11] by simp_all
  have t: "fat_type s1 = fat_type s" using s1(4) by (simp add: same_fs_def)
  obtain res where ih: "dir_loop E name s1 = Some res" "dir_answer E disk nsec name es s1 res"
    using Cons.IH [OF s1(1,2)] Cons.prems(3,4) by auto
  have tr: "dir_answer E disk nsec name es s1 res \<Longrightarrow> scan (fat_name s) (name \<noteq> []) (e # es) = scan (fat_name s) (name \<noteq> []) es
      \<Longrightarrow> dir_answer E disk nsec name (e # es) s res"
    using s1(4,5) t by (auto simp: dir_answer_def split: scan_result.splits intro: same_fs_trans)
  let ?skip = "e ! 11 AND 8 \<noteq> 0 \<or> e ! 0 = 0xe5 \<or> (name \<noteq> []) \<noteq> (e ! 11 AND 16 \<noteq> 0) \<or> fat_name s \<noteq> take 11 e"
  note step = dir_loop.simps [of E name s]
  consider (stop) "e ! 0 = 0" | (skip) "e ! 0 \<noteq> 0" ?skip | (hit) "e ! 0 \<noteq> 0" "\<not> ?skip" by blast
  then show ?case
  proof cases
    case stop
    then have "dir_loop E name s = Some (DirReturn (- 1), s1)" using step L r d0 by simp
    then show ?thesis using stop s1(1,4) by (simp add: dir_answer_def)
  next
    case skip
    then have "dir_loop E name s = dir_loop E name s1" using step L r d0 d11 d(5) s1(5) by (simp add: Let_def) blast
    moreover have "scan (fat_name s) (name \<noteq> []) (e # es) = scan (fat_name s) (name \<noteq> []) es" using skip by auto
    ultimately show ?thesis using ih tr by auto
  next
    case hit
    let ?c = "entry_cluster (fat_type s) e"
    have "dir_loop E name s = Some (if name = [] then (DirReturn 0, get_extent E ?c (s1\<lparr>fat_file_size := entry_size e\<rparr>)) else (DirFound ?c, s1))"
      using step L r d0 d11 d(2-5) s1(5) t hit by (simp add: Let_def entry_cluster_def)
    moreover have "scan (fat_name s) (name \<noteq> []) (e # es) = ScanHit e" using hit by auto
    ultimately show ?thesis using s1(1,4) by (auto simp: dir_answer_def)
  qed
qed

text \<open>The bytes of a directory or file by its first cluster; cluster 0 is the root directory.\<close>

definition cluster_bytes :: "(nat \<Rightarrow> u8) \<Rightarrow> nat \<Rightarrow> 'b fat_state \<Rightarrow> u32 \<Rightarrow> u8 list \<Rightarrow> bool" where
  "cluster_bytes disk nsec s c bs \<longleftrightarrow>
     (if c = 0 \<and> fat_type s \<noteq> 32
      then unat (root_entries s) < 2 ^ 27
         \<and> unat (partition_start_offset s) + unat (root_offset s) + 32 * unat (root_entries s) \<le> 512 * nsec
         \<and> bs = slice disk (unat (partition_start_offset s) + unat (root_offset s)) (32 * unat (root_entries s))
      else let c = (if c = 0 then ucast (root_offset s) else c)
           in c \<noteq> 0 \<and> (\<exists>cs. fat_chain disk s (unat c) cs \<and> length cs * unat (bytes_per_cluster s) < 2 ^ 32 \<and> bs = chain_bytes disk s cs))"

lemma cluster_bytes_same:
  assumes "same_fs s s'"
  shows "cluster_bytes disk nsec s' = cluster_bytes disk nsec s"
proof -
  have "fat_type s' = fat_type s" "root_entries s' = root_entries s" "partition_start_offset s' = partition_start_offset s"
    "root_offset s' = root_offset s" using assms by (auto simp: same_fs_def)
  then show ?thesis
    by (intro ext) (simp only: cluster_bytes_def same_fs_simps(4,5,8) [OF assms])
qed

lemma get_extent_bytes:
  assumes "fs_ok E disk nsec s" and "cluster_bytes disk nsec s c bs"
  shows "quiet E s (get_extent E c s) \<and> fs_ok E disk nsec (get_extent E c s) \<and> ahead disk nsec (get_extent E c s) bs"
proof (cases "c = 0 \<and> fat_type s \<noteq> 32")
  case True
  then show ?thesis using assms get_extent_root [OF assms(1)] by (simp add: cluster_bytes_def)
next
  case False
  let ?c = "if c = 0 then ucast (root_offset s) else c"
  from False assms(2) obtain cs where c0: "?c \<noteq> 0" and "fat_chain disk s (unat ?c) cs"
    and "length cs * unat (bytes_per_cluster s) < 2 ^ 32" and "bs = chain_bytes disk s cs"
    by (auto simp: cluster_bytes_def Let_def)
  moreover have "get_extent E c s = get_extent E ?c s" using False c0 by (auto simp: get_extent_def)
  ultimately show ?thesis using get_extent_chain [OF assms(1), of ?c cs] by simp
qed

text \<open>Where a path leads: through the directories to the first cluster and the size of a file.\<close>

inductive path_to :: "(nat \<Rightarrow> u8) \<Rightarrow> nat \<Rightarrow> 'b fat_state \<Rightarrow> u32 \<Rightarrow> u8 list \<Rightarrow> u32 \<Rightarrow> u32 \<Rightarrow> bool" for disk nsec s where
  path_file: "path \<noteq> [] \<Longrightarrow> parse_component path = (n, []) \<Longrightarrow> cluster_bytes disk nsec s c (concat es) \<Longrightarrow>
     \<forall>e\<in>set es. length e = 32 \<Longrightarrow> scan n False es = ScanHit e \<Longrightarrow>
     path_to disk nsec s c path (entry_cluster (fat_type s) e) (entry_size e)"
| path_dir: "path \<noteq> [] \<Longrightarrow> parse_component path = (n, rest) \<Longrightarrow> rest \<noteq> [] \<Longrightarrow> cluster_bytes disk nsec s c (concat es) \<Longrightarrow>
     \<forall>e\<in>set es. length e = 32 \<Longrightarrow> scan n True es = ScanHit e \<Longrightarrow>
     path_to disk nsec s (entry_cluster (fat_type s) e) rest c' sz \<Longrightarrow> path_to disk nsec s c path c' sz"

lemma fs_ok_name [simp]:
  "fs_ok E disk nsec (s\<lparr>fat_name := n\<rparr>) = fs_ok E disk nsec s"
  "fs_ok E disk nsec (s\<lparr>fat_file_size := z\<rparr>) = fs_ok E disk nsec s"
  by (simp_all add: fs_ok_def fs_geom_def cache_ok_def table_at_def)

lemma same_fs_name [simp]:
  "same_fs s (s'\<lparr>fat_name := n\<rparr>) = same_fs s s'" "same_fs s (s'\<lparr>fat_file_size := z\<rparr>) = same_fs s s'"
  "same_fs (s\<lparr>fat_name := n\<rparr>) s' = same_fs s s'" "same_fs (s\<lparr>fat_file_size := z\<rparr>) s' = same_fs s s'"
  by (simp_all add: same_fs_def)

lemma ahead_name [simp]: "ahead disk nsec (s\<lparr>fat_name := n\<rparr>) bs = ahead disk nsec s bs"
proof -
  have "same_fs s (s\<lparr>fat_name := n\<rparr>)" by simp
  from same_fs_simps(4,5) [OF this] show ?thesis by (simp only: ahead_def) simp
qed

text \<open>One component of the path.\<close>

lemma open_step:
  assumes fs: "fs_ok E disk nsec s" and db: "dir_buffer_ok E" and p: "path \<noteq> []" "parse_component path = (n, rest)"
    and cb: "cluster_bytes disk nsec s c (concat es)" and es: "\<forall>e\<in>set es. length e = 32" and hit: "scan n (rest \<noteq> []) es = ScanHit e"
  obtains s1 where "fs_ok E disk nsec s1" and "same_fs s s1"
    and "open_loop E path c s = (if rest = [] then Some (0, get_extent E (entry_cluster (fat_type s) e) (s1\<lparr>fat_file_size := entry_size e\<rparr>))
           else open_loop E rest (entry_cluster (fat_type s) e) s1)"
proof -
  let ?s = "(get_extent E c s)\<lparr>fat_name := n\<rparr>"
  note ge = get_extent_bytes [OF fs cb]
  have sf: "same_fs s ?s" using ge by (simp add: quiet_def)
  have t: "fat_type ?s = fat_type s" using sf by (simp add: same_fs_def)
  obtain res where r: "dir_loop E rest ?s = Some res" "dir_answer E disk nsec rest es ?s res"
    using dir_loop_correct [of E disk nsec ?s es rest] ge es db by auto
  from r(2) hit obtain s1 where s1: "fs_ok E disk nsec s1" "same_fs ?s s1"
    and res: "if rest = [] then res = (DirReturn 0, get_extent E (entry_cluster (fat_type ?s) e) (s1\<lparr>fat_file_size := entry_size e\<rparr>))
             else res = (DirFound (entry_cluster (fat_type ?s) e), s1)"
    by (auto simp: dir_answer_def)
  show ?thesis
  proof (rule that [OF s1(1) same_fs_trans [OF sf s1(2)]])
    show "open_loop E path c s = (if rest = [] then Some (0, get_extent E (entry_cluster (fat_type s) e) (s1\<lparr>fat_file_size := entry_size e\<rparr>))
           else open_loop E rest (entry_cluster (fat_type s) e) s1)"
      using p r(1) res t by (subst open_loop.simps) (simp split: if_splits)
  qed
qed

lemma fat_open_path:
  assumes "path_to disk nsec s0 c path c' sz" and "fs_ok E disk nsec s" and "same_fs s0 s" and "dir_buffer_ok E"
    and "cluster_bytes disk nsec s0 c' bs"
  shows "\<exists>s'. open_loop E path c s = Some (0, s') \<and> fat_file_size s' = sz \<and> fs_ok E disk nsec s' \<and> same_fs s s' \<and> ahead disk nsec s' bs"
  using assms
proof (induction arbitrary: s)
  case (path_file path n c es e)
  have t: "fat_type s = fat_type s0" using path_file.prems(2) by (simp add: same_fs_def)
  have cb: "cluster_bytes disk nsec s c (concat es)" using path_file.hyps(3) cluster_bytes_same [OF path_file.prems(2)] by simp
  have hit: "scan n ([] \<noteq> []) es = ScanHit e" using path_file.hyps(5) by simp
  obtain s1 where s1: "fs_ok E disk nsec s1" "same_fs s s1"
    and o: "open_loop E path c s = Some (0, get_extent E (entry_cluster (fat_type s) e) (s1\<lparr>fat_file_size := entry_size e\<rparr>))"
    by (rule open_step [OF path_file.prems(1,3) path_file.hyps(1,2) cb path_file.hyps(4) hit]) simp
  let ?s = "s1\<lparr>fat_file_size := entry_size e\<rparr>"
  have "cluster_bytes disk nsec ?s (entry_cluster (fat_type s) e) bs"
    using path_file.prems(4) t cluster_bytes_same [of s0 ?s] same_fs_trans [OF path_file.prems(2) s1(2)] by simp
  from get_extent_bytes [OF _ this, of E] s1 o show ?case by (auto simp: quiet_def intro: same_fs_trans)
next
  case (path_dir path n rest c es e c' sz)
  have t: "fat_type s = fat_type s0" using path_dir.prems(2) by (simp add: same_fs_def)
  have cb: "cluster_bytes disk nsec s c (concat es)" using path_dir.hyps(4) cluster_bytes_same [OF path_dir.prems(2)] by simp
  have hit: "scan n (rest \<noteq> []) es = ScanHit e" using path_dir.hyps(3,6) by simp
  obtain s1 where s1: "fs_ok E disk nsec s1" "same_fs s s1"
    and o: "open_loop E path c s = open_loop E rest (entry_cluster (fat_type s) e) s1"
    by (rule open_step [OF path_dir.prems(1,3) path_dir.hyps(1,2) cb path_dir.hyps(5) hit]) (use path_dir.hyps(3) in simp)
  from path_dir.IH [OF s1(1) same_fs_trans [OF path_dir.prems(2) s1(2)] path_dir.prems(3,4)] t s1(2) show ?case
    unfolding o by (auto intro: same_fs_trans)
qed


section \<open>A small disk\<close>

text \<open>
  A FAT12 file system on 16 sectors for the witnesses: the table is the second sector, the root
  directory, of one entry, the third, and clusters of one sector follow. The file \<^verbatim>\<open>FOO.BIN\<close> has the clusters 2, 3
  and 5. The driver gives the bytes of the disk.
\<close>

definition demo_disk :: "nat \<Rightarrow> u8" where
  "demo_disk i =
     (if i = 515 then 0x03 else if i = 516 then 0x50 else if i = 517 then 0x00 else if i = 519 then 0xf0 else if i = 520 then 0xff
      else if 1024 \<le> i \<and> i < 1035 then bytes ''FOO     BIN'' ! (i - 1024)
      else if i = 1050 then 2 else if i = 1052 then 0xdc else if i = 1053 then 0x05
      else if i < 1536 then 0 else of_nat (i div 512))"

definition demo_env :: "(nat \<Rightarrow> u8) \<Rightarrow> unit fat_env" where
  "demo_env disk = \<lparr>raw_buf = 0x1000, fat_at = 0x2000, dir_at = 0x3000, sb_at = 0x4000,
     dev_read = \<lambda>_ lba n. (int (unat n), slice disk (512 * unat lba) (512 * unat n))\<rparr>"

definition demo_fs :: "unit fat_state" where
  "demo_fs = \<lparr>fmem = \<lambda>_. 0, dev = (), current = - 1, partition_start_offset = 0, bytes_per_cluster = 512,
     root_entries = 1, clusters = 13, fat_type = 12, fat_offset = 512, root_offset = 1024, data_offset = 1536,
     extent_offset = 0, extent_len = 0, extent_next_cluster = 0, fat_name = [], fat_file_size = 0\<rparr>"

lemma demo_good: "good_dev (demo_env disk) () disk 16"
proof -
  have "dev_read (demo_env disk) () (of_nat lba) (of_nat n) = (int n, slice disk (512 * lba) (512 * n))" if "n \<le> 8" "lba + n \<le> 16" for lba n
  proof -
    have "unat (of_nat n :: u32) = n" "unat (of_nat lba :: u64) = lba" using that by (simp_all add: unat_of_nat)
    then show ?thesis unfolding demo_env_def by (simp only: fat_env.simps)
  qed
  then show ?thesis by (simp add: good_dev_def)
qed

lemma demo_regions:
  "region (raw_buf (demo_env disk)) 512 \<inter> region (fat_at (demo_env disk)) 4 = {}" "dir_buffer_ok (demo_env disk)"
  "n \<le> 0x10000 \<Longrightarrow> region (raw_buf (demo_env disk)) 512 \<inter> region 0x10000 n = {}" "n \<le> 0x10000 \<Longrightarrow> region (fat_at (demo_env disk)) 4 \<inter> region 0x10000 n = {}"
  unfolding dir_buffer_ok_def by (auto intro!: region_disjoint_nat(1) simp: demo_env_def)

lemma demo_fs_ok: "fs_ok (demo_env disk) disk 16 demo_fs"
  using demo_good demo_regions(1)
  by (simp add: fs_ok_def fs_geom_def cache_ok_def demo_fs_def table_at_def)

lemma demo_next:
  "next_of demo_disk demo_fs 2 = 3" "next_of demo_disk demo_fs 3 = 5" "next_of demo_disk demo_fs 5 = 0xfff"
  by (simp_all add: next_of_def fat_entry_def table_at_def demo_fs_def disk_le16_def demo_disk_def)

lemma demo_chain: "fat_chain demo_disk demo_fs 2 [2, 3, 5]"
  by (simp add: demo_next valid_cluster_def) (simp add: demo_fs_def)

lemma demo_file: "cluster_bytes demo_disk 16 demo_fs 2 (replicate 512 3 @ replicate 512 4 @ replicate 512 6)"
proof -
  have s: "slice demo_disk (512 * k) 512 = replicate 512 (of_nat k)" if "3 \<le> k" for k
  proof (rule nth_equalityI)
    fix i assume "i < length (slice demo_disk (512 * k) 512)"
    with that show "slice demo_disk (512 * k) 512 ! i = replicate 512 (of_nat k) ! i"
      by (simp add: demo_disk_def)
  qed simp
  have at: "cluster_at demo_fs c = 512 * (c + 1)" if "2 \<le> c" for c
    using that by (simp add: cluster_at_def demo_fs_def)
  have "chain_bytes demo_disk demo_fs [2, 3, 5] = replicate 512 3 @ replicate 512 4 @ replicate 512 6"
    using s [of 3] s [of 4] s [of 6] by (simp add: chain_bytes_def at) (simp add: demo_fs_def)
  moreover have "length [2, 3, 5 :: nat] * unat (bytes_per_cluster demo_fs) < 2 ^ 32" by (simp add: demo_fs_def)
  ultimately show ?thesis using demo_chain by (auto simp: cluster_bytes_def Let_def intro!: exI [of _ "[2, 3, 5]"])
qed

lemma demo_name: "take 11 (slice demo_disk 1024 32) = bytes ''FOO     BIN''"
proof (rule nth_equalityI)
  fix i assume "i < length (take 11 (slice demo_disk 1024 32))"
  then show "take 11 (slice demo_disk 1024 32) ! i = bytes ''FOO     BIN'' ! i" by (simp add: demo_disk_def)
qed (simp add: bytes_def)

lemma demo_root: "cluster_bytes demo_disk 16 demo_fs 0 (concat [slice demo_disk 1024 32])"
  by (simp add: cluster_bytes_def demo_fs_def)

lemma demo_path: "path_to demo_disk 16 demo_fs 0 (bytes ''/foo.bin'') 2 1500"
proof -
  let ?e = "slice demo_disk 1024 32"
  have p: "parse_component (bytes ''/foo.bin'') = (bytes ''FOO     BIN'', [])" by code_simp
  have hit: "scan (bytes ''FOO     BIN'') False [?e] = ScanHit ?e"
    using demo_name by (simp add: demo_disk_def bytes_def)
  have "entry_cluster (fat_type demo_fs) ?e = 2" "entry_size ?e = 1500"
    by (simp_all add: entry_cluster_def entry_size_def entry16_def demo_fs_def demo_disk_def)
  with path_file [OF _ p demo_root _ hit] show ?thesis by (auto simp: bytes_def)
qed

section \<open>Properties\<close>

text \<open>C6: reading a file. When the table gives the chain of clusters of a file, \<open>fat_read\<close> after
  \<open>get_extent\<close> stores the bytes of these clusters, in the order of the chain and however they are
  spread over the disk, at the address given; it returns 0 when the file has as many bytes as wanted
  and \<open>-1\<close> otherwise. Memory outside the destination and the two internal buffers keeps its bytes.\<close>

theorem fat_read_file:
  assumes "fs_ok E disk nsec s" and "cluster_bytes disk nsec s c bs"
    and "region (raw_buf E) 512 \<inter> region data (unat len) = {}" and "region (fat_at E) 4 \<inter> region data (unat len) = {}"
  shows "\<exists>s'. fat_read E data len (get_extent E c s) = (if unat len \<le> length bs then 0 else - 1, s')
     \<and> load_list (fmem s') data (min (unat len) (length bs)) = take (unat len) bs
     \<and> (\<forall>a. a \<notin> region data (unat len) \<union> region (fat_at E) 4 \<union> region (raw_buf E) 512 \<longrightarrow> fmem s' a = fmem s a)"
proof -
  note ge = get_extent_bytes [OF assms(1,2)]
  obtain s' where r: "read_extent E data len (get_extent E c s) = (if unat len \<le> length bs then 0 else - 1, s')"
    and f: "fetches E disk nsec data (min (unat len) (length bs)) bs (get_extent E c s) s'"
    using read_extent_correct [OF _ _ assms(3,4), of disk nsec "get_extent E c s" bs] ge by blast
  have sub: "region data (min (unat len) (length bs)) \<subseteq> region data (unat len)" by (rule region_mono) simp
  have "fmem s' a = fmem s a" if "a \<notin> region data (unat len) \<union> region (fat_at E) 4 \<union> region (raw_buf E) 512" for a
    using f ge that sub by (auto simp: fetches_def quiet_def)
  moreover have "load_list (fmem s') data (min (unat len) (length bs)) = take (unat len) bs"
    using f by (simp add: fetches_def min_def)
  ultimately show ?thesis using r by (auto simp: fat_read_def)
qed

theorem fat_read_file_witness:
  "\<exists>s'. fat_read (demo_env demo_disk) 0x10000 1500 (get_extent (demo_env demo_disk) 2 demo_fs) = (0, s')
     \<and> load_list (fmem s') 0x10000 1500 = replicate 512 3 @ replicate 512 4 @ replicate 476 6"
  using fat_read_file [OF demo_fs_ok demo_file, of "0x10000" 1500] demo_regions(3,4) [of 1500] by auto

text \<open>C10: opening a file. When the directories on the disk lead along the path to an entry of a file,
  \<open>fat_open\<close> returns, with 0, the size is that of the entry, and the bytes of the file are what
  \<open>fat_read\<close> will deliver.\<close>

theorem fat_open_finds:
  assumes "fs_ok E disk nsec s" and "dir_buffer_ok E" and "path_to disk nsec s 0 path c sz" and "cluster_bytes disk nsec s c bs"
  shows "\<exists>s'. fat_open E path s = Some (0, s') \<and> fat_file_size s' = sz \<and> fs_ok E disk nsec s' \<and> ahead disk nsec s' bs"
  using fat_open_path [OF assms(3,1) same_fs_refl assms(2,4)] by (auto simp: fat_open_def)

theorem fat_open_finds_witness:
  "\<exists>s'. fat_open (demo_env demo_disk) (bytes ''/foo.bin'') demo_fs = Some (0, s') \<and> fat_file_size s' = 1500"
  using fat_open_finds [OF demo_fs_ok demo_regions(2) demo_path demo_file] by auto

text \<open>C13: \<open>get_fat\<close> gives the entry of the table as the format defines it, for 12-bit entries packed in
  pairs, for 16-bit ones and for the 28 bits of 32-bit ones.\<close>

theorem get_fat_entry:
  assumes "fs_ok E disk nsec s" and "valid_cluster s (unat c)"
  shows "unat (fst (get_fat E c s)) = fat_entry disk (unat (fat_type s)) (table_at s) (unat c)"
  using get_fat_correct [OF assms] unat_next_of [of disk s "unat c"] by (auto simp: next_of_def)

theorem get_fat_entry_witness: "unat (fst (get_fat (demo_env demo_disk) 3 demo_fs)) = 5"
  using get_fat_entry [OF demo_fs_ok, of 3] demo_next(2)
  by (simp add: valid_cluster_def demo_fs_def next_of_def)

text \<open>C11: \<open>read\<close> delivers the bytes of the disk at any offset and of any length, whether it copies them
  from the sector buffer or lets the driver store whole sectors.\<close>

theorem read_delivers:
  assumes "good_dev E (dev s) disk nsec" and "cache_ok E disk nsec s"
    and "region (raw_buf E) 512 \<inter> region data (unat len) = {}"
    and "unat (partition_start_offset s) + unat offset + unat len \<le> 512 * nsec"
  shows "\<exists>s'. read E data offset len s = (0, s') \<and> cache_ok E disk nsec s'
     \<and> load_list (fmem s') data (unat len) = slice disk (unat (partition_start_offset s) + unat offset) (unat len)
     \<and> (\<forall>a. a \<notin> region data (unat len) \<union> region (raw_buf E) 512 \<longrightarrow> fmem s' a = fmem s a)"
  using read_correct [OF assms] by (auto simp: delivers_def)

theorem read_delivers_witness:
  "\<exists>s'. read (demo_env demo_disk) 0x10000 1021 7 demo_fs = (0, s') \<and> load_list (fmem s') 0x10000 7 = [0, 0, 0] @ bytes ''FOO ''"
proof -
  have g: "good_dev (demo_env demo_disk) (dev demo_fs) demo_disk 16" "cache_ok (demo_env demo_disk) demo_disk 16 demo_fs"
    using demo_good by (simp_all add: demo_fs_def cache_ok_def)
  have "slice demo_disk 1021 7 = [0, 0, 0] @ bytes ''FOO ''" by (simp add: slice_def upt_rec demo_disk_def bytes_def)
  then show ?thesis using read_delivers [OF g, of "0x10000" 7 1021] demo_regions(3) [of 7] by (auto simp: demo_fs_def)
qed

text \<open>A failed read of a sector is forgotten: \<open>raw_read\<close> reports the error once, but it has already
  noted the sector as the buffered one, so the next attempt to read it succeeds without asking the
  driver and hands out what happens to be in the buffer.\<close>

lemma raw_read_forgets_error:
  assumes "current s \<noteq> sector" and "fst (dev_read E (dev s) (ucast sector) 1) < 0"
  shows "\<exists>s1. raw_read E sector s = (1, s1) \<and> raw_read E sector s1 = (0, s1)"
proof -
  obtain r bs where d: "dev_read E (dev s) (ucast sector) 1 = (r, bs)" "r < 0"
    using assms(2) by (cases "dev_read E (dev s) (ucast sector) 1") auto
  let ?s = "s\<lparr>current := sector, fmem := store_list (fmem s) (raw_buf E) bs\<rparr>"
  have "raw_read E sector s = (1, ?s)" using assms(1) d by (simp add: raw_read_def dev_read_at_def c_bool_def)
  moreover have "raw_read E sector ?s = (0, ?s)" by (simp add: raw_read_def)
  ultimately show ?thesis by blast
qed

theorem raw_read_forgets_error_witness:
  "\<exists>s1. raw_read ((demo_env demo_disk)\<lparr>dev_read := \<lambda>_ _ _. (- 5, [])\<rparr>) 7 demo_fs = (1, s1)
     \<and> raw_read ((demo_env demo_disk)\<lparr>dev_read := \<lambda>_ _ _. (- 5, [])\<rparr>) 7 s1 = (0, s1)"
  by (rule raw_read_forgets_error) (simp_all add: demo_fs_def)

text \<open>A driver error in the transfer of whole sectors is taken for success: the signed result is
  compared with an unsigned count, so for every negative result, and for a driver that delivers nothing
  and returns 0, \<open>read\<close> returns 0 although memory is as before.\<close>

lemma read_ignores_error:
  assumes "dev_read E (dev s) (ucast sector) 1 = (err, [])" and "- (2 ^ 31) \<le> err" and "err \<le> 0"
    and "(data - raw_buf E) AND 31 = 0" and "partition_start_offset s = 0"
  shows "read E data (0x200 * ucast (sector :: u32)) 0x200 s = (0, s)"
proof -
  have u: "unat (0x200 * ucast sector :: u64) = 512 * unat sector"
    using unsigned_less [of sector, where ?'a = nat] by (subst unat_mult_lem [THEN iffD1]) auto
  have "(0x200 * ucast sector :: u64) div of_nat RAW_BUF = ucast sector"
    unfolding u64_sector u by simp
  moreover have "aligned_sects 0x200 = 1" by (simp add: aligned_sects_def RAW_BUF_def MAX_SECTS_def)
  ultimately have d: "dev_read_at E data ((0x200 * ucast sector :: u64) div of_nat RAW_BUF) (aligned_sects 0x200) s = (err, s)"
    using assms(1) by (simp add: dev_read_at_def)
  have z: "unat (0x200 * ucast sector :: u64) mod 512 = 0" unfolding u by simp
  have "err = 0 \<or> \<not> (word_of_int err :: u32) < 1"
  proof (cases "err = 0")
    case False
    have "err mod 2 ^ 32 = (err + 2 ^ 32) mod 2 ^ 32" by simp
    also have "\<dots> = err + 2 ^ 32" using assms(2,3) False by (intro mod_pos_pos_trivial) simp_all
    finally show ?thesis using assms(2) by (simp add: word_less_def uint_word_of_int)
  qed simp
  moreover have "(0x200 :: u32) \<noteq> 0" "of_nat RAW_BUF \<le> (0x200 :: u32)" by (simp_all add: RAW_BUF_def)
  from read_loop_aligned [OF this(1) z assms(4) this(2) d]
  have "read_loop E data (0x200 * ucast sector) 0x200 s = (if (word_of_int err :: u32) < 1 then (err, s) else (0, s))"
    by (simp add: \<open>aligned_sects 0x200 = 1\<close> RAW_BUF_def)
  ultimately show ?thesis using assms(5) by (auto simp: read_def)
qed

theorem read_ignores_error_witness:
  "read ((demo_env demo_disk)\<lparr>dev_read := \<lambda>_ _ _. (- 5, [])\<rparr>) 0x10000 (0x200 * ucast (3 :: u32)) 0x200 demo_fs = (0, demo_fs)"
  by (rule read_ignores_error [where err = "- 5"]) (simp_all add: demo_fs_def demo_env_def)

text \<open>A component of a path that does not exist is skipped when its directory has no end mark: the
  next component is looked up in the same directory, so the path opens a file that it does not name.\<close>

lemma fat_open_skips_missing:
  assumes "fs_ok E disk nsec s" and "dir_buffer_ok E" and "path \<noteq> []" and "parse_component path = (n, rest)"
    and "cluster_bytes disk nsec s 0 (concat es)" and "\<forall>e\<in>set es. length e = 32" and "scan n True es = ScanMiss" and "rest \<noteq> []"
    and "path_to disk nsec s 0 rest c sz" and "cluster_bytes disk nsec s c bs"
  shows "\<exists>s'. fat_open E path s = Some (0, s') \<and> fat_file_size s' = sz \<and> ahead disk nsec s' bs"
proof -
  let ?s = "(get_extent E 0 s)\<lparr>fat_name := n\<rparr>"
  note ge = get_extent_bytes [OF assms(1,5)]
  have sf: "same_fs s ?s" using ge by (simp add: quiet_def)
  obtain res where r: "dir_loop E rest ?s = Some res" "dir_answer E disk nsec rest es ?s res"
    using dir_loop_correct [of E disk nsec ?s es rest] ge assms(2,6) by auto
  then have res: "fst res = DirEnd" "fs_ok E disk nsec (snd res)" "same_fs ?s (snd res)"
    using assms(7,8) by (auto simp: dir_answer_def)
  have "open_loop E path 0 s = open_loop E rest 0 (snd res)"
    using assms(3,4) r(1) res(1) by (subst open_loop.simps) (cases res, simp)
  with fat_open_path [OF assms(9) res(2) same_fs_trans [OF sf res(3)] assms(2,10)] show ?thesis
    by (auto simp: fat_open_def)
qed

theorem fat_open_skips_missing_witness:
  "\<exists>s'. fat_open (demo_env demo_disk) (bytes ''/nodir/foo.bin'') demo_fs = Some (0, s') \<and> fat_file_size s' = 1500"
proof -
  have p: "parse_component (bytes ''/nodir/foo.bin'') = (bytes ''NODIR      '', bytes ''/foo.bin'')" by code_simp
  have miss: "scan (bytes ''NODIR      '') True [slice demo_disk 1024 32] = ScanMiss"
    by (simp add: demo_disk_def bytes_def)
  have ne: "bytes ''/nodir/foo.bin'' \<noteq> []" "bytes ''/foo.bin'' \<noteq> []" by (simp_all add: bytes_def)
  from fat_open_skips_missing [OF demo_fs_ok demo_regions(2) ne(1) p demo_root _ miss ne(2) demo_path demo_file]
  show ?thesis by auto
qed

text \<open>A file without clusters, whose entry has the first cluster 0, is opened as the root directory:
  on FAT12 and FAT16 \<open>fat_read\<close> then delivers the entries of the root directory.\<close>

lemma empty_file_reads_root:
  assumes "fs_ok E disk nsec s" and "dir_buffer_ok E" and "path_to disk nsec s 0 path 0 sz" and "fat_type s \<noteq> 32"
    and "cluster_bytes disk nsec s 0 bs"
  shows "\<exists>s'. fat_open E path s = Some (0, s')
     \<and> ahead disk nsec s' (slice disk (unat (partition_start_offset s) + unat (root_offset s)) (32 * unat (root_entries s)))"
proof -
  have "bs = slice disk (unat (partition_start_offset s) + unat (root_offset s)) (32 * unat (root_entries s))"
    using assms(4,5) by (simp add: cluster_bytes_def)
  with fat_open_path [OF assms(3,1) same_fs_refl assms(2,5)] show ?thesis by (auto simp: fat_open_def)
qed

text \<open>The same disk with the file cut to nothing.\<close>

definition empty_disk :: "nat \<Rightarrow> u8" where
  "empty_disk = demo_disk(1050 := 0, 1052 := 0, 1053 := 0)"

theorem empty_file_reads_root_witness:
  "\<exists>s'. fat_open (demo_env empty_disk) (bytes ''/foo.bin'') demo_fs = Some (0, s')
     \<and> ahead empty_disk 16 s' (slice empty_disk 1024 32)"
proof -
  let ?e = "slice empty_disk 1024 32"
  have "take 11 ?e = bytes ''FOO     BIN''"
  proof (rule nth_equalityI)
    fix i assume "i < length (take 11 ?e)"
    then show "take 11 ?e ! i = bytes ''FOO     BIN'' ! i" by (simp add: empty_disk_def demo_disk_def)
  qed (simp add: bytes_def)
  then have hit: "scan (bytes ''FOO     BIN'') False [?e] = ScanHit ?e" by (simp add: empty_disk_def demo_disk_def bytes_def)
  have p: "parse_component (bytes ''/foo.bin'') = (bytes ''FOO     BIN'', [])" by code_simp
  have root: "cluster_bytes empty_disk 16 demo_fs 0 (concat [?e])" by (simp add: cluster_bytes_def demo_fs_def)
  have "entry_cluster (fat_type demo_fs) ?e = 0" "entry_size ?e = 0"
    by (simp_all add: entry_cluster_def entry_size_def entry16_def demo_fs_def empty_disk_def demo_disk_def)
  with path_file [OF _ p root _ hit] have "path_to empty_disk 16 demo_fs 0 (bytes ''/foo.bin'') 0 0" by (auto simp: bytes_def)
  from empty_file_reads_root [OF demo_fs_ok demo_regions(2) this _ root] show ?thesis by (simp add: demo_fs_def)
qed

lemma name_loop_stop:
  "set xs \<inter> set stops = {} \<Longrightarrow> rest = [] \<or> hd rest \<in> set stops \<Longrightarrow> length acc \<le> n \<Longrightarrow>
     name_loop stops n acc (xs @ rest) = (acc @ take (n - length acc) (map ucase xs), rest)"
proof (induction xs arbitrary: acc)
  case Nil
  then show ?case by (cases rest) auto
next
  case (Cons x xs)
  then show ?case
    by (cases "length acc < n") (auto simp: take_Cons' Suc_diff_Suc)
qed



lemma if_None_iff: "(if c then None else Some x) = None \<longleftrightarrow> c"
  by simp

lemma fat_init_fs_None_iff:
  "fat_init_fs sb s = None \<longleftrightarrow> (ucast (le16 (fmem s) (sb + 0x0b)) :: u32) = 0 \<or> (ucast (fmem s (sb + 0x0d)) :: u32) = 0"
  unfolding fat_init_fs_def Let_def if_None_iff by (rule refl)

lemma fat_init_fs_None:
  assumes "is_fat_fs sb (fmem s)" and "fat_init_fs sb s = None"
  shows "fmem s (sb + 0x0d) = 0"
proof -
  have "(ucast b :: u32) = 0 \<longleftrightarrow> b = 0" for b :: u8
    using unsigned_less [of b, where ?'a = nat] by (simp add: word_unat_eq_iff unsigned_ucast_eq take_bit_nat_eq_self)
  moreover have "(ucast (le16 (fmem s) (sb + 0x0b)) :: u32) \<noteq> 0"
    using assms(1) by (auto simp: is_fat_fs_def Let_def split: if_splits)
  ultimately show ?thesis using assms(2) by (simp add: fat_init_fs_None_iff)
qed

text \<open>Mounting divides by nothing but the sectors per cluster unchecked: \<open>fat_init\<close> has a result
  unless the superblock it accepted as FAT says 0 there.\<close>

lemma fat_init_division:
  fixes s :: "'b fat_state"
  assumes "fat_init E d s = None"
  shows "\<exists>s' :: 'b fat_state. is_fat_fs (sb_at E) (fmem s') \<and> fmem s' (sb_at E + 0x0d) = 0"
proof -
  have "\<exists>s' :: 'b fat_state. is_fat_fs (sb_at E) (fmem s') \<and> fat_init_fs (sb_at E) s' = None"
    using assms by (auto simp: fat_init_def Let_def split: prod.splits if_splits)
  then show ?thesis using fat_init_fs_None by blast
qed

definition no_cluster_disk :: "nat \<Rightarrow> u8" where
  "no_cluster_disk i = (if i = 12 then 2 else if i = 21 then 0xf8 else if i = 510 then 0x55 else if i = 511 then 0xaa else 0)"

theorem fat_init_division_witness:
  "fat_init (demo_env no_cluster_disk) () demo_fs = None
     \<and> (\<exists>s' :: unit fat_state. is_fat_fs 0x4000 (fmem s') \<and> fmem s' (0x4000 + 0x0d) = 0)"
proof -
  let ?E = "demo_env no_cluster_disk" and ?s = "demo_fs\<lparr>dev := (), partition_start_offset := 0\<rparr>"
  have g: "good_dev ?E (dev ?s) no_cluster_disk 16" "cache_ok ?E no_cluster_disk 16 ?s"
    using demo_good by (simp_all add: demo_fs_def cache_ok_def)
  have sb: "sb_at ?E = 0x4000" by (simp add: demo_env_def)
  have dj: "region (raw_buf ?E) 512 \<inter> region (sb_at ?E) (unat (0x200 :: u32)) = {}"
    by (rule region_disjoint_nat(1)) (simp_all add: demo_env_def)
  obtain s' where r: "read ?E (sb_at ?E) 0 0x200 ?s = (0, s')" and dl: "delivers ?E no_cluster_disk 16 (sb_at ?E) 0 512 ?s s'"
    using read_correct [OF g dj, of 0] by auto
  have l: "load_list (fmem s') 0x4000 512 = slice no_cluster_disk 0 512" using dl sb by (simp add: delivers_def)
  have m: "fmem s' (0x4000 + of_nat i) = no_cluster_disk i" if "i < 512" for i
    using load_list_nth [OF that, of "fmem s'" "0x4000"] that l by simp
  have "le16 (fmem s') (0x4000 + 0x01fe) = 0xaa55" "le16 (fmem s') (0x4000 + 0x0b) = 0x200" "fmem s' (0x4000 + 0x15) = 0xf8" "fmem s' (0x4000 + 0x0d) = 0"
    using m [of 510] m [of 511] m [of 11] m [of 12] m [of 21] m [of 13] by (simp_all add: le16_def no_cluster_disk_def)
  then have f: "le16 (fmem s') (0x41fe) = 0xaa55" "is_fat_fs 0x4000 (fmem s')" "fat_init_fs 0x4000 s' = None"
    by (simp_all add: is_fat_fs_def fat_init_fs_None_iff Let_def)
  then have n: "fat_init ?E () demo_fs = None" using r sb by (simp add: fat_init_def)
  then show ?thesis using fat_init_division [OF n] sb by simp
qed

end
