(* ===== verification/Xell_Mount.thy ===== *)
theory Xell_Mount
  imports Xell_Fat_Files
begin
unbundle bit_operations_syntax

text \<open>
  Mounting: what \<^verbatim>\<open>fat_init\<close> of \<^verbatim>\<open>src/fat.c\<close> makes of a disk. The parameter block of a volume is read the way the format lays it
  out (\<open>bpb_at\<close>), the volume is the whole disk or the first partition (\<open>volume_at\<close>), and on a complete volume (\<open>volume_complete\<close>) the
  routine leaves the state every other routine of the file system relies on (\<open>fs_ok\<close>) with the places of the format (\<open>volume_fs\<close>).
\<close>

section \<open>The parameter block of a volume\<close>

text \<open>The fields of the first sector of a volume as the format lays them out, and the places that follow from them.\<close>

record bpb =
  b_bps :: nat
  b_spc :: nat
  b_reserved :: nat
  fat_count :: nat
  root_count :: nat
  b_total :: nat
  per_fat :: nat
  root_first :: nat

definition bpb_at :: "(nat \<Rightarrow> u8) \<Rightarrow> nat \<Rightarrow> bpb" where
  "bpb_at disk p = \<lparr>b_bps = disk_le16 disk (p + 11), b_spc = unat (disk (p + 13)), b_reserved = disk_le16 disk (p + 14),
     fat_count = unat (disk (p + 16)), root_count = disk_le16 disk (p + 17),
     b_total = (if disk_le16 disk (p + 19) = 0 then disk_le32 disk (p + 32) else disk_le16 disk (p + 19)),
     per_fat = (if disk_le16 disk (p + 22) = 0 then disk_le32 disk (p + 36) else disk_le16 disk (p + 22)),
     root_first = disk_le32 disk (p + 44)\<rparr>"

definition root_start :: "bpb \<Rightarrow> nat" where
  "root_start b = b_reserved b + per_fat b * fat_count b"

definition data_start :: "bpb \<Rightarrow> nat" where
  "data_start b = root_start b + (32 * root_count b + b_bps b - 1) div b_bps b"

definition cluster_count :: "bpb \<Rightarrow> nat" where
  "cluster_count b = (b_total b - data_start b) div b_spc b"

definition entry_bits :: "bpb \<Rightarrow> nat" where
  "entry_bits b = (if cluster_count b < 4085 then 12 else if cluster_count b < 65525 then 16 else 32)"

text \<open>A sector that may be the first of a volume, the place of the volume of a disk (the whole disk, or the first entry of its
  partition table), and a volume that is complete.\<close>

definition fat_like :: "(nat \<Rightarrow> u8) \<Rightarrow> nat \<Rightarrow> bool" where
  "fat_like disk p \<longleftrightarrow> disk_le16 disk (p + 11) \<in> {512, 1024, 2048, 4096} \<and> (disk (p + 21) = 0xf0 \<or> 0xf8 \<le> disk (p + 21))"

definition volume_at :: "(nat \<Rightarrow> u8) \<Rightarrow> nat \<Rightarrow> bool" where
  "volume_at disk p \<longleftrightarrow> disk_le16 disk 510 = 0xaa55 \<and>
     (if fat_like disk 0 then p = 0
      else disk 450 \<noteq> 0 \<and> p = 512 * disk_le32 disk 454 \<and> fat_like disk p)"

definition volume_complete :: "bpb \<Rightarrow> nat \<Rightarrow> nat \<Rightarrow> bool" where
  "volume_complete b p nsec \<longleftrightarrow> 0 < b_spc b \<and> 0 < fat_count b \<and> data_start b < b_total b \<and> p + b_bps b * b_total b \<le> 512 * nsec
     \<and> cluster_count b + 2 \<le> 2 ^ 27 \<and> (cluster_count b + 2) * entry_bits b \<le> 8 * (b_bps b * per_fat b)"

text \<open>The file system the code keeps for such a volume.\<close>

definition volume_fs :: "'b \<Rightarrow> (nat \<Rightarrow> u8) \<Rightarrow> nat \<Rightarrow> 'b fat_state \<Rightarrow> bool" where
  "volume_fs d disk p s \<longleftrightarrow> (let b = bpb_at disk p in
     dev s = d \<and> unat (partition_start_offset s) = p \<and> unat (bytes_per_cluster s) = b_bps b * b_spc b
     \<and> unat (root_entries s) = root_count b \<and> unat (clusters s) = cluster_count b \<and> unat (fat_type s) = entry_bits b
     \<and> unat (fat_offset s) = b_bps b * b_reserved b
     \<and> unat (root_offset s) = (if entry_bits b = 32 then root_first b else b_bps b * root_start b)
     \<and> unat (data_offset s) = b_bps b * data_start b)"

lemma volume_fs_same: "volume_fs d disk p s \<Longrightarrow> volume_fs d disk p s' \<Longrightarrow> same_fs s s'"
  by (simp add: volume_fs_def same_fs_def Let_def word_unat_eq_iff)

text \<open>The fields as the code reads them from memory.\<close>

lemma unat_le16: "unat (le16 m p) = unat (m p) + 2 ^ 8 * unat (m (p + 1))"
proof -
  define a b :: u16 where ab: "a = ucast (m p)" "b = push_bit 8 (ucast (m (p + 1)))"
  have "a AND b = 0" unfolding ab by (auto simp: bit_eq_iff bit_simps u8_bit_high)
  then have "le16 m p = a + b" by (simp add: le16_def or_plus flip: ab)
  also have "\<dots> = of_nat (unat (m p) + 2 ^ 8 * unat (m (p + 1)))" unfolding ab by (simp add: push_bit_eq_mult)
  finally have *: "le16 m p = of_nat (unat (m p) + 2 ^ 8 * unat (m (p + 1)))" .
  have b: "unat (x :: u8) \<le> 255" for x using unsigned_less [of x, where ?'a = nat] by simp
  have "unat (m p) + 2 ^ 8 * unat (m (p + 1)) < 2 ^ 16" using b [of "m p"] b [of "m (p + 1)"] by simp
  then show ?thesis unfolding * unat_of_nat by (intro mod_less) simp
qed

lemma sector_fields:
  assumes "load_list m a 512 = slice disk p 512"
  shows "i < 512 \<Longrightarrow> m (a + of_nat i) = disk (p + i)"
    and "i < 511 \<Longrightarrow> unat (le16 m (a + of_nat i)) = disk_le16 disk (p + i)"
    and "i < 509 \<Longrightarrow> unat (le32 m (a + of_nat i)) = disk_le32 disk (p + i)"
proof -
  have f: "m (a + of_nat i) = disk (p + i)" if "i < 512" for i
    using arg_cong [OF assms, of "\<lambda>l. l ! i"] that by (simp add: load_list_nth)
  then show "i < 512 \<Longrightarrow> m (a + of_nat i) = disk (p + i)" by simp
  show "unat (le16 m (a + of_nat i)) = disk_le16 disk (p + i)" if "i < 511"
    using f [of i] f [of "i + 1"] that by (simp add: unat_le16 disk_le16_def ac_simps)
  show "unat (le32 m (a + of_nat i)) = disk_le32 disk (p + i)" if "i < 509"
    using f [of i] f [of "i + 1"] f [of "i + 2"] f [of "i + 3"] that by (simp add: unat_le32 disk_le32_def ac_simps)
qed


lemma bit_power_range:
  assumes "2 ^ k \<le> unat (w :: u32)" and "unat w < 2 ^ Suc k"
  shows "bit w k"
proof -
  have "unat w div 2 ^ k = 1" using assms by (intro div_nat_eqI) simp_all
  then have "bit (unat w) k" by (simp add: bit_iff_odd)
  then show ?thesis by (simp add: bit_unsigned_iff)
qed

lemma not_power:
  assumes "2 ^ k < unat (w :: u32)" and "unat w < 2 ^ Suc k"
  shows "w AND (w - 1) \<noteq> 0"
proof -
  have "0 < unat w" using assms(1) by simp
  then have u: "unat (w - 1) = unat w - 1" by (simp add: unat_minus_one unat_gt_0)
  have "bit w k" "bit (w - 1) k" using assms by (auto intro!: bit_power_range simp: u)
  then have "bit (w AND (w - 1)) k" by (simp add: bit_and_iff)
  then show ?thesis by auto
qed

lemma power_check:
  "(w :: u32) < 0x200 \<or> w > 0x1000 \<or> w AND (w - 1) \<noteq> 0 \<longleftrightarrow> unat w \<notin> {512, 1024, 2048, 4096}"
proof -
  have n: "w = of_nat (unat w)" by simp
  have "w AND (w - 1) = 0" if "unat w \<in> {512, 1024, 2048, 4096}"
  proof -
    have "w = 512 \<or> w = 1024 \<or> w = 2048 \<or> w = 4096" using that by (auto simp: word_unat_eq_iff)
    then show ?thesis by auto
  qed
  moreover have "unat w \<in> {512, 1024, 2048, 4096}" if "512 \<le> unat w" "unat w \<le> 4096" "w AND (w - 1) = 0"
  proof -
    have "\<not> (512 < unat w \<and> unat w < 1024)" "\<not> (1024 < unat w \<and> unat w < 2048)" "\<not> (2048 < unat w \<and> unat w < 4096)"
      using not_power [of 9 w] not_power [of 10 w] not_power [of 11 w] that(3) by auto
    with that(1,2) show ?thesis by (simp only: insert_iff empty_iff) linarith
  qed
  ultimately show ?thesis unfolding word_less_nat_alt by auto
qed

lemma is_fat_fs_like:
  assumes "load_list m a 512 = slice disk p 512"
  shows "is_fat_fs a m \<longleftrightarrow> fat_like disk p"
proof -
  let ?w = "ucast (le16 m (a + 0x0b)) :: u32"
  have w: "unat ?w = disk_le16 disk (p + 11)"
    using sector_fields(2) [OF assms, of 11] disk_le16_less [of disk "p + 11"] by (simp add: unsigned_ucast_eq take_bit_nat_eq_self)
  have "m (a + 0x15) = disk (p + 21)" using sector_fields(1) [OF assms, of 21] by simp
  then show ?thesis unfolding is_fat_fs_def Let_def power_check w fat_like_def by (auto simp: not_less)
qed


text \<open>The arithmetic of \<^verbatim>\<open>fat_init_fs\<close> does not wrap on a complete volume.\<close>

lemma unat_add_fits: "unat a + unat b < 2 ^ LENGTH('a) \<Longrightarrow> unat (a + b :: 'a :: len word) = unat a + unat b"
  by (subst unat_add_lem [THEN iffD1]) simp_all

lemma unat_mult_fits: "unat a * unat b < 2 ^ LENGTH('a) \<Longrightarrow> unat (a * b :: 'a :: len word) = unat a * unat b"
  by (subst unat_mult_lem [THEN iffD1]) simp_all

lemma root_sectors_word:
  fixes ew bw :: u32
  assumes "unat ew < 2 ^ 16" and "0 < unat bw" and "unat bw < 2 ^ 16"
  shows "unat ((0x20 * ew + bw - 1) div bw) = (32 * unat ew + unat bw - 1) div unat bw"
proof -
  have 1: "unat (0x20 * ew) = 32 * unat ew" using assms(1) by (subst unat_mult_fits) simp_all
  then have 2: "unat (0x20 * ew + bw) = 32 * unat ew + unat bw" using assms by (subst unat_add_fits) simp_all
  then have "unat (0x20 * ew + bw - 1) = 32 * unat ew + unat bw - 1" using assms(2) by (subst unat_sub) (simp_all add: word_le_nat_alt)
  then show ?thesis by (simp add: unat_div)
qed

lemma geometry_words:
  fixes bw sw rw fw ew tw pw :: u32
  assumes "b_bps b = unat bw" and "b_spc b = unat sw" and "b_reserved b = unat rw" and "fat_count b = unat fw" and "root_count b = unat ew"
    and "b_total b = unat tw" and "per_fat b = unat pw" and "unat ew < 2 ^ 16" and "0 < unat bw" and "unat bw < 2 ^ 16" and "data_start b < b_total b"
  shows "unat (rw + pw * fw) = root_start b" and "unat (rw + pw * fw + (0x20 * ew + bw - 1) div bw) = data_start b"
    and "unat ((tw - (rw + pw * fw + (0x20 * ew + bw - 1) div bw)) div sw) = cluster_count b"
proof -
  have t: "unat tw < 2 ^ 32" using unsigned_less [of tw, where ?'a = nat] by simp
  have d: "unat rw + unat pw * unat fw + (32 * unat ew + unat bw - 1) div unat bw < unat tw"
    using assms by (simp add: data_start_def root_start_def)
  then have "unat (pw * fw) = unat pw * unat fw" using t by (intro unat_mult_fits) simp
  then show r: "unat (rw + pw * fw) = root_start b" using d t assms by (subst unat_add_fits) (simp_all add: root_start_def)
  show e: "unat (rw + pw * fw + (0x20 * ew + bw - 1) div bw) = data_start b"
    using d t assms(1-10) r root_sectors_word [OF assms(8-10)] by (subst unat_add_fits) (simp_all add: root_start_def data_start_def)
  show "unat ((tw - (rw + pw * fw + (0x20 * ew + bw - 1) div bw)) div sw) = cluster_count b"
    using e assms(2,6,11) by (simp add: unat_div cluster_count_def unat_sub word_le_nat_alt)
qed

lemma unat_ucast_up32: "unat (ucast (w :: u16) :: u32) = unat w" "unat (ucast (v :: u8) :: u32) = unat v" "unat (ucast (u :: u32) :: u64) = unat u"
  using unsigned_less [of w, where ?'a = nat] unsigned_less [of v, where ?'a = nat] unsigned_less [of u, where ?'a = nat]
  by (simp_all add: unsigned_ucast_eq take_bit_nat_eq_self)

lemma offset_word:
  assumes "unat (b :: u32) < 2 ^ 16"
  shows "unat (ucast b * ucast (w :: u32) :: u64) = unat b * unat w"
proof -
  have "unat b * unat w \<le> 2 ^ 16 * 2 ^ 32"
    using assms unsigned_less [of w, where ?'a = nat] by (intro mult_le_mono) simp_all
  then show ?thesis by (subst unat_mult_fits) (simp_all add: unat_ucast_up32)
qed

lemma fat_init_fs_volume:
  assumes l: "load_list (fmem s) sb 512 = slice disk p 512" and like: "fat_like disk p" and c: "volume_complete (bpb_at disk p) p nsec"
    and s: "unat (partition_start_offset s) = p"
  shows "\<exists>s'. fat_init_fs sb s = Some (0, s') \<and> volume_fs (dev s) disk p s' \<and> fmem s' = fmem s \<and> current s' = current s"
proof -
  let ?m = "fmem s" and ?b = "bpb_at disk p"
  define bw sw rw fw ew :: u32 where w: "bw = ucast (le16 ?m (sb + 0x0b))" "sw = ucast (?m (sb + 0x0d))" "rw = ucast (le16 ?m (sb + 0x0e))"
    "fw = ucast (?m (sb + 0x10))" "ew = ucast (le16 ?m (sb + 0x11))"
  define tw :: u32 where tw: "tw = (let t = ucast (le16 ?m (sb + 0x13)) in if t = 0 then le32 ?m (sb + 0x20) else t)"
  define pw :: u32 where pw: "pw = (let t = ucast (le16 ?m (sb + 0x16)) in if t = 0 then le32 ?m (sb + 0x24) else t)"
  note f = sector_fields [OF l]
  have u: "b_bps ?b = unat bw" "b_spc ?b = unat sw" "b_reserved ?b = unat rw" "fat_count ?b = unat fw" "root_count ?b = unat ew"
    using f(2) [of 11] f(1) [of 13] f(2) [of 14] f(1) [of 16] f(2) [of 17] by (simp_all add: bpb_at_def w unat_ucast_up32)
  have z: "(ucast (x :: u16) :: u32) = 0 \<longleftrightarrow> unat x = 0" for x by (simp add: word_unat_eq_iff unat_ucast_up32)
  have ut: "b_total ?b = unat tw" using f(2) [of 19] f(3) [of 32] by (simp add: bpb_at_def tw z unat_ucast_up32 Let_def)
  have up: "per_fat ?b = unat pw" using f(2) [of 22] f(3) [of 36] by (simp add: bpb_at_def pw z unat_ucast_up32 Let_def)
  have ur: "root_first ?b = unat (ucast (le32 ?m (sb + 0x2c)) :: u64)" using f(3) [of 44] by (simp add: bpb_at_def unat_ucast_up32)
  have e: "unat ew < 2 ^ 16" unfolding w unat_ucast_up32 using unsigned_less [of "le16 ?m (sb + 0x11)", where ?'a = nat] by simp
  have b: "512 \<le> unat bw" "unat bw < 2 ^ 16" using like u(1) by (auto simp: fat_like_def bpb_at_def)
  have d: "data_start ?b < b_total ?b" "0 < unat sw" using c u by (simp_all add: volume_complete_def)
  have b0: "0 < unat bw" using b by simp
  note g = geometry_words [OF u ut up e b0 b(2) d(1)]
  have sw: "unat sw \<le> 255" using unsigned_less [of "?m (sb + 0x0d)", where ?'a = nat] by (simp add: w unat_ucast_up32)
  have bs: "unat (bw * sw) = unat bw * unat sw"
    using mult_le_mono [of "unat bw" "2 ^ 16" "unat sw" 255] b(2) sw by (intro unat_mult_fits) simp
  have nz: "\<not> (bw = 0 \<or> sw = 0)" using b0 d(2) by (auto simp: unat_gt_0)
  define cw where "cw = (tw - (rw + pw * fw + (0x20 * ew + bw - 1) div bw)) div sw"
  define ft :: u32 where "ft = (if cw < 0x0ff5 then 12 else if cw < 0xfff5 then 16 else 32)"
  have ft: "unat ft = entry_bits ?b" using g(3) by (simp add: ft_def entry_bits_def word_less_nat_alt cw_def)
  have ft32: "ft = 32 \<longleftrightarrow> entry_bits ?b = 32" using ft by (simp add: word_unat_eq_iff)
  define s' where "s' = s\<lparr>bytes_per_cluster := bw * sw, root_entries := ew, clusters := cw, fat_type := ft,
    fat_offset := ucast bw * ucast rw, root_offset := (if ft = 32 then ucast (le32 ?m (sb + 0x2c)) else ucast bw * ucast (rw + pw * fw)),
    data_offset := ucast bw * ucast (rw + pw * fw + (0x20 * ew + bw - 1) div bw)\<rparr>"
  have "fat_init_fs sb s = Some (0, s')"
    using nz unfolding fat_init_fs_def w [symmetric] Let_def tw [unfolded Let_def, symmetric] pw [unfolded Let_def, symmetric]
    by (simp add: s'_def cw_def ft_def)
  moreover have "volume_fs (dev s) disk p s'"
    using s u ft ft32 ur bs e g by (simp add: volume_fs_def s'_def Let_def cw_def offset_word [OF b(2)])
  ultimately show ?thesis by (auto simp: s'_def)
qed


text \<open>Table and clusters of a complete volume are on the disk.\<close>

lemma volume_geom:
  assumes good: "good_dev E d disk nsec" and v: "volume_fs d disk p s" and like: "fat_like disk p" and c: "volume_complete (bpb_at disk p) p nsec"
    and r: "region (raw_buf E) 512 \<inter> region (fat_at E) 4 = {}"
  shows "fs_geom E disk nsec s"
proof -
  define b where "b = bpb_at disk p"
  note v = v [unfolded volume_fs_def Let_def, folded b_def]
  note c = c [unfolded volume_complete_def, folded b_def]
  have b_bps: "512 \<le> b_bps b" using like by (auto simp: fat_like_def b_def bpb_at_def)
  have ty: "entry_bits b = 12 \<or> entry_bits b = 16 \<or> entry_bits b = 32" by (simp add: entry_bits_def)
  then have ft: "fat_type s = 12 \<or> fat_type s = 16 \<or> fat_type s = 32" using v by (simp add: word_unat_eq_iff)
  have "0 < b_bps b * b_spc b" using b_bps c by simp
  then have bc: "0 < bytes_per_cluster s" using v by (simp add: word_less_nat_alt)
  have "(cluster_count b + 2) * entry_bits b \<le> 2 ^ 27 * 32" using c ty by (intro mult_le_mono) auto
  then have small: "(unat (clusters s) + 2) * unat (fat_type s) \<le> 2 ^ 32" using v by simp
  have "per_fat b \<le> per_fat b * fat_count b" using c by simp
  moreover have "b_reserved b + per_fat b * fat_count b < b_total b" using c by (simp add: data_start_def root_start_def)
  ultimately have "b_reserved b + per_fat b + 1 \<le> b_total b" by linarith
  then have "b_bps b * (b_reserved b + per_fat b + 1) \<le> b_bps b * b_total b" by (rule mult_le_mono2)
  then have "b_bps b * b_reserved b + b_bps b * per_fat b + b_bps b \<le> b_bps b * b_total b" by (simp add: distrib_left)
  moreover have "(cluster_count b + 2) * entry_bits b div 8 \<le> b_bps b * per_fat b"
    using c div_le_mono [of "(cluster_count b + 2) * entry_bits b" "8 * (b_bps b * per_fat b)" 8] by simp
  ultimately have table: "p + b_bps b * b_reserved b + (cluster_count b + 2) * entry_bits b div 8 + 4 \<le> 512 * nsec"
    using c b_bps by linarith
  have "b_spc b * cluster_count b \<le> b_total b - data_start b" unfolding cluster_count_def by (rule times_div_less_eq_dividend)
  then have "data_start b + b_spc b * cluster_count b \<le> b_total b" using c by linarith
  then have "b_bps b * (data_start b + b_spc b * cluster_count b) \<le> b_bps b * b_total b" by (rule mult_le_mono2)
  then have data: "p + b_bps b * data_start b + b_bps b * b_spc b * cluster_count b \<le> 512 * nsec"
    using c by (simp add: distrib_left mult.assoc)
  show ?thesis using good r ft bc small table data v by (simp add: fs_geom_def table_at_def)
qed

text \<open>Reading a sector of the disk into the buffer on the stack of \<^verbatim>\<open>fat_init\<close>.\<close>

lemma read_boot_sector:
  assumes "good_dev E (dev s) disk nsec" and "cache_ok E disk nsec s" and "region (raw_buf E) 512 \<inter> region (sb_at E) 512 = {}"
    and "unat (partition_start_offset s) + 512 \<le> 512 * nsec"
  shows "\<exists>s'. read E (sb_at E) 0 0x200 s = (0, s') \<and> cache_ok E disk nsec s' \<and> dev s' = dev s
    \<and> load_list (fmem s') (sb_at E) 512 = slice disk (unat (partition_start_offset s)) 512
    \<and> partition_start_offset s' = partition_start_offset s"
proof -
  obtain s' where "read E (sb_at E) 0 0x200 s = (0, s')" "only_memory s s'"
    "delivers E disk nsec (sb_at E) (unat (partition_start_offset s)) 512 s s'"
    using read_correct [OF assms(1,2), of "sb_at E" "0x200" 0] assms(3,4) by auto
  then show ?thesis by (simp add: delivers_def only_memory_fields)
qed

lemma mount_facts:
  fixes E :: "'b fat_env"
  assumes good: "good_dev E d disk nsec" and cache: "cache_ok E disk nsec s"
    and reg: "region (raw_buf E) 512 \<inter> region (sb_at E) 512 = {}" "region (raw_buf E) 512 \<inter> region (fat_at E) 4 = {}"
    and vol: "volume_at disk p" and c: "volume_complete (bpb_at disk p) p nsec"
  shows "\<exists>s'. fat_init E d s = Some (0, s') \<and> fs_ok E disk nsec s' \<and> volume_fs d disk p s'"
proof -
  let ?s0 = "s\<lparr>dev := d, partition_start_offset := 0\<rparr>"
  have like: "fat_like disk p" using vol by (auto simp: volume_at_def split: if_splits)
  have "512 \<le> b_bps (bpb_at disk p)" using like by (auto simp: fat_like_def bpb_at_def)
  moreover have "0 < b_total (bpb_at disk p)" using c by (simp add: volume_complete_def)
  ultimately have "512 * 1 \<le> b_bps (bpb_at disk p) * b_total (bpb_at disk p)" by (intro mult_le_mono) simp_all
  then have p: "p + 512 \<le> 512 * nsec" using c by (simp add: volume_complete_def)
  have finish: "\<exists>s'. fat_init_fs (sb_at E) s1 = Some (0, s') \<and> fs_ok E disk nsec s' \<and> volume_fs d disk p s'"
    if s1: "load_list (fmem s1) (sb_at E) 512 = slice disk p 512" "unat (partition_start_offset s1) = p" "dev s1 = d" "cache_ok E disk nsec s1"
    for s1 :: "'b fat_state"
  proof -
    obtain s' where s': "fat_init_fs (sb_at E) s1 = Some (0, s')" "volume_fs d disk p s'" "fmem s' = fmem s1" "current s' = current s1"
      using fat_init_fs_volume [OF s1(1) like c s1(2)] s1(3) by auto
    then show ?thesis using volume_geom [OF good s'(2) like c reg(2)] s1(4) by (simp add: fs_ok_def cache_ok_def)
  qed
  have "good_dev E (dev ?s0) disk nsec" "cache_ok E disk nsec ?s0" using good cache by (simp_all add: cache_ok_def)
  from read_boot_sector [OF this reg(1)] p obtain s1 where s1: "read E (sb_at E) 0 0x200 ?s0 = (0, s1)" "cache_ok E disk nsec s1" "dev s1 = d"
    "load_list (fmem s1) (sb_at E) 512 = slice disk 0 512" "partition_start_offset s1 = 0" by auto
  note f = sector_fields [OF s1(4)]
  have sig: "le16 (fmem s1) (sb_at E + 0x01fe) = 0xaa55" using f(2) [of 510] vol by (simp add: volume_at_def word_unat_eq_iff)
  show ?thesis
  proof (cases "fat_like disk 0")
    case True
    then have "p = 0" using vol by (simp add: volume_at_def)
    with finish [of s1] s1 sig True is_fat_fs_like [OF s1(4)] show ?thesis by (simp add: fat_init_def Let_def)
  next
    case False
    let ?p = "0x200 * ucast (le32 (fmem s1) (sb_at E + 0x01c6)) :: u64"
    let ?s2 = "s1\<lparr>partition_start_offset := ?p\<rparr>"
    have pe: "disk 450 \<noteq> 0" "p = 512 * disk_le32 disk 454" using vol False by (auto simp: volume_at_def)
    have up: "unat ?p = p"
      using f(3) [of 454] pe(2) offset_word [of "0x200" "le32 (fmem s1) (sb_at E + 0x01c6)"] by (simp add: unat_ucast_up32)
    have "good_dev E (dev ?s2) disk nsec" "cache_ok E disk nsec ?s2" using good s1(2,3) by (simp_all add: cache_ok_def)
    from read_boot_sector [OF this reg(1)] p up obtain s3 where s3: "read E (sb_at E) 0 0x200 ?s2 = (0, s3)" "cache_ok E disk nsec s3"
      "dev s3 = d" "load_list (fmem s3) (sb_at E) 512 = slice disk p 512" "unat (partition_start_offset s3) = p"
      using s1(3) by auto
    have "fmem s1 (sb_at E + 0x01c2) \<noteq> 0" using f(1) [of 450] pe(1) by simp
    with finish [of s3] s1(1) s3 sig False is_fat_fs_like [OF s1(4)] is_fat_fs_like [OF s3(4)] like show ?thesis
      by (simp add: fat_init_def Let_def)
  qed
qed

text \<open>A disk without a volume is refused.\<close>

lemma no_volume_facts:
  fixes E :: "'b fat_env"
  assumes good: "good_dev E d disk nsec" and cache: "cache_ok E disk nsec s"
    and reg: "region (raw_buf E) 512 \<inter> region (sb_at E) 512 = {}"
    and vol: "\<nexists>p. volume_at disk p" and n: "0 < nsec" "disk_le32 disk 454 < nsec"
  shows "\<exists>s'. fat_init E d s = Some (- 1, s')"
proof -
  let ?s0 = "s\<lparr>dev := d, partition_start_offset := 0\<rparr>"
  have "good_dev E (dev ?s0) disk nsec" "cache_ok E disk nsec ?s0" using good cache by (simp_all add: cache_ok_def)
  from read_boot_sector [OF this reg(1)] n(1) obtain s1 where s1: "read E (sb_at E) 0 0x200 ?s0 = (0, s1)" "cache_ok E disk nsec s1" "dev s1 = d"
    "load_list (fmem s1) (sb_at E) 512 = slice disk 0 512" by auto
  note f = sector_fields [OF s1(4)]
  have sig: "le16 (fmem s1) (sb_at E + 0x01fe) = 0xaa55 \<longleftrightarrow> disk_le16 disk 510 = 0xaa55" using f(2) [of 510] by (simp add: word_unat_eq_iff)
  let ?p = "0x200 * ucast (le32 (fmem s1) (sb_at E + 0x01c6)) :: u64"
  let ?s2 = "s1\<lparr>partition_start_offset := ?p\<rparr>"
  have up: "unat ?p = 512 * disk_le32 disk 454"
    using f(3) [of 454] offset_word [of "0x200" "le32 (fmem s1) (sb_at E + 0x01c6)"] by (simp add: unat_ucast_up32)
  have "good_dev E (dev ?s2) disk nsec" "cache_ok E disk nsec ?s2" using good s1(2,3) by (simp_all add: cache_ok_def)
  from read_boot_sector [OF this reg(1)] n(2) up obtain s3 where s3: "read E (sb_at E) 0 0x200 ?s2 = (0, s3)"
    "load_list (fmem s3) (sb_at E) 512 = slice disk (512 * disk_le32 disk 454) 512" by auto
  have "disk_le16 disk 510 \<noteq> 0xaa55 \<or> \<not> fat_like disk 0 \<and> (disk 450 = 0 \<or> \<not> fat_like disk (512 * disk_le32 disk 454))"
    using vol by (auto simp: volume_at_def split: if_splits)
  then show ?thesis using s1(1) s3(1) sig is_fat_fs_like [OF s1(4)] is_fat_fs_like [OF s3(2)] f(1) [of 450]
    by (auto simp: fat_init_def Let_def)
qed

text \<open>A disk with a partition table, whose first partition, from sector 1 on, is a volume with 12-bit entries.\<close>

definition part_disk :: "nat \<Rightarrow> u8" where
  "part_disk i = (if i = 450 then 6 else if i = 454 then 1 else if i = 510 then 0x55 else if i = 511 then 0xaa
     else if i = 524 then 2 else if i = 525 then 1 else if i = 526 then 1 else if i = 528 then 1 else if i = 529 then 16
     else if i = 531 then 15 else if i = 533 then 0xf8 else if i = 534 then 1 else 0)"

lemma part_bpb:
  "bpb_at part_disk 512 = \<lparr>b_bps = 512, b_spc = 1, b_reserved = 1, fat_count = 1, root_count = 16, b_total = 15, per_fat = 1, root_first = 0\<rparr>"
  by (simp add: bpb_at_def disk_le16_def disk_le32_def part_disk_def)

lemma part_volume: "volume_at part_disk 512" "volume_complete (bpb_at part_disk 512) 512 16"
proof -
  have "\<not> fat_like part_disk 0" "fat_like part_disk 512" by (simp_all add: fat_like_def disk_le16_def part_disk_def)
  then show "volume_at part_disk 512" by (simp add: volume_at_def disk_le16_def disk_le32_def part_disk_def)
  show "volume_complete (bpb_at part_disk 512) 512 16"
    by (simp add: part_bpb volume_complete_def cluster_count_def data_start_def root_start_def entry_bits_def)
qed

section \<open>Properties\<close>

text \<open>C5: Mounting. On a working drive whose disk, or whose first partition, is a complete FAT volume, \<^verbatim>\<open>fat_init\<close> returns 0 and leaves a
  file system that reading and opening files can rely on, with the table, the root directory, the clusters and the width of the entries
  where the format has them; a disk with neither is refused with -1.\<close>

theorem fat_mounts:
  assumes "good_dev E d disk nsec" and "cache_ok E disk nsec s"
    and "region (raw_buf E) 512 \<inter> region (sb_at E) 512 = {}" and "region (raw_buf E) 512 \<inter> region (fat_at E) 4 = {}"
  shows "(\<forall>p. volume_at disk p \<and> volume_complete (bpb_at disk p) p nsec \<longrightarrow>
      (\<exists>s'. fat_init E d s = Some (0, s') \<and> fs_ok E disk nsec s' \<and> volume_fs d disk p s'))
    \<and> ((\<nexists>p. volume_at disk p) \<and> 0 < nsec \<and> disk_le32 disk 454 < nsec \<longrightarrow> (\<exists>s'. fat_init E d s = Some (- 1, s')))"
  using mount_facts [OF assms] no_volume_facts [OF assms(1-3)] by blast

theorem fat_mounts_witness:
  "\<exists>s'. fat_init (demo_env part_disk) () demo_fs = Some (0, s') \<and> fs_ok (demo_env part_disk) part_disk 16 s'
     \<and> unat (data_offset s') = 1536 \<and> unat (clusters s') = 12 \<and> unat (fat_type s') = 12"
proof -
  have c: "cache_ok (demo_env part_disk) part_disk 16 demo_fs" by (simp add: cache_ok_def demo_fs_def)
  have r: "region (raw_buf (demo_env part_disk)) 512 \<inter> region (sb_at (demo_env part_disk)) 512 = {}"
    by (rule region_disjoint_nat(1)) (simp_all add: demo_env_def)
  obtain s' where s': "fat_init (demo_env part_disk) () demo_fs = Some (0, s')" "fs_ok (demo_env part_disk) part_disk 16 s'"
    "volume_fs () part_disk 512 s'"
    using fat_mounts [OF demo_good c r demo_regions(1)] part_volume by blast
  then show ?thesis
    by (simp add: volume_fs_def Let_def part_bpb cluster_count_def data_start_def root_start_def entry_bits_def)
qed

end
