(* ===== verification/Xell_Time.thy ===== *)
theory Xell_Time
  imports Xell_Prelude
begin
unbundle bit_operations_syntax

section \<open>The time base and the delays\<close>

text \<open>
  \<^verbatim>\<open>src/time.c\<close> and the macros of \<^verbatim>\<open>src/include/processor.h\<close> it uses.
\<close>

record tb =
  tb_l :: u64
  tb_u :: u64

definition TB_CLOCK :: u64 where "TB_CLOCK = 45000000"

text \<open>
  The time base is a 64-bit counter; \<open>clock k\<close> is its value at the \<open>k\<close>-th instruction that reads it.
  \<^verbatim>\<open>mftbu\<close> gives its upper half, \<^verbatim>\<open>mftb\<close> all of it. \<open>mftb\<close> returns the pair and the number of the next
  instruction.
\<close>

partial_function (option) mftb :: "(nat \<Rightarrow> u64) \<Rightarrow> nat \<Rightarrow> (tb \<times> nat) option" where
  "mftb clock k =
     (let u = drop_bit 32 (clock k);
          rval = \<lparr>tb_l = clock (k + 1), tb_u = drop_bit 32 (clock (k + 2))\<rparr>
      in if u \<noteq> tb_u rval then mftb clock (k + 3) else Some (rval, k + 3))"

definition tb_upper :: "tb \<Rightarrow> tb \<Rightarrow> u64" where
  "tb_upper end' start =
     (let upper = tb_u end' - tb_u start in if tb_l start > tb_l end' then upper - 1 else upper)"

definition tb_diff_sec :: "tb \<Rightarrow> tb \<Rightarrow> u64" where
  "tb_diff_sec end' start =
     (let upper = tb_upper end' start; lower = tb_l end' - tb_l start
      in upper * (0x80000000 div (TB_CLOCK div 2)) + lower div TB_CLOCK)"

definition tb_diff_msec :: "tb \<Rightarrow> tb \<Rightarrow> u64" where
  "tb_diff_msec end' start =
     (let upper = tb_upper end' start; lower = tb_l end' - tb_l start
      in upper * (0x80000000 div (TB_CLOCK div 2000)) + lower div (TB_CLOCK div 1000))"

definition tb_diff_usec :: "tb \<Rightarrow> tb \<Rightarrow> u64" where
  "tb_diff_usec end' start =
     (let upper = tb_upper end' start; lower = tb_l end' - tb_l start
      in upper * (0x80000000 div (TB_CLOCK div 2000000)) + lower div (TB_CLOCK div 1000000))"

partial_function (option) wait_loop :: "(nat \<Rightarrow> u64) \<Rightarrow> (tb \<Rightarrow> tb \<Rightarrow> u64) \<Rightarrow> u32 \<Rightarrow> tb \<Rightarrow> nat \<Rightarrow> (tb \<times> nat) option" where
  "wait_loop clock diff t start k =
     (case mftb clock k of None \<Rightarrow> None
      | Some (end', k) \<Rightarrow> if diff end' start \<ge> ucast t then Some (end', k) else wait_loop clock diff t start k)"

definition wait_for :: "(nat \<Rightarrow> u64) \<Rightarrow> (tb \<Rightarrow> tb \<Rightarrow> u64) \<Rightarrow> u32 \<Rightarrow> nat \<Rightarrow> (tb \<times> tb \<times> nat) option" where
  "wait_for clock diff t k =
     (case mftb clock k of None \<Rightarrow> None
      | Some (start, k) \<Rightarrow> map_option (\<lambda>(e, k). (start, e, k)) (wait_loop clock diff t start k))"

definition udelay :: "(nat \<Rightarrow> u64) \<Rightarrow> u32 \<Rightarrow> nat \<Rightarrow> (tb \<times> tb \<times> nat) option" where
  "udelay clock us k = wait_for clock tb_diff_usec us k"

definition mdelay :: "(nat \<Rightarrow> u64) \<Rightarrow> u32 \<Rightarrow> nat \<Rightarrow> (tb \<times> tb \<times> nat) option" where
  "mdelay clock ms k = wait_for clock tb_diff_msec ms k"

definition delay :: "(nat \<Rightarrow> u64) \<Rightarrow> u32 \<Rightarrow> nat \<Rightarrow> (tb \<times> tb \<times> nat) option" where
  "delay clock s k = wait_for clock tb_diff_sec s k"

text \<open>A reading is consistent: the upper half belongs to the value, if the counter does not go back.\<close>

lemma mftb_consistent:
  assumes "mono clock" and "mftb clock k = Some (r, k')"
  shows "tb_u r = drop_bit 32 (tb_l r) \<and> (\<exists>i. k \<le> i \<and> i < k' \<and> tb_l r = clock i)"
proof -
  have "mono clock \<longrightarrow> tb_u (fst x) = drop_bit 32 (tb_l (fst x)) \<and> (\<exists>i. k \<le> i \<and> i < snd x \<and> tb_l (fst x) = clock i)"
    if "mftb clock k = Some x" for x
    using that
  proof (rule mftb.raw_induct [rotated])
    fix f :: "(nat \<Rightarrow> u64) \<Rightarrow> nat \<Rightarrow> (tb \<times> nat) option" and c k y
    let ?ok = "\<lambda>c k y. mono c \<longrightarrow> tb_u (fst y) = drop_bit 32 (tb_l (fst y)) \<and> (\<exists>i. k \<le> i \<and> i < snd y \<and> tb_l (fst y) = c i)"
    assume IH: "\<And>c k y. f c k = Some y \<Longrightarrow> ?ok c k y"
      and step: "(let u = drop_bit 32 (c k); rval = \<lparr>tb_l = c (k + 1), tb_u = drop_bit 32 (c (k + 2))\<rparr>
          in if u \<noteq> tb_u rval then f c (k + 3) else Some (rval, k + 3)) = Some y"
    show "?ok c k y"
    proof (cases "drop_bit 32 (c k) = drop_bit 32 (c (k + 2))")
      case False
      with step IH [of c "k + 3" y] show ?thesis by (auto simp: Let_def) (metis add_leD1)
    next
      case True
      then have y: "y = (\<lparr>tb_l = c (k + 1), tb_u = drop_bit 32 (c (k + 2))\<rparr>, k + 3)" using step by (simp add: Let_def)
      have "drop_bit 32 (c (k + 1)) = drop_bit 32 (c (k + 2))" if "mono c"
      proof (rule antisym)
        have le: "a \<le> b \<Longrightarrow> drop_bit 32 a \<le> drop_bit 32 b" for a b :: u64
          by (simp add: word_le_nat_alt unat_drop_bit_eq drop_bit_nat_def div_le_mono)
        show "drop_bit 32 (c (k + 1)) \<le> drop_bit 32 (c (k + 2))" using that by (intro le) (simp add: monoD)
        show "drop_bit 32 (c (k + 2)) \<le> drop_bit 32 (c (k + 1))" unfolding True [symmetric] using that by (intro le) (simp add: monoD)
      qed
      then show ?thesis unfolding y by (auto intro!: exI [of _ "k + 1"])
    qed
  qed
  from this [OF assms(2)] assms(1) show ?thesis by simp
qed

lemma wait_loop_reached:
  assumes "wait_loop clock diff t start k = Some (e, k')"
  shows "ucast t \<le> diff e start \<and> (\<exists>j. mftb clock j = Some (e, k'))"
proof -
  have "ucast t \<le> diff (fst x) start \<and> (\<exists>j. mftb clock j = Some x)" if "wait_loop clock diff t start k = Some x" for x
    using that
  proof (rule wait_loop.raw_induct [rotated])
    fix f :: "(nat \<Rightarrow> u64) \<Rightarrow> (tb \<Rightarrow> tb \<Rightarrow> u64) \<Rightarrow> u32 \<Rightarrow> tb \<Rightarrow> nat \<Rightarrow> (tb \<times> nat) option" and c d t s k y
    assume "\<And>c d t s k y. f c d t s k = Some y \<Longrightarrow> ucast t \<le> d (fst y) s \<and> (\<exists>j. mftb c j = Some y)"
      and "(case mftb c k of None \<Rightarrow> None | Some (end', k) \<Rightarrow> if ucast t \<le> d end' s then Some (end', k) else f c d t s k) = Some y"
    then show "ucast t \<le> d (fst y) s \<and> (\<exists>j. mftb c j = Some y)"
      by (cases "mftb c k") (fastforce split: if_splits prod.splits)+
  qed
  from this [OF assms] show ?thesis by simp
qed

text \<open>The interval between two readings with the same upper half.\<close>

lemma tb_diff_exact:
  assumes "tb_u e = tb_u s" and "tb_l s \<le> tb_l e"
  shows "unat (tb_diff_sec e s) = (unat (tb_l e) - unat (tb_l s)) div 45000000"
    and "unat (tb_diff_msec e s) = (unat (tb_l e) - unat (tb_l s)) div 45000"
    and "unat (tb_diff_usec e s) = (unat (tb_l e) - unat (tb_l s)) div 45"
  using assms by (simp_all add: tb_diff_sec_def tb_diff_msec_def tb_diff_usec_def tb_upper_def TB_CLOCK_def
      unat_div unat_sub)

lemma wait_for_reached:
  assumes "wait_for clock diff t k = Some (s, e, k')"
  shows "unat t \<le> unat (diff e s)"
  using assms wait_loop_reached [of clock diff t s _ e k']
  by (auto simp: wait_for_def word_le_nat_alt split: option.splits)

text \<open>While the upper half stands still, every reading succeeds at once.\<close>

lemma mftb_steady:
  assumes "drop_bit 32 (clock (k + 2)) = drop_bit 32 (clock k)"
  shows "mftb clock k = Some (\<lparr>tb_l = clock (k + 1), tb_u = drop_bit 32 (clock k)\<rparr>, k + 3)"
  using assms by (subst mftb.simps) (simp add: Let_def)

lemma wait_loop_returns:
  assumes "\<forall>i \<le> k + 3 * n + 2. drop_bit 32 (clock i) = h"
    and "ucast t \<le> diff \<lparr>tb_l = clock (k + 3 * n + 1), tb_u = h\<rparr> start"
  shows "\<exists>j. k + 1 \<le> j \<and> j \<le> k + 3 * n + 1 \<and> wait_loop clock diff t start k = Some (\<lparr>tb_l = clock j, tb_u = h\<rparr>, j + 2)"
  using assms
proof (induction n arbitrary: k)
  case 0
  then have "mftb clock k = Some (\<lparr>tb_l = clock (k + 1), tb_u = h\<rparr>, k + 3)" by (simp add: mftb_steady)
  with 0 show ?case by (subst wait_loop.simps) (auto intro!: exI [of _ "k + 1"])
next
  case (Suc n)
  then have m: "mftb clock k = Some (\<lparr>tb_l = clock (k + 1), tb_u = h\<rparr>, k + 3)" by (simp add: mftb_steady)
  show ?case
  proof (cases "ucast t \<le> diff \<lparr>tb_l = clock (k + 1), tb_u = h\<rparr> start")
    case True
    with m show ?thesis by (subst wait_loop.simps) (auto intro!: exI [of _ "k + 1"])
  next
    case False
    obtain j where "k + 3 + 1 \<le> j" "j \<le> k + 3 + 3 * n + 1"
        "wait_loop clock diff t start (k + 3) = Some (\<lparr>tb_l = clock j, tb_u = h\<rparr>, j + 2)"
      using Suc.IH [of "k + 3"] Suc.prems by (auto simp: add.commute add.left_commute)
    with m False show ?thesis by (subst wait_loop.simps) (auto intro!: exI [of _ j])
  qed
qed

lemma wait_for_returns:
  assumes "mono clock" and "\<forall>i \<le> k + 3 * n + 5. drop_bit 32 (clock i) = h"
    and exact: "\<And>e s. tb_u e = tb_u s \<Longrightarrow> tb_l s \<le> tb_l e \<Longrightarrow> unat (diff e s) = (unat (tb_l e) - unat (tb_l s)) div m"
    and "0 < m" and "m * unat t \<le> unat (clock (k + 3 * n + 4)) - unat (clock (k + 1))"
  shows "\<exists>s e k'. wait_for clock diff t k = Some (s, e, k') \<and> tb_l s = clock (k + 1) \<and> k' \<le> k + 3 * n + 6
    \<and> m * unat t \<le> unat (tb_l e) - unat (tb_l s)"
proof -
  let ?s = "\<lparr>tb_l = clock (k + 1), tb_u = h\<rparr>"
  have m: "mftb clock k = Some (?s, k + 3)" using assms(2) by (simp add: mftb_steady)
  have ex: "unat (diff \<lparr>tb_l = clock j, tb_u = h\<rparr> ?s) = (unat (clock j) - unat (clock (k + 1))) div m" if "k + 1 \<le> j" for j
    using monoD [OF assms(1) that] by (subst exact) simp_all
  have "ucast t \<le> diff \<lparr>tb_l = clock (k + 3 + 3 * n + 1), tb_u = h\<rparr> ?s"
    using assms(4,5) ex [of "k + 3 * n + 4"]
    by (simp add: word_le_nat_alt less_eq_div_iff_mult_less_eq algebra_simps)
  from wait_loop_returns [where k = "k + 3" and n = n and h = h and clock = clock and diff = diff and t = t and start = ?s, OF _ this] assms(2)
  obtain j where j: "k + 4 \<le> j" "j \<le> k + 3 * n + 4"
      "wait_loop clock diff t ?s (k + 3) = Some (\<lparr>tb_l = clock j, tb_u = h\<rparr>, j + 2)" by auto
  then have w: "wait_for clock diff t k = Some (?s, \<lparr>tb_l = clock j, tb_u = h\<rparr>, j + 2)" using m by (simp add: wait_for_def)
  from wait_for_reached [OF this] j ex [of j] assms(4)
  have "m * unat t \<le> unat (clock j) - unat (clock (k + 1))" by (simp add: less_eq_div_iff_mult_less_eq mult.commute)
  with w j show ?thesis by auto
qed



text \<open>\<^verbatim>\<open>mftb\<close> reads all 64 bits of the counter, and the differences add the upper half to it once more: across
  a carry into the upper half the microseconds come out 97612893 too many, so that a delay that meets the carry
  ends at once.\<close>

lemma tb_upper_counted_twice:
  assumes "tb_u s = drop_bit 32 (tb_l s)" and "tb_u e = drop_bit 32 (tb_l e)"
    and "tb_u e = tb_u s + 1" and "tb_l s \<le> tb_l e" and "unat (tb_l e) - unat (tb_l s) < 2 ^ 33"
  shows "unat (tb_diff_usec e s) = 97612893 + (unat (tb_l e) - unat (tb_l s)) div 45"
proof -
  let ?d = "unat (tb_l e) - unat (tb_l s)"
  have "tb_upper e s = 1" using assms(3,4) by (simp add: tb_upper_def Let_def)
  then have "tb_diff_usec e s = 97612893 + (tb_l e - tb_l s) div 45" by (simp add: tb_diff_usec_def TB_CLOCK_def)
  moreover have "unat ((tb_l e - tb_l s) div 45) = ?d div 45" using assms(4) by (simp add: unat_div unat_sub)
  moreover have "?d div 45 < 2 ^ 33" using assms(5) div_le_dividend [of ?d 45] by linarith
  ultimately show ?thesis by (simp add: unat_word_ariths)
qed

theorem tb_upper_counted_twice_witness:
  "unat (tb_diff_usec \<lparr>tb_l = 0x100000005, tb_u = 1\<rparr> \<lparr>tb_l = 0xFFFFFFF0, tb_u = 0\<rparr>) = 97612893"
  using tb_upper_counted_twice [of "\<lparr>tb_l = 0xFFFFFFF0, tb_u = 0\<rparr>" "\<lparr>tb_l = 0x100000005, tb_u = 1\<rparr>"]
  by (simp add: drop_bit_eq_div)

end
