(* ===== verification/Xell_Diskio.thy ===== *)
theory Xell_Diskio
  imports Xell_Vsprintf
begin

section \<open>The registry of block devices\<close>

text \<open>
  \<^verbatim>\<open>src/diskio.c\<close>. A device is its context and its operations (of any types), a name, the first sector and the
  mark of an unplugged device. The array \<^verbatim>\<open>devices\<close> is a list of \<open>MAX_DEVICES\<close> entries; a pointer into it is an index,
  the null pointer \<open>None\<close>. A name is the string in the array of 32 bytes; storing a longer one is undefined,
  and the operation is then \<open>None\<close>.
\<close>

record ('c, 'o) bdev =
  bdev_ctx :: "'c option"
  bdev_name :: "u8 list"
  bdev_offset :: u64
  bdev_ops :: "'o option"
  bdev_disabled :: bool

type_synonym ('c, 'o) devices = "('c, 'o) bdev list"

definition MAX_DEVICES :: nat where "MAX_DEVICES = 16"

definition NAME_SIZE :: nat where "NAME_SIZE = 32"

definition bdev_zero :: "('c, 'o) bdev" where
  "bdev_zero = \<lparr>bdev_ctx = None, bdev_name = [], bdev_offset = 0, bdev_ops = None, bdev_disabled = False\<rparr>"

definition devices_init :: "('c, 'o) devices" where
  "devices_init = replicate MAX_DEVICES bdev_zero"

text \<open>The loops over the array: the first entry with a property, at or after \<open>i\<close>.\<close>

fun scan_devices :: "('a \<Rightarrow> bool) \<Rightarrow> nat \<Rightarrow> 'a list \<Rightarrow> nat option" where
  "scan_devices P i [] = None"
| "scan_devices P i (d # ds) = (if P d then Some i else scan_devices P (i + 1) ds)"

definition set_name :: "u8 list \<Rightarrow> ('c, 'o) bdev \<Rightarrow> ('c, 'o) bdev option" where
  "set_name name d = (if length name < NAME_SIZE then Some (d\<lparr>bdev_name := name\<rparr>) else None)"

definition register_bdev ::
  "'c option \<Rightarrow> 'o option \<Rightarrow> u8 list \<Rightarrow> ('c, 'o) devices \<Rightarrow> (nat option \<times> ('c, 'o) devices) option" where
  "register_bdev ctx ops name ds =
     (case scan_devices (\<lambda>d. bdev_ops d = None) 0 ds of
        None \<Rightarrow> Some (None, ds)
      | Some i \<Rightarrow> (case set_name name ((ds ! i)\<lparr>bdev_ctx := ctx\<rparr>) of
          None \<Rightarrow> None
        | Some d \<Rightarrow> Some (Some i, ds[i := d\<lparr>bdev_ops := ops\<rparr>])))"

definition register_bdev_child ::
  "nat \<Rightarrow> u64 \<Rightarrow> u32 \<Rightarrow> ('c, 'o) devices \<Rightarrow> (nat option \<times> ('c, 'o) devices) option" where
  "register_bdev_child parent offset index ds =
     (case register_bdev (bdev_ctx (ds ! parent)) (bdev_ops (ds ! parent)) [] ds of
        None \<Rightarrow> None
      | Some (None, ds) \<Rightarrow> Some (None, ds)
      | Some (Some c, ds) \<Rightarrow>
          (case sprintf (bytes ''%s%d'') [VStr (Some (bdev_name (ds ! parent))), VInt index] of
             None \<Rightarrow> None
           | Some (name, _) \<Rightarrow>
               (case set_name name (ds ! c) of
                  None \<Rightarrow> None
                | Some d \<Rightarrow> Some (Some c, ds[c := d\<lparr>bdev_offset := offset\<rparr>]))))"

definition unregister_bdev :: "nat \<Rightarrow> ('c, 'o) devices \<Rightarrow> ('c, 'o) devices" where
  "unregister_bdev i ds = ds[i := (ds ! i)\<lparr>bdev_disabled := True\<rparr>]"

definition bdev_open :: "u8 list \<Rightarrow> ('c, 'o) devices \<Rightarrow> nat option" where
  "bdev_open name ds = scan_devices (\<lambda>d. bdev_name d = name) 0 ds"

section \<open>What the registry promises\<close>

lemma scan_devices_Some:
  "scan_devices P i ds = Some j \<longleftrightarrow> i \<le> j \<and> j - i < length ds \<and> P (ds ! (j - i)) \<and> (\<forall>k < j - i. \<not> P (ds ! k))"
proof (induction ds arbitrary: i)
  case (Cons d ds)
  show ?case
  proof (cases "P d")
    case True
    then show ?thesis by (auto simp: nth_Cons' less_Suc_eq_0_disj)
  next
    case False
    show ?thesis
    proof (cases "i < j")
      case True
      then have "j - i = Suc (j - Suc i)" by simp
      with False Cons.IH [of "i + 1"] True show ?thesis by (auto simp: less_Suc_eq_0_disj)
    next
      case False
      with \<open>\<not> P d\<close> Cons.IH [of "i + 1"] show ?thesis by auto
    qed
  qed
qed simp

lemma scan_devices_None: "scan_devices P i ds = None \<longleftrightarrow> (\<forall>d \<in> set ds. \<not> P d)"
  by (induction ds arbitrary: i) auto

lemma scan_devices_first:
  "scan_devices P 0 ds = Some j \<longleftrightarrow> j < length ds \<and> P (ds ! j) \<and> (\<forall>k < j. \<not> P (ds ! k))"
  by (simp add: scan_devices_Some)

text \<open>Replacing an entry that is not looked for by another that is not looked for changes no search.\<close>

lemma scan_devices_update:
  assumes "j < length ds" and "\<not> P (ds ! j)" and "\<not> P d"
  shows "scan_devices P i (ds[j := d]) = scan_devices P i ds"
  using assms by (induction ds arbitrary: i j) (auto simp: nth_Cons split: nat.splits)

text \<open>Entries without operations are as the loader's zeroed memory has them; every name fits.\<close>

definition devices_ok :: "('c, 'o) devices \<Rightarrow> bool" where
  "devices_ok ds \<longleftrightarrow> length ds = MAX_DEVICES
     \<and> (\<forall>d \<in> set ds. (bdev_ops d = None \<longrightarrow> d = bdev_zero) \<and> length (bdev_name d) < NAME_SIZE)"

lemma devices_ok_init: "devices_ok devices_init"
  by (simp add: devices_ok_def devices_init_def bdev_zero_def NAME_SIZE_def)

lemma devices_ok_update:
  assumes "devices_ok ds" and "bdev_ops d \<noteq> None" and "length (bdev_name d) < NAME_SIZE"
  shows "devices_ok (ds[i := d])"
  using assms set_update_subset_insert [of ds i d] by (auto simp: devices_ok_def)

lemma unregister_ok: "devices_ok ds \<Longrightarrow> bdev_ops (ds ! i) \<noteq> None \<Longrightarrow> i < length ds \<Longrightarrow> devices_ok (unregister_bdev i ds)"
  unfolding unregister_bdev_def by (rule devices_ok_update) (simp_all add: devices_ok_def)

text \<open>What it means that a new entry \<open>d\<close> has been put into a free slot of \<open>ds\<close>.\<close>

definition registered :: "('c, 'o) devices \<Rightarrow> ('c, 'o) bdev \<Rightarrow> nat \<Rightarrow> ('c, 'o) devices \<Rightarrow> bool" where
  "registered ds d i ds' \<longleftrightarrow> i < MAX_DEVICES \<and> bdev_ops (ds ! i) = None \<and> ds' = ds[i := d]
     \<and> devices_ok ds' \<and> bdev_open (bdev_name d) ds' = Some i
     \<and> (\<forall>n. n \<noteq> [] \<and> n \<noteq> bdev_name d \<longrightarrow> bdev_open n ds' = bdev_open n ds)"

lemma registered_update:
  assumes "devices_ok ds" and "scan_devices (\<lambda>d. bdev_ops d = None) 0 ds = Some i"
    and "bdev_ops d \<noteq> None" and "length (bdev_name d) < NAME_SIZE" and "bdev_name d \<noteq> []"
    and "bdev_open (bdev_name d) ds = None"
  shows "registered ds d i (ds[i := d])"
proof -
  have i: "i < length ds" "bdev_ops (ds ! i) = None" using assms(2) by (auto simp: scan_devices_first)
  then have z: "ds ! i = bdev_zero" using assms(1) by (auto simp: devices_ok_def)
  have "\<forall>k < length ds. bdev_name (ds ! k) \<noteq> bdev_name d" using assms(6) by (auto simp: bdev_open_def scan_devices_None)
  with i have "bdev_open (bdev_name d) (ds[i := d]) = Some i" by (auto simp: bdev_open_def scan_devices_first)
  moreover have "bdev_open n (ds[i := d]) = bdev_open n ds" if "n \<noteq> []" "n \<noteq> bdev_name d" for n
    unfolding bdev_open_def using i that by (intro scan_devices_update) (auto simp: z bdev_zero_def)
  ultimately show ?thesis
    using i assms devices_ok_update [OF assms(1,3,4)] by (auto simp: registered_def devices_ok_def)
qed

lemma registered_lookup: "registered ds d i ds' \<Longrightarrow> bdev_open (bdev_name d) ds' = Some i \<and> ds' ! i = d"
  by (auto simp: registered_def devices_ok_def)

text \<open>C25: a device registered under a new name of less than 32 bytes is what \<open>bdev_open\<close> finds under that
  name, with its context and operations, from sector 0 on and enabled; the other devices are found as before.
  Registration fails exactly when all 16 entries are in use and then changes nothing.\<close>

theorem register_bdev_found:
  assumes "devices_ok ds" and "name \<noteq> []" and "length name < 32" and "bdev_open name ds = None"
  shows "if \<forall>d \<in> set ds. bdev_ops d \<noteq> None then register_bdev ctx (Some ops) name ds = Some (None, ds)
    else \<exists>i ds'. register_bdev ctx (Some ops) name ds = Some (Some i, ds')
      \<and> registered ds \<lparr>bdev_ctx = ctx, bdev_name = name, bdev_offset = 0, bdev_ops = Some ops, bdev_disabled = False\<rparr> i ds'"
proof (cases "scan_devices (\<lambda>d. bdev_ops d = None) 0 ds")
  case None
  then have "register_bdev ctx (Some ops) name ds = Some (None, ds)" by (simp add: register_bdev_def)
  moreover have "\<forall>d \<in> set ds. bdev_ops d \<noteq> None" using None by (simp only: scan_devices_None)
  ultimately show ?thesis by simp
next
  case (Some i)
  let ?d = "\<lparr>bdev_ctx = ctx, bdev_name = name, bdev_offset = 0, bdev_ops = Some ops, bdev_disabled = False\<rparr>"
  have i: "i < length ds" "bdev_ops (ds ! i) = None" using Some by (auto simp: scan_devices_first)
  then have "ds ! i = bdev_zero" using assms(1) by (auto simp: devices_ok_def)
  then have "register_bdev ctx (Some ops) name ds = Some (Some i, ds[i := ?d])"
    using Some assms(3) by (simp add: register_bdev_def set_name_def NAME_SIZE_def bdev_zero_def)
  moreover have "registered ds ?d i (ds[i := ?d])" using assms by (intro registered_update Some) (simp_all add: NAME_SIZE_def)
  moreover have "\<exists>d \<in> set ds. bdev_ops d = None" using i by force
  ultimately show ?thesis by auto
qed

lemma bdev_open_init: "name \<noteq> [] \<Longrightarrow> bdev_open name devices_init = None"
  by (simp add: bdev_open_def scan_devices_None devices_init_def bdev_zero_def)

theorem register_bdev_found_witness:
  "\<exists>i ds'. register_bdev (Some 1) (Some 2) (bytes ''uda'') (devices_init :: (nat, nat) devices) = Some (Some i, ds')
     \<and> bdev_open (bytes ''uda'') ds' = Some i"
proof -
  have free: "\<not> (\<forall>d \<in> set devices_init. bdev_ops (d :: (nat, nat) bdev) \<noteq> None)"
    by (simp add: devices_init_def MAX_DEVICES_def bdev_zero_def)
  have b: "bytes ''uda'' \<noteq> []" "length (bytes ''uda'') < 32" by (simp_all add: bytes_def)
  show ?thesis
    using register_bdev_found [OF devices_ok_init b bdev_open_init [OF b(1)], of "Some (1 :: nat)" "2 :: nat"]
    unfolding if_not_P [OF free] by (auto dest!: registered_lookup)
qed

text \<open>A partition of a device is registered under the name of the device followed by the decimal index, with the
  context and operations of the device and the offset of the partition, and is found under that name.\<close>

lemma register_child_found:
  assumes "devices_ok ds" and "p < 16" and "bdev_ops (ds ! p) \<noteq> None" and "\<exists>d \<in> set ds. bdev_ops d = None"
    and "name = bdev_name (ds ! p) @ decimal index" and "length name < 32" and "name \<noteq> []" and "bdev_open name ds = None"
  shows "\<exists>i ds'. register_bdev_child p offset index ds = Some (Some i, ds')
      \<and> registered ds \<lparr>bdev_ctx = bdev_ctx (ds ! p), bdev_name = name, bdev_offset = offset,
                        bdev_ops = bdev_ops (ds ! p), bdev_disabled = False\<rparr> i ds'"
proof -
  let ?d = "\<lparr>bdev_ctx = bdev_ctx (ds ! p), bdev_name = name, bdev_offset = offset, bdev_ops = bdev_ops (ds ! p), bdev_disabled = False\<rparr>"
  obtain i where Some: "scan_devices (\<lambda>d. bdev_ops d = None) 0 ds = Some i"
    using assms(4) scan_devices_None [of "\<lambda>d. bdev_ops d = None" 0 ds] by blast
  then have i: "i < length ds" "bdev_ops (ds ! i) = None" by (auto simp: scan_devices_first)
  then have z: "ds ! i = bdev_zero" using assms(1) by (auto simp: devices_ok_def)
  have "p \<noteq> i" using i assms(3) by auto
  then have "register_bdev_child p offset index ds = Some (Some i, ds[i := ?d])"
    using Some assms(5,6) i z
    by (simp add: register_bdev_child_def register_bdev_def set_name_def NAME_SIZE_def bdev_zero_def sprintf_string_decimal)
  moreover have "registered ds ?d i (ds[i := ?d])" using assms by (intro registered_update Some) (simp_all add: NAME_SIZE_def)
  ultimately show ?thesis by blast
qed

theorem register_child_found_witness:
  "\<exists>i ds'. register_bdev_child 0 63 1 (devices_init[0 := bdev_zero\<lparr>bdev_name := bytes ''uda'', bdev_ops := Some (2 :: nat)\<rparr>])
       = Some (Some i, ds' :: (nat, nat) devices)
     \<and> bdev_open (bytes ''uda1'') ds' = Some i \<and> bdev_offset (ds' ! i) = 63"
proof -
  let ?d = "bdev_zero\<lparr>bdev_name := bytes ''uda'', bdev_ops := Some 2\<rparr> :: (nat, nat) bdev"
  let ?ds = "devices_init[0 := ?d] :: (nat, nat) devices"
  have ok: "devices_ok ?ds"
    by (rule devices_ok_update [OF devices_ok_init]) (simp_all add: bytes_def NAME_SIZE_def)
  have l: "devices_init = bdev_zero # replicate 15 bdev_zero" by (simp add: devices_init_def MAX_DEVICES_def numeral_eq_Suc)
  have d: "decimal 1 = bytes ''1''" by code_simp
  have n: "bytes ''uda1'' = bdev_name (?ds ! 0) @ decimal 1" unfolding d l by (simp add: bytes_def)
  have o: "bdev_open (bytes ''uda1'') ?ds = None"
    unfolding l by (simp add: bdev_open_def scan_devices_None bdev_zero_def bytes_def)
  have f: "bdev_ops (?ds ! 0) \<noteq> None" "\<exists>d \<in> set ?ds. bdev_ops d = None" unfolding l by (simp_all add: bdev_zero_def)
  have b: "length (bytes ''uda1'') < 32" "bytes ''uda1'' \<noteq> []" by (simp_all add: bytes_def)
  from register_child_found [OF ok _ f n b o, of 63]
  show ?thesis by (auto dest!: registered_lookup)
qed

text \<open>An unplugged device keeps its entry: \<open>bdev_open\<close> still returns it, and as \<open>register_bdev\<close> only looks at the
  operations, its slot is never used again.\<close>

lemma unregister_keeps_slot:
  assumes "i < length ds" and "bdev_open name ds = Some i"
  shows "bdev_open name (unregister_bdev i ds) = Some i \<and> bdev_disabled (unregister_bdev i ds ! i)
    \<and> map bdev_ops (unregister_bdev i ds) = map bdev_ops ds"
proof -
  have "bdev_open name (unregister_bdev i ds) = Some i"
    using assms by (auto simp: bdev_open_def unregister_bdev_def scan_devices_first)
  moreover have "map bdev_ops (unregister_bdev i ds) = map bdev_ops ds"
    using assms(1) by (simp add: unregister_bdev_def map_update) (metis list_update_id nth_map)
  ultimately show ?thesis using assms(1) by (simp add: unregister_bdev_def)
qed

theorem unregister_keeps_slot_witness:
  "bdev_open [] (unregister_bdev 0 (devices_init :: (nat, nat) devices)) = Some 0"
  using unregister_keeps_slot [of 0 "devices_init :: (nat, nat) devices" "[]"]
  by (simp add: devices_init_def MAX_DEVICES_def bdev_open_def numeral_eq_Suc bdev_zero_def)

end
