(* ===== verification/Xell_Inet.thy ===== *)
theory Xell_Inet
  imports Xell_Prelude
begin
unbundle bit_operations_syntax

section \<open>Checksums\<close>

text \<open>
  The common routines of the network stack, \<^verbatim>\<open>src/lwip/core/inet.c\<close>: the Internet checksum over a buffer and
  over a chain of buffers, and the conversion of addresses from and to dotted notation. Buffers are lists of
  bytes, a chain of \<^verbatim>\<open>pbuf\<close>s is a list of them, and strings are lists without the terminating zero. The target is
  big-endian, where \<^verbatim>\<open>htons\<close> and \<^verbatim>\<open>htonl\<close> are the identity.
\<close>

definition be16 :: "u8 \<Rightarrow> u8 \<Rightarrow> u16" where
  "be16 a b = push_bit 8 (ucast a) OR ucast b"

fun chksum_loop :: "u8 list \<Rightarrow> u32 \<Rightarrow> u32" where
  "chksum_loop (a # b # bs) acc = chksum_loop bs (acc + ucast (be16 a b))"
| "chksum_loop [a] acc = acc + ucast (be16 a 0)"
| "chksum_loop [] acc = acc"

definition fold_once :: "u32 \<Rightarrow> u32" where
  "fold_once acc = drop_bit 16 acc + (acc AND 0xffff)"

definition lwip_standard_chksum :: "u8 list \<Rightarrow> u16" where
  "lwip_standard_chksum bs =
     (let acc = fold_once (chksum_loop bs 0);
          acc = (if acc AND 0xffff0000 \<noteq> 0 then fold_once acc else acc)
      in ucast acc)"

function fold_carry :: "u32 \<Rightarrow> u32" where
  "fold_carry acc = (if drop_bit 16 acc \<noteq> 0 then fold_carry ((acc AND 0xffff) + drop_bit 16 acc) else acc)"
  by pat_completeness auto

text \<open>One round of folding, on natural numbers.\<close>

lemma unat_u32_lt: "unat (w :: u32) < 2 ^ 32"
  using unsigned_less [of w, where ?'a = nat] by simp

lemma unat_fold:
  fixes acc :: u32
  shows "unat ((acc AND 0xffff) + drop_bit 16 acc) = unat acc mod 65536 + unat acc div 65536"
proof -
  have a: "unat (acc AND 0xffff) = unat acc mod 65536"
    using and_mask_take_bit [of acc 16] unat_take_bit_mod [of 16 acc] by simp
  have b: "unat (drop_bit 16 acc) = unat acc div 65536" by (simp add: unat_drop_bit_eq drop_bit_nat_def)
  have "unat acc div 65536 < 65536" using unat_u32_lt [of acc] by (simp add: less_mult_imp_div_less)
  moreover have "unat acc mod 65536 < 65536" by simp
  moreover have "a < 65536 \<Longrightarrow> b < 65536 \<Longrightarrow> b + a < 2 ^ 32" for a b :: nat by simp
  ultimately have "unat acc mod 65536 + unat acc div 65536 < 2 ^ 32" by blast
  then show ?thesis by (simp only: unat_word_ariths a b) simp
qed

lemma fold_decreases: "65536 \<le> (n :: nat) \<Longrightarrow> n mod 65536 + n div 65536 < n"
proof -
  assume "65536 \<le> n"
  then have "0 < n div 65536" by (simp add: div_greater_zero_iff)
  moreover have "n = n div 65536 * 65536 + n mod 65536" by simp
  moreover have "0 < q \<Longrightarrow> r + q < q * 65536 + r" for q r :: nat by simp
  ultimately show ?thesis by metis
qed

lemma drop16_nonzero: "drop_bit 16 (acc :: u32) \<noteq> 0 \<longleftrightarrow> 65536 \<le> unat acc"
proof -
  have "drop_bit 16 acc \<noteq> 0 \<longleftrightarrow> unat acc div 65536 \<noteq> 0"
    by (simp add: word_unat_eq_iff unat_drop_bit_eq drop_bit_nat_def)
  then show ?thesis by (simp add: div_eq_0_iff not_less)
qed

termination fold_carry
  by (relation "measure unat") (auto simp only: in_measure unat_fold drop16_nonzero wf_measure intro: fold_decreases)

declare fold_carry.simps [simp del]

definition swap_bytes :: "u32 \<Rightarrow> u32" where
  "swap_bytes acc = (push_bit 8 (acc AND 0xff)) OR (drop_bit 8 (acc AND 0xff00))"

text \<open>The sum over a chain; after a buffer of odd length the bytes change places.\<close>

fun pseudo_loop :: "u8 list list \<Rightarrow> u32 \<Rightarrow> bool \<Rightarrow> u32 \<times> bool" where
  "pseudo_loop [] acc swapped = (acc, swapped)"
| "pseudo_loop (q # qs) acc swapped =
     (let acc = fold_carry (acc + ucast (lwip_standard_chksum q))
      in if odd (length q) then pseudo_loop qs (swap_bytes acc) (\<not> swapped) else pseudo_loop qs acc swapped)"

definition inet_chksum_pseudo :: "u8 list list \<Rightarrow> u32 \<Rightarrow> u32 \<Rightarrow> u8 \<Rightarrow> u16 \<Rightarrow> u16" where
  "inet_chksum_pseudo p src dest proto proto_len =
     (let (acc, swapped) = pseudo_loop p 0 False;
          acc = (if swapped then swap_bytes acc else acc);
          acc = acc + (src AND 0xffff);
          acc = acc + (drop_bit 16 src AND 0xffff);
          acc = acc + (dest AND 0xffff);
          acc = acc + (drop_bit 16 dest AND 0xffff);
          acc = acc + ucast proto;
          acc = acc + ucast proto_len
      in ucast (NOT (fold_carry acc AND 0xffff)))"

definition inet_chksum :: "u8 list \<Rightarrow> u16" where
  "inet_chksum bs = ucast (NOT (fold_carry (ucast (lwip_standard_chksum bs)) AND 0xffff))"

text \<open>
  In \<open>inet_chksum_pbuf\<close> the operators of the exchange bind differently: \<^verbatim>\<open>acc & 0x00ffUL << 8\<close> masks with \<^verbatim>\<open>0xff00\<close>
  and \<^verbatim>\<open>acc & 0xff00UL >> 8\<close> with \<^verbatim>\<open>0xff\<close>.
\<close>

definition pbuf_swap :: "u32 \<Rightarrow> u32" where
  "pbuf_swap acc = (acc AND push_bit 8 0xff) OR (acc AND drop_bit 8 0xff00)"

fun pbuf_loop :: "u8 list list \<Rightarrow> u32 \<Rightarrow> bool \<Rightarrow> u32 \<times> bool" where
  "pbuf_loop [] acc swapped = (acc, swapped)"
| "pbuf_loop (q # qs) acc swapped =
     (let acc = fold_carry (acc + ucast (lwip_standard_chksum q))
      in if odd (length q) then pbuf_loop qs (pbuf_swap acc) (\<not> swapped) else pbuf_loop qs acc swapped)"

definition inet_chksum_pbuf :: "u8 list list \<Rightarrow> u16" where
  "inet_chksum_pbuf p =
     (let (acc, swapped) = pbuf_loop p 0 False;
          acc = (if swapped then swap_bytes acc else acc)
      in ucast (NOT (acc AND 0xffff)))"

section \<open>Addresses in dotted notation\<close>

definition in_range :: "u8 \<Rightarrow> u8 \<Rightarrow> u8 \<Rightarrow> bool" where
  "in_range c lo up \<longleftrightarrow> c \<ge> lo \<and> c \<le> up"

definition inet_isascii :: "u8 \<Rightarrow> bool" where "inet_isascii c = in_range c 0x20 0x7f"
definition inet_isdigit :: "u8 \<Rightarrow> bool" where "inet_isdigit c = in_range c (ch CHR ''0'') (ch CHR ''9'')"
definition inet_isxdigit :: "u8 \<Rightarrow> bool" where
  "inet_isxdigit c \<longleftrightarrow> inet_isdigit c \<or> in_range c (ch CHR ''a'') (ch CHR ''f'') \<or> in_range c (ch CHR ''A'') (ch CHR ''F'')"
definition inet_islower :: "u8 \<Rightarrow> bool" where "inet_islower c = in_range c (ch CHR ''a'') (ch CHR ''z'')"
definition inet_isspace :: "u8 \<Rightarrow> bool" where
  "inet_isspace c \<longleftrightarrow> c = ch CHR '' '' \<or> c = 12 \<or> c = 10 \<or> c = 13 \<or> c = 9 \<or> c = 11"

text \<open>The digits of one number; the rest of the string begins with the character that ends it.\<close>

fun aton_digits :: "u32 \<Rightarrow> u32 \<Rightarrow> u8 list \<Rightarrow> u32 \<times> u8 list" where
  "aton_digits base val [] = (val, [])"
| "aton_digits base val (c # cs) =
     (if inet_isdigit c then aton_digits base (val * base + ucast (c - ch CHR ''0'')) cs
      else if base = 16 \<and> inet_isxdigit c
      then aton_digits base (push_bit 4 val OR ucast (c + 10 - (if inet_islower c then ch CHR ''a'' else ch CHR ''A''))) cs
      else (val, c # cs))"

definition aton_number :: "u8 list \<Rightarrow> (u32 \<times> u8 list) option" where
  "aton_number cp =
     (if \<not> inet_isdigit (peek cp) then None
      else if peek cp = ch CHR ''0''
      then let cp = tl cp
           in if peek cp = ch CHR ''x'' \<or> peek cp = ch CHR ''X'' then Some (aton_digits 16 0 (tl cp))
              else Some (aton_digits 8 0 cp)
      else Some (aton_digits 10 0 cp))"

function aton_parts :: "u32 list \<Rightarrow> u8 list \<Rightarrow> (u32 list \<times> u32 \<times> u8 list) option" where
  "aton_parts parts cp =
     (case aton_number cp of
        None \<Rightarrow> None
      | Some (val, cp) \<Rightarrow>
          if peek cp = ch CHR ''.''
          then if length parts \<ge> 3 then None else aton_parts (parts @ [val]) (tl cp)
          else Some (parts, val, cp))"
  by pat_completeness auto
termination
  by (relation "measure (\<lambda>(parts, cp). 3 - length parts)") auto

declare aton_parts.simps [simp del]

definition inet_aton :: "u8 list \<Rightarrow> u32 option" where
  "inet_aton cp =
     (case aton_parts [] cp of
        None \<Rightarrow> None
      | Some (parts, val, cp) \<Rightarrow>
          if peek cp \<noteq> 0 \<and> (\<not> inet_isascii (peek cp) \<or> \<not> inet_isspace (peek cp)) then None
          else if length parts + 1 = 2
          then if val > 0xffffff then None else Some (val OR push_bit 24 (parts ! 0))
          else if length parts + 1 = 3
          then if val > 0xffff then None else Some (val OR (push_bit 24 (parts ! 0) OR push_bit 16 (parts ! 1)))
          else if length parts + 1 = 4
          then if val > 0xff then None
               else Some (val OR (push_bit 24 (parts ! 0) OR push_bit 16 (parts ! 1) OR push_bit 8 (parts ! 2)))
          else Some val)"

definition inet_addr :: "u8 list \<Rightarrow> u32" where
  "inet_addr cp = (case inet_aton cp of Some val \<Rightarrow> val | None \<Rightarrow> 0xffffffff)"

text \<open>The decimal digits of a byte, the last one first, as the array \<^verbatim>\<open>inv\<close> has them.\<close>

function ntoa_inv :: "u8 \<Rightarrow> u8 list" where
  "ntoa_inv b = (ch CHR ''0'' + b mod 10) # (if b div 10 \<noteq> 0 then ntoa_inv (b div 10) else [])"
  by pat_completeness auto
termination
  by (relation "measure unat") (auto simp: unat_div word_unat_eq_iff)

declare ntoa_inv.simps [simp del]

definition ntoa_bytes :: "u32 \<Rightarrow> u8 list" where
  "ntoa_bytes a = [ucast (drop_bit 24 a), ucast (drop_bit 16 a), ucast (drop_bit 8 a), ucast a]"

definition inet_ntoa :: "u32 \<Rightarrow> u8 list" where
  "inet_ntoa addr = butlast (concat (map (\<lambda>b. rev (ntoa_inv b) @ [ch CHR ''.'']) (ntoa_bytes addr)))"

section \<open>The checksum is the one's complement sum\<close>

fun be_sum :: "u8 list \<Rightarrow> nat" where
  "be_sum (a # b # bs) = 256 * unat a + unat b + be_sum bs"
| "be_sum [a] = 256 * unat a"
| "be_sum [] = 0"

text \<open>The representative of \<open>n\<close> in one's complement arithmetic of 16 bits: 0 only for 0.\<close>

definition ones :: "nat \<Rightarrow> nat" where
  "ones n = (if n = 0 then 0 else (n - 1) mod 65535 + 1)"

lemma ones_small [simp]: "n < 65536 \<Longrightarrow> ones n = n"
  by (cases n) (auto simp: ones_def)

lemma ones_lt [simp]: "ones n < 65536"
proof -
  have "(n - 1) mod 65535 < 65535" by simp
  moreover have "r < 65535 \<Longrightarrow> r + 1 < 65536" for r :: nat by simp
  ultimately show ?thesis unfolding ones_def by (cases "n = 0") auto
qed

lemma ones_eq_iff: "ones a = ones b \<longleftrightarrow> (a = 0 \<longleftrightarrow> b = 0) \<and> a mod 65535 = b mod 65535"
proof (cases "a = 0 \<or> b = 0")
  case True
  then show ?thesis by (auto simp: ones_def)
next
  case False
  then obtain c d where "a = Suc c" "b = Suc d" by (metis not0_implies_Suc)
  then show ?thesis by (simp add: ones_def mod_Suc)
qed

lemma ones_ones [simp]: "ones (ones n) = ones n"
  by simp

lemma ones_mod: "ones n mod 65535 = n mod 65535" and ones_zero: "ones n = 0 \<longleftrightarrow> n = 0"
  using ones_eq_iff [of "ones n" n] by auto

lemma ones_cong_add: "ones a = ones a' \<Longrightarrow> ones b = ones b' \<Longrightarrow> ones (a + b) = ones (a' + b')"
  unfolding ones_eq_iff by (auto intro: mod_add_cong)

lemma ones_cong_mult: "ones a = ones b \<Longrightarrow> ones (256 * a) = ones (256 * b)"
  unfolding ones_eq_iff by (auto intro: mod_mult_cong)

lemma ones_add_left [simp]: "ones (ones a + b) = ones (a + b)"
  by (rule ones_cong_add) simp_all

lemma ones_65536 [simp]: "ones (65536 * a) = ones a"
proof -
  have "65536 * a = a + 65535 * a" by simp
  then have "65536 * a mod 65535 = a mod 65535" by (simp only: mod_mult_self2)
  then show ?thesis by (simp add: ones_eq_iff)
qed

lemma ones_fold: "ones (n mod 65536 + n div 65536) = ones n"
proof -
  have n: "n = n mod 65536 + n div 65536 + 65535 * (n div 65536)" using div_mult_mod_eq [of n 65536] by linarith
  have "n mod 65535 = (n mod 65536 + n div 65536) mod 65535" by (subst (1) n) (rule mod_mult_self2)
  moreover have "n mod 65536 + n div 65536 = 0 \<longleftrightarrow> n = 0" using n by (cases "n = 0") auto
  ultimately show ?thesis by (simp only: ones_eq_iff simp_thms)
qed

lemma unat_fold_carry: "unat (fold_carry acc) = ones (unat acc)"
proof (induction acc rule: fold_carry.induct)
  case (1 acc)
  show ?case
  proof (cases "drop_bit 16 acc \<noteq> 0")
    case True
    then have "unat (fold_carry acc) = ones (unat acc mod 65536 + unat acc div 65536)"
      using 1 [OF True] by (subst fold_carry.simps) (simp only: if_True if_False not_False_eq_True unat_fold)
    then show ?thesis by (simp only: ones_fold)
  next
    case False
    then show ?thesis using drop16_nonzero [of acc] by (subst fold_carry.simps) simp
  qed
qed

lemma unat_be16: "unat (be16 a b) = 256 * unat a + unat b"
proof -
  have "(push_bit 8 (ucast a) :: u16) AND ucast b = 0"
    by (auto simp: bit_eq_iff bit_simps dest: bit_imp_le_length)
  then have "be16 a b = push_bit 8 (ucast a) + ucast b" by (simp add: be16_def disjunctive_add_eq_or)
  moreover have u: "unat (ucast (c :: u8) :: u16) = unat c" "unat c < 256" for c :: u8
    using unsigned_less [of c, where ?'a = nat] by (simp_all add: unsigned_ucast_eq take_bit_nat_eq_self)
  moreover have "unat (push_bit 8 (ucast a) :: u16) = 256 * unat a"
    using u [of a] by (simp add: push_bit_eq_mult unat_word_ariths)
  moreover have "256 * unat a + unat b < 65536" using u(2) [of a] u(2) [of b] by linarith
  ultimately show ?thesis by (simp add: unat_word_ariths)
qed

lemma unat_u8_lt: "unat (c :: u8) < 256"
  using unsigned_less [of c, where ?'a = nat] by simp

lemma unat_ucast_u16_u32 [simp]: "unat (ucast (w :: u16) :: u32) = unat w"
  using unsigned_less [of w, where ?'a = nat] by (simp add: unsigned_ucast_eq take_bit_nat_eq_self)

lemma be_sum_bound: "be_sum bs \<le> 65535 * length bs"
proof (induction bs rule: be_sum.induct)
  case (1 a b bs)
  then show ?case using unat_u8_lt [of a] unat_u8_lt [of b] by simp
next
  case (2 a)
  then show ?case using unat_u8_lt [of a] by simp
qed simp

lemma unat_chksum_loop: "unat acc + be_sum bs < 2 ^ 32 \<Longrightarrow> unat (chksum_loop bs acc) = unat acc + be_sum bs"
proof (induction bs acc rule: chksum_loop.induct)
  case (1 a b bs acc)
  have u: "unat (acc + ucast (be16 a b)) = unat acc + (256 * unat a + unat b)"
    using "1.prems" by (simp add: unat_word_ariths unat_be16)
  then show ?case using 1 by simp
qed (simp_all add: unat_word_ariths unat_be16)

lemma and_high_nonzero: "(acc :: u32) AND 0xffff0000 \<noteq> 0 \<longleftrightarrow> 65536 \<le> unat acc"
proof -
  have "acc AND 0xffff0000 = acc - take_bit 16 acc" proof -
    have "(0xffff0000 :: u32) = NOT (2 ^ 16 - 1)" by simp
    then show ?thesis by (simp only: and_not_mask)
  qed
  then have "acc AND 0xffff0000 \<noteq> 0 \<longleftrightarrow> unat acc \<noteq> unat acc mod 65536"
    using unat_take_bit_mod [of 16 acc] by (simp add: word_unat_eq_iff [symmetric])
      (metis (no_types, lifting) eq_iff_diff_eq_0 word_unat_eq_iff)
  also have "\<dots> \<longleftrightarrow> 65536 \<le> unat acc" by (metis mod_less mod_less_divisor not_less zero_less_numeral)
  finally show ?thesis .
qed

lemma unat_fold_once: "unat (fold_once acc) = unat acc mod 65536 + unat acc div 65536"
  unfolding fold_once_def using unat_fold [of acc] by (simp add: add.commute)

lemma unat_chksum:
  assumes "length bs < 65536"
  shows "unat (lwip_standard_chksum bs) = ones (be_sum bs)"
proof -
  let ?n = "be_sum bs" and ?a = "fold_once (chksum_loop bs 0)"
  define b where "b = (if ?a AND 0xffff0000 \<noteq> 0 then fold_once ?a else ?a)"
  have "?n \<le> 65535 * 65535" using be_sum_bound [of bs] assms by linarith
  then have n: "?n < 2 ^ 32" by simp
  then have c: "unat (chksum_loop bs 0) = ?n" using unat_chksum_loop [of 0 bs] by simp
  then have a: "unat ?a = ?n mod 65536 + ?n div 65536" by (simp add: unat_fold_once)
  have r: "x mod 65536 < 65536" for x :: nat by simp
  have "?n div 65536 < 65536" using n by (simp add: less_mult_imp_div_less)
  then have a2: "unat ?a < 131071" using a r [of ?n] by linarith
  have ones: "ones (unat b) = ones ?n" by (simp only: b_def unat_fold_once ones_fold c split: if_split) simp
  have "unat b < 65536"
  proof (cases "65536 \<le> unat ?a")
    case True
    then obtain x where x: "unat ?a = 65536 + x" using le_Suc_ex by blast
    then have "x < 65535" using a2 by simp
    then show ?thesis using True x by (simp add: b_def and_high_nonzero unat_fold_once)
  next
    case False
    then show ?thesis by (simp add: b_def and_high_nonzero)
  qed
  moreover have "lwip_standard_chksum bs = ucast b" by (simp add: lwip_standard_chksum_def b_def)
  ultimately show ?thesis using ones by (simp add: unsigned_ucast_eq take_bit_nat_eq_self)
qed

lemma unat_swap:
  assumes "unat acc < 65536"
  shows "unat (swap_bytes acc) = ones (256 * unat acc)"
proof -
  let ?h = "unat acc div 256" and ?l = "unat acc mod 256"
  have l: "unat (acc AND 0xff) = ?l" using and_mask_take_bit [of acc 8] unat_take_bit_mod [of 8 acc] by simp
  have h: "drop_bit 8 (acc AND 0xff00) = drop_bit 8 acc"
  proof -
    have "acc AND 0xffff = acc" using and_mask_take_bit [of acc 16] unat_take_bit_mod [of 16 acc] assms
      by (simp add: word_unat_eq_iff)
    then have "drop_bit 8 acc = drop_bit 8 acc AND drop_bit 8 0xffff" by (metis drop_bit_and)
    then show ?thesis by (simp add: drop_bit_and)
  qed
  have b: "?h < 256" "?l < 256" using assms by (auto simp: less_mult_imp_div_less)
  have "swap_bytes acc = push_bit 8 (acc AND 0xff) + drop_bit 8 acc"
    unfolding swap_bytes_def h
  proof (rule disjunctive_add_eq_or [symmetric], rule bit_word_eqI)
    fix n assume "n < LENGTH(32)"
    have "\<not> bit (drop_bit 8 acc) n" if "8 \<le> n"
    proof -
      have "unat acc < 2 ^ 16" using assms by simp
      then have "take_bit 16 acc = acc" by (simp add: word_unat_eq_iff unat_take_bit_mod)
      then have "bit acc m \<Longrightarrow> m < 16" for m by (metis bit_take_bit_iff)
      then show ?thesis using that by (force simp: bit_simps)
    qed
    then show "bit (push_bit 8 (acc AND 0xff) AND drop_bit 8 acc) n = bit 0 n" by (auto simp: bit_simps)
  qed
  moreover have "unat (drop_bit 8 acc) = ?h" by (simp add: unat_drop_bit_eq drop_bit_nat_def)
  moreover have "unat (push_bit 8 (acc AND 0xff)) = 256 * ?l" using l b by (simp add: push_bit_eq_mult unat_word_ariths)
  ultimately have "unat (swap_bytes acc) = 256 * ?l + ?h" using b by (simp add: unat_word_ariths)
  moreover have "256 * unat acc = 256 * ?l + 65536 * ?h" using div_mult_mod_eq [of "unat acc" 256] by linarith
  then have "ones (256 * unat acc) = ones (256 * ?l + ?h)" by (simp only:) (rule ones_cong_add [OF refl ones_65536])
  ultimately show ?thesis using b by simp
qed

text \<open>Sums of concatenations: behind an odd number of bytes the rest is shifted by one byte.\<close>

lemma be_sum_append: "be_sum (xs @ ys) = be_sum xs + be_sum (if odd (length xs) then 0 # ys else ys)"
proof (induction xs rule: be_sum.induct)
  case (2 a)
  show ?case by (cases ys) simp_all
qed simp_all

lemma ones_be_sum_shift: "ones (be_sum (0 # bs)) = ones (256 * be_sum bs)"
proof (induction bs rule: be_sum.induct)
  case (1 a b bs)
  have "ones (unat a + be_sum (b # bs)) = ones (65536 * unat a + (256 * unat b + 256 * be_sum bs))"
    if "ones (be_sum (b # bs)) = ones (256 * unat b + 256 * be_sum bs)"
    using that by (intro ones_cong_add) simp_all
  moreover have "ones (be_sum (b # bs)) = ones (256 * unat b + 256 * be_sum bs)"
    using 1 be_sum_append [of "[b]" bs] by (simp del: be_sum.simps(1)) (intro ones_cong_add, simp_all)
  moreover have "256 * (256 * unat a + unat b + be_sum bs) = 65536 * unat a + (256 * unat b + 256 * be_sum bs)" by simp
  ultimately show ?case by (simp only: be_sum.simps unsigned_0 mult_0_right add_0_left)
next
  case (2 a)
  show ?case using ones_65536 [of "unat a"] by simp
qed simp

text \<open>The normal form of an accumulator whose bytes may be exchanged.\<close>

definition unswapped :: "bool \<Rightarrow> nat \<Rightarrow> nat" where
  "unswapped swapped n = (if swapped then 256 * n else n)"

lemma unswapped_cong: "ones a = ones b \<Longrightarrow> ones (unswapped s a) = ones (unswapped s b)"
  by (cases s) (auto simp: unswapped_def intro: ones_cong_mult)

lemma unswapped_add: "unswapped s (a + b) = unswapped s a + unswapped s b"
  by (simp add: unswapped_def)

lemma unswapped_flip: "ones (unswapped (\<not> s) (256 * a)) = ones (unswapped s a)"
  by (simp add: unswapped_def)

lemma unswapped_be_sum: "ones (unswapped s (be_sum bs)) = ones (be_sum (if s then 0 # bs else bs))"
  by (simp add: unswapped_def ones_be_sum_shift)

lemma pseudo_step:
  assumes "unat acc < 65536" and "length q < 65536"
  shows "unat (fold_carry (acc + ucast (lwip_standard_chksum q))) = ones (unat acc + be_sum q)"
proof -
  have "unat (lwip_standard_chksum q) < 65536" using unsigned_less [of "lwip_standard_chksum q", where ?'a = nat] by simp
  with assms(1) have "unat acc + unat (lwip_standard_chksum q) < 2 ^ 32" by simp
  then have "unat (acc + ucast (lwip_standard_chksum q)) = unat acc + ones (be_sum q)"
    using assms by (simp add: unat_word_ariths unat_chksum [OF assms(2), symmetric])
  then show ?thesis by (simp only: unat_fold_carry) (rule ones_cong_add, simp_all)
qed

lemma pseudo_loop_sum:
  assumes "unat acc < 65536" and "\<forall>q \<in> set qs. length q < 65536" and "pseudo_loop qs acc s = (acc', s')"
  shows "unat acc' < 65536
    \<and> ones (unswapped s' (unat acc')) = ones (unswapped s (unat acc) + be_sum (if s then 0 # concat qs else concat qs))"
  using assms
proof (induction qs arbitrary: acc s)
  case (Cons q qs)
  let ?a = "fold_carry (acc + ucast (lwip_standard_chksum q))"
  have a: "unat ?a = ones (unat acc + be_sum q)" using Cons.prems by (intro pseudo_step) auto
  have sum: "ones (unswapped s (unat acc + be_sum q) + be_sum (if s \<noteq> odd (length q) then 0 # r else r))
      = ones (unswapped s (unat acc) + be_sum (if s then 0 # q @ r else q @ r))" for r
  proof -
    have "be_sum (if s then 0 # q @ r else q @ r)
        = be_sum (if s then 0 # q else q) + be_sum (if s \<noteq> odd (length q) then 0 # r else r)"
      using be_sum_append [of "if s then 0 # q else q" r] by (simp split: if_splits)
    then show ?thesis unfolding unswapped_add
      by (simp only: add.assoc) (intro ones_cong_add refl, simp add: unswapped_be_sum)
  qed
  show ?case
  proof (cases "odd (length q)")
    case True
    let ?b = "swap_bytes ?a"
    have b: "unat ?b = ones (256 * unat ?a)" by (rule unat_swap) (simp add: a)
    have "ones (unswapped (\<not> s) (unat ?b)) = ones (unswapped (\<not> s) (256 * (unat acc + be_sum q)))"
      by (rule unswapped_cong) (simp add: b a ones_cong_mult)
    then have "ones (unswapped (\<not> s) (unat ?b)) = ones (unswapped s (unat acc + be_sum q))" by (simp only: unswapped_flip)
    then have "ones (unswapped (\<not> s) (unat ?b) + x) = ones (unswapped s (unat acc + be_sum q) + x)" for x
      by (rule ones_cong_add) simp
    then show ?thesis using Cons.IH [of ?b "\<not> s"] Cons.prems True b sum [of "concat qs"] by (simp add: Let_def)
  next
    case False
    have "ones (unswapped s (unat ?a)) = ones (unswapped s (unat acc + be_sum q))" by (rule unswapped_cong) (simp add: a)
    then have "ones (unswapped s (unat ?a) + x) = ones (unswapped s (unat acc + be_sum q) + x)" for x
      by (rule ones_cong_add) simp
    then show ?thesis using Cons.IH [of ?a s] Cons.prems False a sum [of "concat qs"] by (simp add: Let_def)
  qed
qed simp

lemma unat_not_u16:
  fixes acc :: u32
  assumes "unat acc < 65536"
  shows "unat (ucast (NOT (acc AND 0xffff)) :: u16) = 65535 - unat acc"
proof -
  have "acc AND 0xffff = acc" using and_mask_take_bit [of acc 16] unat_take_bit_mod [of 16 acc] assms
    by (simp add: word_unat_eq_iff)
  moreover have "(ucast (NOT acc) :: u16) = NOT (ucast acc)" by (simp add: bit_eq_iff bit_simps)
  moreover have "unat (ucast acc :: u16) = unat acc" using assms by (simp add: unsigned_ucast_eq take_bit_nat_eq_self)
  moreover have "unat (NOT w) = 65535 - unat w" for w :: u16
  proof -
    have "NOT w = - 1 - w" by (simp add: not_eq_complement)
    moreover have m: "unat (- 1 :: u16) = 65535" by (simp add: unsigned_minus_1_eq_mask mask_eq_exp_minus_1)
    moreover have "w \<le> - 1" by simp
    ultimately show ?thesis by (simp only: unat_sub m)
  qed
  ultimately show ?thesis by simp
qed

lemma unat_inet_chksum:
  assumes "length bs < 65536"
  shows "unat (inet_chksum bs) = 65535 - ones (be_sum bs)"
  unfolding inet_chksum_def using assms by (subst unat_not_u16) (simp_all add: unat_fold_carry unat_chksum)

text \<open>The pseudo header of UDP and TCP, as bytes.\<close>

definition pseudo_header :: "u32 \<Rightarrow> u32 \<Rightarrow> u8 \<Rightarrow> u16 \<Rightarrow> u8 list" where
  "pseudo_header src dest proto proto_len =
     ntoa_bytes src @ ntoa_bytes dest @ [0, proto, ucast (drop_bit 8 proto_len), ucast proto_len]"

lemma unat_ucast_u8: "unat (ucast (w :: 'a :: len word) :: u8) = unat w mod 256"
  by (simp add: unsigned_ucast_eq take_bit_nat_def)

lemma be_sum_ntoa: "be_sum (ntoa_bytes a @ bs) = unat a div 65536 + unat a mod 65536 + be_sum bs"
proof -
  have d: "x div 256 mod 256 * 256 + x mod 256 = x mod 65536" for x :: nat
    using mod_mult2_eq [of x 256 256] by simp
  have "unat a < 2 ^ 32" by (rule unat_u32_lt)
  then have h: "unat a div 65536 < 65536" by (simp add: less_mult_imp_div_less)
  have "256 * (unat a div 16777216 mod 256) + unat a div 65536 mod 256 = unat a div 65536"
    using d [of "unat a div 65536"] h by (simp add: div_mult2_eq [symmetric])
  moreover have "256 * (unat a div 256 mod 256) + unat a mod 256 = unat a mod 65536" using d [of "unat a"] by simp
  ultimately show ?thesis
    by (simp add: ntoa_bytes_def unat_ucast_u8 unat_drop_bit_eq drop_bit_nat_def)
qed

lemma unat_and_ffff: "unat ((w :: u32) AND 0xffff) = unat w mod 65536"
  using and_mask_take_bit [of w 16] unat_take_bit_mod [of 16 w] by simp

lemma unat_high_ffff: "unat (drop_bit 16 (w :: u32) AND 0xffff) = unat w div 65536"
proof -
  have "unat w < 2 ^ 32" by (rule unat_u32_lt)
  then have "unat w div 65536 < 65536" by (simp add: less_mult_imp_div_less)
  then show ?thesis by (simp add: unat_and_ffff unat_drop_bit_eq drop_bit_nat_def)
qed

lemmas unat_high_mod = unat_high_ffff [unfolded unat_and_ffff]

lemma unat_ucast_u8_u32: "unat (ucast (w :: u8) :: u32) = unat w"
  using unat_u8_lt [of w] by (simp add: unsigned_ucast_eq take_bit_nat_eq_self)

lemma unat_u16_lt: "unat (w :: u16) < 65536"
  using unsigned_less [of w, where ?'a = nat] by simp

lemma unat_sum7:
  fixes a b c d e f g :: u32
  assumes "unat a < 65536" "unat b < 65536" "unat c < 65536" "unat d < 65536" "unat e < 65536" "unat f < 65536" "unat g < 65536"
  shows "unat (a + b + c + d + e + f + g) = unat a + unat b + unat c + unat d + unat e + unat f + unat g"
  using assms by (simp add: unat_word_ariths)

text \<open>C17: the checksum of a chain of buffers with the pseudo header is the checksum of the flat bytes: for every way a
  datagram is cut into buffers, odd lengths included, \<open>inet_chksum_pseudo\<close> is \<open>inet_chksum\<close> of the pseudo
  header followed by the contents of the buffers.\<close>

theorem inet_chksum_pseudo_flat:
  assumes "length (concat p) < 65524"
  shows "inet_chksum_pseudo p src dest proto proto_len = inet_chksum (pseudo_header src dest proto proto_len @ concat p)"
proof -
  obtain acc s where ps: "pseudo_loop p 0 False = (acc, s)" by force
  have "length q \<le> length (concat p)" if "q \<in> set p" for q
    using that by (auto simp: length_concat intro: member_le_sum_list)
  with assms have "\<forall>q \<in> set p. length q < 65536" by force
  with pseudo_loop_sum [OF _ this ps] have acc: "unat acc < 65536"
      "ones (unswapped s (unat acc)) = ones (be_sum (concat p))" by (simp_all add: unswapped_def)
  define acc1 where "acc1 = (if s then swap_bytes acc else acc)"
  have "unat acc1 = ones (be_sum (concat p))"
    using acc unat_swap [OF acc(1)] by (simp add: acc1_def unswapped_def split: if_splits)
  then have a1: "unat acc1 < 65536" "ones (unat acc1) = ones (be_sum (concat p))" by simp_all
  let ?h = "unat src mod 65536 + unat src div 65536 + unat dest mod 65536 + unat dest div 65536 + unat proto + unat proto_len"
  let ?t = "acc1 + (src AND 0xffff) + (drop_bit 16 src AND 0xffff) + (dest AND 0xffff) + (drop_bit 16 dest AND 0xffff) + ucast proto + ucast proto_len"
  have d: "unat w div 65536 < 65536" for w :: u32 using unat_u32_lt [of w] by (simp add: less_mult_imp_div_less)
  have "unat proto < 65536" using unat_u8_lt [of proto] by simp
  then have t: "unat ?t = unat acc1 + ?h"
    by (subst unat_sum7) (simp_all add: a1 unat_and_ffff unat_high_mod d unat_u32_lt unat_ucast_u8_u32 unat_u16_lt)
  have hdr: "be_sum (pseudo_header src dest proto proto_len @ bs) = ?h + be_sum bs" for bs
  proof -
    have "256 * (unat proto_len div 256) + unat proto_len mod 256 = unat proto_len" by simp
    moreover have "unat proto_len div 256 < 256" using unat_u16_lt [of proto_len] by (simp add: less_mult_imp_div_less)
    ultimately show ?thesis
      by (simp add: pseudo_header_def be_sum_ntoa unat_ucast_u8 unat_drop_bit_eq drop_bit_nat_def del: mult_div_mod_eq)
  qed
  have "ones (unat ?t) = ones (be_sum (pseudo_header src dest proto proto_len @ concat p))"
    unfolding t hdr using ones_cong_add [OF a1(2), of ?h ?h] by (simp add: add.commute add.left_commute)
  moreover have "length (pseudo_header src dest proto proto_len @ concat p) < 65536"
    using assms by (simp add: pseudo_header_def ntoa_bytes_def)
  moreover have "inet_chksum_pseudo p src dest proto proto_len = ucast (NOT (fold_carry ?t AND 0xffff))"
    by (simp add: inet_chksum_pseudo_def ps acc1_def)
  ultimately show ?thesis
    using unat_not_u16 [of "fold_carry ?t"] by (simp only: word_unat_eq_iff unat_inet_chksum unat_fold_carry ones_lt)
qed

theorem inet_chksum_pseudo_flat_witness:
  "inet_chksum_pseudo [[1], [2, 3]] 5 7 17 11 = inet_chksum (pseudo_header 5 7 17 11 @ [1, 2, 3])"
  using inet_chksum_pseudo_flat [of "[[1], [2, 3]]" 5 7 17 11] by simp

text \<open>C27: a header that carries its checksum passes the check: when the checksum of the bytes with a zero field at an
  even position is stored in that field, the checksum of the result is 0.\<close>

theorem chksum_verifies:
  assumes "even (length xs)" and "length xs + length ys < 65534"
    and "c = inet_chksum (xs @ [0, 0] @ ys)"
  shows "inet_chksum (xs @ [ucast (drop_bit 8 c), ucast c] @ ys) = 0"
proof -
  let ?n = "be_sum xs + be_sum ys"
  have s: "be_sum (xs @ [a, b] @ ys) = ?n + 256 * unat a + unat b" for a b using assms(1) by (simp add: be_sum_append)
  have c: "unat c = 65535 - ones ?n" using assms unat_inet_chksum [of "xs @ [0, 0] @ ys"] s [of 0 0] by simp
  have "256 * (unat c div 256) + unat c mod 256 = unat c" by simp
  moreover have "unat c div 256 < 256" using unat_u16_lt [of c] by (simp add: less_mult_imp_div_less)
  ultimately have "be_sum (xs @ [ucast (drop_bit 8 c), ucast c] @ ys) = ?n + unat c"
    unfolding s by (simp add: unat_ucast_u8 unat_drop_bit_eq drop_bit_nat_def del: mult_div_mod_eq)
  moreover have "ones ?n + unat c = 65535" using c ones_lt [of ?n] by linarith
  then have "ones (?n + unat c) = ones 65535" using ones_add_left [of ?n "unat c"] by simp
  then have "ones (?n + unat c) = 65535" by simp
  ultimately have "unat (inet_chksum (xs @ [ucast (drop_bit 8 c), ucast c] @ ys)) = 0"
    using assms(2) by (subst unat_inet_chksum) simp_all
  then show ?thesis by (simp add: unat_eq_0)
qed

theorem chksum_verifies_witness:
  "inet_chksum ([0x45, 0] @ [ucast (drop_bit 8 (inet_chksum [0x45, 0, 0, 0, 9])), ucast (inet_chksum [0x45, 0, 0, 0, 9])] @ [9]) = 0"
  using chksum_verifies [of "[0x45, 0]" "[9]" "inet_chksum [0x45, 0, 0, 0, 9]"] by simp

text \<open>Without buffers of odd length the other routine agrees; its exchange of bytes does nothing.\<close>

lemma pbuf_swap_id: "unat acc < 65536 \<Longrightarrow> pbuf_swap acc = acc"
proof -
  assume "unat acc < 65536"
  then have "acc AND 0xffff = acc" using unat_and_ffff [of acc] by (simp add: word_unat_eq_iff)
  moreover have "pbuf_swap acc = acc AND 0xffff" by (simp add: pbuf_swap_def bit.conj_disj_distrib [symmetric])
  ultimately show ?thesis by simp
qed

lemma pbuf_loop_even: "\<forall>q \<in> set p. even (length q) \<Longrightarrow> pbuf_loop p acc s = pseudo_loop p acc s"
  by (induction p arbitrary: acc) (simp_all add: Let_def)

lemma pseudo_loop_even: "\<forall>q \<in> set p. even (length q) \<Longrightarrow> pseudo_loop p acc s = (acc', s') \<Longrightarrow> s' = s"
  by (induction p arbitrary: acc) (auto simp: Let_def)

lemma inet_chksum_pbuf_even:
  assumes "\<forall>q \<in> set p. even (length q)" and "length (concat p) < 65536"
  shows "inet_chksum_pbuf p = inet_chksum (concat p)"
proof -
  obtain acc s where ps: "pseudo_loop p 0 False = (acc, s)" by force
  have s: "\<not> s" using pseudo_loop_even [OF assms(1) ps] by simp
  have "length q \<le> length (concat p)" if "q \<in> set p" for q
    using that by (auto simp: length_concat intro: member_le_sum_list)
  with assms have "\<forall>q \<in> set p. length q < 65536" by force
  with pseudo_loop_sum [OF _ this ps] s have "unat acc < 65536 \<and> ones (unat acc) = ones (be_sum (concat p))" by (simp add: unswapped_def)
  then have acc: "unat acc < 65536" "unat acc = ones (be_sum (concat p))" using ones_small [of "unat acc"] by simp_all
  have "inet_chksum_pbuf p = ucast (NOT (acc AND 0xffff))"
    using ps s by (simp add: inet_chksum_pbuf_def pbuf_loop_even [OF assms(1)])
  then show ?thesis using unat_not_u16 [OF acc(1)] acc(2) unat_inet_chksum [OF assms(2)] by (simp only: word_unat_eq_iff)
qed

text \<open>The sum over a chain without pseudo header, which checks incoming echo requests, is right when all
  buffers have even length, but a single buffer of odd length gets its checksum with the two bytes exchanged:
  inside the loop the exchange is an identity because of the binding of the operators.\<close>

lemma inet_chksum_pbuf_odd:
  "((\<forall>q \<in> set p. even (length q)) \<and> length (concat p) < 65536 \<longrightarrow> inet_chksum_pbuf p = inet_chksum (concat p))
   \<and> (odd (length bs) \<and> length bs < 65536 \<longrightarrow>
        unat (inet_chksum_pbuf [bs]) = 65535 - ones (256 * (65535 - unat (inet_chksum bs))))"
proof (intro conjI impI; (elim conjE)?)
  assume "odd (length bs)" "length bs < 65536"
  let ?a = "fold_carry (0 + ucast (lwip_standard_chksum bs))"
  have a: "unat ?a = ones (be_sum bs)" using pseudo_step [of 0 bs] \<open>length bs < 65536\<close> by simp
  then have sw: "unat (swap_bytes ?a) = ones (256 * ones (be_sum bs))" using unat_swap [of ?a] by simp
  have "65535 - unat (inet_chksum bs) = ones (be_sum bs)"
    unfolding unat_inet_chksum [OF \<open>length bs < 65536\<close>] using ones_lt [of "be_sum bs"] by linarith
  moreover have "inet_chksum_pbuf [bs] = ucast (NOT (swap_bytes ?a AND 0xffff))"
    using \<open>odd (length bs)\<close> a by (simp add: inet_chksum_pbuf_def pbuf_swap_id Let_def)
  ultimately show "unat (inet_chksum_pbuf [bs]) = 65535 - ones (256 * (65535 - unat (inet_chksum bs)))"
    using unat_not_u16 [of "swap_bytes ?a"] by (simp only: sw ones_lt)
qed (rule inet_chksum_pbuf_even)

theorem inet_chksum_pbuf_odd_witness: "inet_chksum_pbuf [[1, 2], [3, 4]] = inet_chksum [1, 2, 3, 4] \<and> inet_chksum_pbuf [[1]] \<noteq> inet_chksum [1]"
proof -
  have "unat (inet_chksum [1]) = 65279" by (subst unat_inet_chksum) simp_all
  then have "unat (inet_chksum_pbuf [[1]]) = 65534" using inet_chksum_pbuf_odd [of "[]" "[1]"] by (simp add: ones_def)
  with \<open>unat (inet_chksum [1]) = 65279\<close> inet_chksum_pbuf_odd [of "[[1, 2], [3, 4]]" "[]"] show ?thesis by auto
qed

section \<open>Dotted notation\<close>

lemma ntoa_inv_cases:
  "b < 10 \<Longrightarrow> ntoa_inv b = [48 + b]"
  "10 \<le> b \<Longrightarrow> b < 100 \<Longrightarrow> ntoa_inv b = [48 + b mod 10, 48 + b div 10]"
  "100 \<le> b \<Longrightarrow> ntoa_inv b = [48 + b mod 10, 48 + b div 10 mod 10, 48 + b div 100]"
proof -
  have nz: "b div c \<noteq> 0 \<longleftrightarrow> c \<le> b" if "c \<noteq> 0" for b c :: u8
  proof -
    have "b div c \<noteq> 0 \<longleftrightarrow> unat b div unat c \<noteq> 0" by (simp add: word_unat_eq_iff unat_div)
    also have "\<dots> \<longleftrightarrow> unat c \<le> unat b" using that by (simp add: div_eq_0_iff unat_gt_0 not_less)
    finally show ?thesis by (simp add: word_le_nat_alt)
  qed
  have dd: "b div 10 div 10 = b div 100" for b :: u8 by (simp add: word_unat_eq_iff unat_div div_mult2_eq [symmetric])
  have lt: "b div 10 < 10 \<longleftrightarrow> b < 100" for b :: u8 by (simp add: word_less_nat_alt unat_div div_less_iff_less_mult)
  have m: "b mod 10 = b" if "b < 10" for b :: u8 using that by (simp add: word_unat_eq_iff unat_mod word_less_nat_alt)
  have one: "ntoa_inv b = [48 + b]" if "b < 10" for b
    using that nz [of 10 b] by (subst ntoa_inv.simps) (simp add: m not_le [symmetric])
  then show "b < 10 \<Longrightarrow> ntoa_inv b = [48 + b]" .
  have two: "ntoa_inv b = [48 + b mod 10, 48 + b div 10]" if "10 \<le> b" "b < 100" for b
    using that nz [of 10 b] lt [of b] by (subst ntoa_inv.simps) (simp add: one)
  then show "10 \<le> b \<Longrightarrow> b < 100 \<Longrightarrow> ntoa_inv b = [48 + b mod 10, 48 + b div 10]" .
  show "ntoa_inv b = [48 + b mod 10, 48 + b div 10 mod 10, 48 + b div 100]" if "100 \<le> b"
  proof -
    have "10 \<le> b" using that by (rule order_trans [rotated]) simp
    moreover have "10 \<le> b div 10" using lt [of b] that by (simp add: not_less [symmetric])
    moreover have "b div 10 < 100" by (simp add: word_less_nat_alt unat_div div_less_iff_less_mult) (use unat_u8_lt [of b] in linarith)
    ultimately show ?thesis using nz [of 10 b] two [of "b div 10"] by (subst ntoa_inv.simps) (simp add: dd)
  qed
qed

lemma digit_u8:
  fixes d :: u8
  assumes "d < 10"
  shows "inet_isdigit (48 + d)" and "48 + d - 48 = d" and "48 + d = 48 \<longleftrightarrow> d = 0"
proof -
  have "unat d < 10" using assms by (simp add: word_less_nat_alt)
  then have "unat (48 + d) = 48 + unat d" by (simp add: unat_word_ariths)
  then show "inet_isdigit (48 + d)" using \<open>unat d < 10\<close> by (simp add: inet_isdigit_def in_range_def word_le_nat_alt)
qed simp_all

lemma aton_digits_digit: "d < 10 \<Longrightarrow> aton_digits base val ((48 + d) # cs) = aton_digits base (val * base + ucast d) cs"
  by (simp add: digit_u8)

definition number_end :: "u8 list \<Rightarrow> bool" where
  "number_end r \<longleftrightarrow> r = [] \<or> hd r = 46"

lemma aton_digits_end: "number_end r \<Longrightarrow> base \<noteq> 16 \<Longrightarrow> aton_digits base val r = (val, r)"
  by (cases r) (auto simp: number_end_def inet_isdigit_def in_range_def)

lemma peek_end: "number_end r \<Longrightarrow> peek r = 0 \<or> peek r = 46"
  by (cases r) (auto simp: number_end_def)

lemma aton_number_byte:
  assumes "number_end r"
  shows "aton_number (rev (ntoa_inv b) @ r) = Some (ucast b, r)"
proof -
  note fin = aton_digits_end [OF assms]
  have u: "ucast (x :: u8) = (0 :: u32) \<longleftrightarrow> x = 0" for x by (simp add: word_unat_eq_iff unat_ucast_u8_u32)
  have dm: "ucast (x div 10) * 10 + ucast (x mod 10) = (ucast x :: u32)" for x :: u8
  proof -
    have "unat (x div 10) = unat x div 10" "unat (x mod 10) = unat x mod 10" by (simp_all add: unat_div unat_mod)
    moreover have "unat x div 10 * 10 + unat x mod 10 = unat x" "unat x < 2 ^ 32" using unat_u8_lt [of x] by simp_all
    moreover have "unat x div 10 * 10 < 2 ^ 32" using unat_u8_lt [of x] by (simp add: div_times_less_eq_dividend le_less_trans [OF div_times_less_eq_dividend])
    ultimately show ?thesis by (simp add: word_unat_eq_iff unat_word_ariths unat_ucast_u8_u32)
  qed
  have m: "x mod 10 < 10" for x :: u8 by (simp add: word_less_nat_alt unat_mod)
  consider "b = 0" | "b \<noteq> 0" "b < 10" | "10 \<le> b" "b < 100" | "100 \<le> b" by force
  then show ?thesis
  proof cases
    case 1
    then show ?thesis using peek_end [OF assms] digit_u8(1) [of 0]
      by (auto simp: ntoa_inv_cases aton_number_def fin)
  next
    case 2
    then show ?thesis using digit_u8 [of b] by (simp add: ntoa_inv_cases aton_number_def fin)
  next
    case 3
    then have "b div 10 < 10" by (simp add: word_less_nat_alt unat_div div_less_iff_less_mult)
    moreover have "b div 10 \<noteq> 0" using 3 by (simp add: word_unat_eq_iff unat_div div_eq_0_iff word_le_nat_alt)
    ultimately show ?thesis using 3 digit_u8 [of "b div 10"] digit_u8 [of "b mod 10"] m [of b]
      by (simp add: ntoa_inv_cases aton_number_def fin dm)
  next
    case 4
    have "b div 100 < 10" using unat_u8_lt [of b] by (simp add: word_less_nat_alt unat_div div_less_iff_less_mult)
    moreover have "b div 100 \<noteq> 0" using 4 by (simp add: word_unat_eq_iff unat_div div_eq_0_iff word_le_nat_alt)
    moreover have "b div 10 div 10 = b div 100" by (simp add: word_unat_eq_iff unat_div div_mult2_eq [symmetric])
    ultimately show ?thesis using 4 digit_u8 [of "b div 100"] digit_u8 [of "b div 10 mod 10"] digit_u8 [of "b mod 10"] m dm [of b] dm [of "b div 10"]
      by (simp add: ntoa_inv_cases aton_number_def fin)
  qed
qed

text \<open>C28: addresses survive printing and reading: \<open>inet_aton\<close> accepts what \<open>inet_ntoa\<close> prints and gives the address
  back, and the string fits the 16 bytes of the static array.\<close>

theorem inet_aton_ntoa: "inet_aton (inet_ntoa a) = Some a \<and> length (inet_ntoa a) < 16"
proof -
  let ?d = "\<lambda>b. rev (ntoa_inv b)"
  obtain b3 b2 b1 b0 :: u8 where bs: "ntoa_bytes a = [b3, b2, b1, b0]"
      and b: "b3 = ucast (drop_bit 24 a)" "b2 = ucast (drop_bit 16 a)" "b1 = ucast (drop_bit 8 a)" "b0 = ucast a"
    by (simp add: ntoa_bytes_def)
  have s: "inet_ntoa a = ?d b3 @ 46 # ?d b2 @ 46 # ?d b1 @ 46 # ?d b0 @ []"
    by (simp add: inet_ntoa_def bs butlast_append)
  have p: "aton_parts [] (inet_ntoa a) = Some ([ucast b3, ucast b2, ucast b1], ucast b0, [])"
    unfolding s using aton_number_byte [of "[]" b0] by (simp add: aton_parts.simps aton_number_byte number_end_def)
  have le: "ucast b0 \<le> (0xff :: u32)" using unat_u8_lt [of b0] by (simp add: word_le_nat_alt unat_ucast_u8_u32)
  have v: "ucast b0 OR (push_bit 24 (ucast b3) OR push_bit 16 (ucast b2) OR push_bit 8 (ucast b1)) = a"
  proof (rule bit_word_eqI)
    fix n assume n: "n < LENGTH(32)"
    consider "n < 8" | "8 \<le> n" "n < 16" | "16 \<le> n" "n < 24" | "24 \<le> n" by linarith
    then show "bit ((ucast b0 :: u32) OR (push_bit 24 (ucast b3) OR push_bit 16 (ucast b2) OR push_bit 8 (ucast b1))) n = bit a n"
      by cases (use n in \<open>auto simp: b bit_simps\<close>)
  qed
  have l: "length (ntoa_inv x) \<le> 3" for x using ntoa_inv_cases [of x] by (cases "x < 10"; cases "x < 100") (auto simp: not_less)
  have "length (inet_ntoa a) < 16" unfolding s using l [of b3] l [of b2] l [of b1] l [of b0] by simp
  then show ?thesis using le v by (simp add: inet_aton_def p)
qed

end
