(* ===== verification/Xell_Tftp.thy ===== *)
theory Xell_Tftp
  imports Xell_Time Xell_String Xell_Inet
begin
unbundle bit_operations_syntax

section \<open>State\<close>

text \<open>
  The TFTP client of \<^verbatim>\<open>src/tftp.c\<close>. \<open>tftp\<close> holds its static variables, the byte memory, the peer that
  \<^verbatim>\<open>udp_connect\<close> sets and the datagrams sent so far with their destinations. Integers are \<^verbatim>\<open>int\<close>; only \<open>ptr\<close> can
  reach the limits of its 32 bits, and its sums wrap by \<open>s32\<close>. The network is the parameter of the
  loop: each round has the time base readings taken in it, whether a buffer can be allocated, and the
  datagrams \<^verbatim>\<open>network_poll\<close> delivers, each with the place of its payload.
\<close>

definition TFTP_STATE_RRQ_SEND :: nat where "TFTP_STATE_RRQ_SEND = 0"
definition TFTP_STATE_ACK_SEND :: nat where "TFTP_STATE_ACK_SEND = 1"
definition TFTP_STATE_FINISH :: nat where "TFTP_STATE_FINISH = 2"
definition TFTP_OPCODE_RRQ :: u8 where "TFTP_OPCODE_RRQ = 1"
definition TFTP_OPCODE_ACK :: u8 where "TFTP_OPCODE_ACK = 4"

lemmas tftp_consts = TFTP_STATE_RRQ_SEND_def TFTP_STATE_ACK_SEND_def TFTP_STATE_FINISH_def

record tftp =
  tmem :: mem
  tftp_state :: nat
  tftp_result :: int
  maxtries :: int
  tries :: int
  current_block :: int
  send :: bool
  last_size :: int
  ptr :: int
  ts :: tb
  start :: tb
  base :: addr
  image_maxlen :: int
  peer :: "(u32 \<times> u16) option"
  sent :: "((u32 \<times> u16) option \<times> u8 list) list"

record arrival =
  a_payload :: addr
  a_bytes :: "u8 list"
  a_from :: "u32 \<times> u16"
  a_start :: tb
  a_ts :: tb

record tick =
  r_now :: tb
  r_start :: tb
  r_alloc :: bool
  r_arrivals :: "arrival list"

section \<open>Receiving\<close>

definition d_u16 :: "mem \<Rightarrow> addr \<Rightarrow> int" where
  "d_u16 m d = uint (be16 (m d) (m (d + 1)))"

definition tftp_data :: "addr \<Rightarrow> u16 \<Rightarrow> tftp \<Rightarrow> tftp" where
  "tftp_data d tot_len s =
     (let this_block = d_u16 (tmem s) (d + 2);
          pl = uint tot_len - 4
      in if this_block = current_block s + 1
         then let s = (if s32 (ptr s + pl) \<le> image_maxlen s
                       then s\<lparr>tmem := memcpy (base s + word_of_int (ptr s)) (d + 4) (word_of_int pl) (tmem s)\<rparr> else s);
                  s = s\<lparr>current_block := current_block s + 1, ptr := s32 (ptr s + pl)\<rparr>
              in if pl < last_size s then s\<lparr>tftp_result := 0, tftp_state := TFTP_STATE_FINISH\<rparr>
                 else s\<lparr>last_size := pl, send := True\<rparr>
         else if this_block = current_block s then s
         else s\<lparr>last_size := pl, send := True\<rparr>)"

definition tftp_recv :: "addr \<Rightarrow> u16 \<Rightarrow> u32 \<times> u16 \<Rightarrow> tb \<Rightarrow> tb \<Rightarrow> tftp \<Rightarrow> tftp" where
  "tftp_recv d tot_len from t_start t_ts s =
     (let s = (if tot_len < 2 then s\<lparr>tftp_state := TFTP_STATE_FINISH, tftp_result := -1\<rparr> else s);
          s = s\<lparr>start := t_start\<rparr>;
          opcode = d_u16 (tmem s) d;
          s = (if opcode = 3 then tftp_data d tot_len s
               else if opcode = 5 then s\<lparr>tftp_state := TFTP_STATE_FINISH, tftp_result := -2\<rparr>
               else s);
          s = (if tftp_state s = TFTP_STATE_RRQ_SEND
               then s\<lparr>peer := Some from, ts := t_ts, tftp_state := TFTP_STATE_ACK_SEND\<rparr> else s)
      in s\<lparr>tries := 0\<rparr>)"

text \<open>The network stores a datagram and calls the handler.\<close>

definition deliver :: "arrival \<Rightarrow> tftp \<Rightarrow> tftp" where
  "deliver a s = tftp_recv (a_payload a) (of_nat (length (a_bytes a))) (a_from a) (a_start a) (a_ts a)
     (s\<lparr>tmem := store_list (tmem s) (a_payload a) (a_bytes a)\<rparr>)"

section \<open>The transfer\<close>

definition tftp_timeout :: "tick \<Rightarrow> tftp \<Rightarrow> bool \<times> tftp" where
  "tftp_timeout r s =
     (if tb_diff_msec (r_now r) (start s) > 500
      then let s = (if tftp_state s = TFTP_STATE_RRQ_SEND then s
                    else if current_block s = 0 then s\<lparr>tftp_state := TFTP_STATE_RRQ_SEND\<rparr> else s);
               s = s\<lparr>tries := tries s + 1\<rparr>;
               s = (if tries s \<ge> maxtries s div 2
                    then s\<lparr>tftp_state := TFTP_STATE_RRQ_SEND, current_block := 0, last_size := 0\<rparr> else s)
           in if tries s \<ge> maxtries s then (True, s\<lparr>tftp_result := -2\<rparr>)
              else (False, s\<lparr>start := r_start r, send := True\<rparr>)
      else (False, s))"

definition rrq_packet :: "u8 list \<Rightarrow> u8 list" where
  "rrq_packet file = [0, TFTP_OPCODE_RRQ] @ file @ [0] @ bytes ''octet'' @ [0]"

definition ack_packet :: "int \<Rightarrow> u8 list" where
  "ack_packet block = [0, TFTP_OPCODE_ACK, word_of_int (drop_bit 8 block), word_of_int (block AND 0xff)]"

definition tftp_send :: "u32 \<Rightarrow> u8 list \<Rightarrow> tick \<Rightarrow> tftp \<Rightarrow> tftp" where
  "tftp_send server file r s =
     (if \<not> send s then s
      else if tftp_state s = TFTP_STATE_RRQ_SEND
      then if r_alloc r then s\<lparr>sent := sent s @ [(Some (server, 69), rrq_packet file)], send := False\<rparr> else s
      else if tftp_state s = TFTP_STATE_ACK_SEND
      then if r_alloc r then s\<lparr>sent := sent s @ [(peer s, ack_packet (current_block s))], send := False\<rparr> else s
      else s\<lparr>tftp_state := TFTP_STATE_FINISH\<rparr>)"

definition tftp_round :: "u32 \<Rightarrow> u8 list \<Rightarrow> tick \<Rightarrow> tftp \<Rightarrow> bool \<times> tftp" where
  "tftp_round server file r s =
     (let (abort, s) = tftp_timeout r s
      in if abort then (True, s) else (False, fold deliver (r_arrivals r) (tftp_send server file r s)))"

text \<open>The loop over the rounds; \<open>None\<close> when the transfer is still going on after them.\<close>

fun tftp_loop :: "u32 \<Rightarrow> u8 list \<Rightarrow> tick list \<Rightarrow> tftp \<Rightarrow> tftp option" where
  "tftp_loop server file rs s =
     (if tftp_state s = TFTP_STATE_FINISH then Some s
      else case rs of [] \<Rightarrow> None
      | r # rs \<Rightarrow> let (abort, s) = tftp_round server file r s in if abort then Some s else tftp_loop server file rs s)"

declare tftp_loop.simps [simp del]

definition tftp_setup :: "addr \<Rightarrow> int \<Rightarrow> tb \<Rightarrow> tftp \<Rightarrow> tftp" where
  "tftp_setup target maxlen t s =
     s\<lparr>base := target, image_maxlen := maxlen, peer := None, tftp_state := TFTP_STATE_RRQ_SEND, current_block := 0,
       last_size := 0, start := t, send := True, maxtries := 10, tries := 0\<rparr>"

definition do_tftp :: "bool \<Rightarrow> tb \<Rightarrow> tick list \<Rightarrow> addr \<Rightarrow> int \<Rightarrow> u32 \<Rightarrow> u8 list \<Rightarrow> tftp \<Rightarrow> (int \<times> tftp) option" where
  "do_tftp pcb_ok t rs target maxlen server file s =
     (if \<not> pcb_ok then Some (-1, s\<lparr>base := target, image_maxlen := maxlen\<rparr>)
      else case tftp_loop server file rs (tftp_setup target maxlen t s) of
        None \<Rightarrow> None
      | Some s \<Rightarrow> Some (if tftp_result s < 0 then tftp_result s else ptr s, s))"

section \<open>Booting\<close>

text \<open>The outcome of a boot attempt: a null pointer is read, the transfer is still going on, or a result.\<close>

datatype 'a outcome = Null_Read | Running | Returned 'a

definition split_at :: "u8 \<Rightarrow> u8 list \<Rightarrow> u8 list \<times> u8 list option" where
  "split_at c xs = (takeWhile (\<lambda>x. x \<noteq> c) xs, if c \<in> set xs then Some (tl (dropWhile (\<lambda>x. x \<noteq> c) xs)) else None)"

definition boot_tftp ::
  "(u32 \<Rightarrow> u8 list \<Rightarrow> tftp \<Rightarrow> (int \<times> tftp) option) \<Rightarrow> (addr \<Rightarrow> int \<Rightarrow> u8 list option \<Rightarrow> tftp \<Rightarrow> int \<times> tftp) \<Rightarrow>
   u8 list option \<Rightarrow> u8 list option \<Rightarrow> tftp \<Rightarrow> (int \<times> tftp) outcome" where
  "boot_tftp transfer execute_elf_at server_addr tftp_bootfile s =
     (case tftp_bootfile of
        None \<Rightarrow> Null_Read
      | Some bootfile \<Rightarrow>
          (let (bootfile, args) = split_at (ch CHR '' '') bootfile;
               server = (case server_addr of None \<Rightarrow> 0
                         | Some a \<Rightarrow> if a = [] then 0 else (case inet_aton a of None \<Rightarrow> 0 | Some v \<Rightarrow> v))
           in if server = 0 then Returned (-1, s)
              else if bootfile = [] then Returned (-1, s)
              else (case transfer server bootfile s of
                  None \<Rightarrow> Running
                | Some (res, s) \<Rightarrow> if res < 0 then Returned (res, s) else Returned (execute_elf_at LOADER_RAW res args s))))"

definition boot_tftp_url ::
  "(u32 \<Rightarrow> u8 list \<Rightarrow> tftp \<Rightarrow> (int \<times> tftp) option) \<Rightarrow> (addr \<Rightarrow> int \<Rightarrow> u8 list option \<Rightarrow> tftp \<Rightarrow> int \<times> tftp) \<Rightarrow>
   u8 list option \<Rightarrow> tftp \<Rightarrow> (int \<times> tftp) outcome" where
  "boot_tftp_url transfer execute_elf_at url s =
     (let bootfile = (case url of None \<Rightarrow> [] | Some u \<Rightarrow> u)
      in case split_at (ch CHR '':'') bootfile of
           (host, Some rest) \<Rightarrow> boot_tftp transfer execute_elf_at (Some (take 19 host)) (Some rest) s
         | (_, None) \<Rightarrow> boot_tftp transfer execute_elf_at (Some []) url s)"

section \<open>A transfer is faithful\<close>

text \<open>A file as the server cuts it: blocks of \<open>S\<close> bytes and a shorter last one.\<close>

definition file_blocks :: "nat \<Rightarrow> u8 list list \<Rightarrow> bool" where
  "file_blocks S bl \<longleftrightarrow> bl \<noteq> [] \<and> length bl < 65536 \<and> S < 65532
     \<and> (\<forall>i < length bl - 1. length (bl ! i) = S) \<and> length (last bl) < S"

definition data_packet :: "u8 list list \<Rightarrow> nat \<Rightarrow> u8 list" where
  "data_packet bl i = [0, 3, ucast (drop_bit 8 (of_nat i :: u16)), ucast (of_nat i :: u16)] @ bl ! (i - 1)"

text \<open>What may arrive: any block of the file, in any order and any number of times, or a datagram that is not a
  data block, outside of the image.\<close>

definition arrival_ok :: "u8 list list \<Rightarrow> addr \<Rightarrow> nat \<Rightarrow> arrival \<Rightarrow> bool" where
  "arrival_ok bl B M a \<longleftrightarrow> region (a_payload a) (length (a_bytes a)) \<inter> region B M = {}
     \<and> ((\<exists>i. 1 \<le> i \<and> i \<le> length bl \<and> a_bytes a = data_packet bl i)
        \<or> (2 \<le> length (a_bytes a) \<and> length (a_bytes a) < 65536 \<and> take 2 (a_bytes a) \<noteq> [0, 3]))"

definition got :: "u8 list list \<Rightarrow> tftp \<Rightarrow> u8 list" where
  "got bl s = concat (take (nat (current_block s)) bl)"

definition tftp_inv :: "nat \<Rightarrow> u8 list list \<Rightarrow> nat \<Rightarrow> addr \<Rightarrow> nat \<Rightarrow> tftp \<Rightarrow> bool" where
  "tftp_inv S bl off B M s \<longleftrightarrow> base s = B \<and> image_maxlen s = int M \<and> maxtries s = 10
     \<and> 0 \<le> current_block s \<and> current_block s \<le> int (length bl) \<and> last_size s \<le> int S
     \<and> ptr s = int (off + length (got bl s))
     \<and> load_list (tmem s) (B + of_nat off) (length (got bl s)) = got bl s
     \<and> tftp_state s \<le> TFTP_STATE_FINISH \<and> (tftp_state s = TFTP_STATE_FINISH \<longrightarrow> tftp_result s < 0 \<or> current_block s = int (length bl))"

lemma be16_split: "be16 (ucast (drop_bit 8 (w :: u16))) (ucast w) = w"
proof -
  have "unat w div 256 < 256" using unat_u16_lt [of w] by (simp add: less_mult_imp_div_less)
  then show ?thesis by (simp add: word_unat_eq_iff unat_be16 unat_ucast_u8 unat_drop_bit_eq drop_bit_nat_def)
qed

lemma d_u16_load:
  assumes "load_list m d n = bs" and "i + 1 < n"
  shows "d_u16 m (d + of_nat i) = uint (be16 (bs ! i) (bs ! (i + 1)))"
  using assms load_list_nth [of i n m d] load_list_nth [of "i + 1" n m d] by (simp add: d_u16_def add.assoc add.commute add.left_commute)

lemma length_block:
  assumes "file_blocks S bl" and "i < length bl"
  shows "length (bl ! i) \<le> S" and "length (bl ! i) < S \<longleftrightarrow> i = length bl - 1"
proof -
  have "i < length bl - 1 \<or> i = length bl - 1 \<and> bl ! i = last bl" 
  proof (cases "i < length bl - 1")
    case False
    then have "i = length bl - 1" "bl \<noteq> []" using assms(2) by auto
    then show ?thesis by (simp add: last_conv_nth)
  qed simp
  then show "length (bl ! i) \<le> S" "length (bl ! i) < S \<longleftrightarrow> i = length bl - 1"
    using assms(1) by (auto simp: file_blocks_def)
qed

lemma concat_take_Suc: "i < length bl \<Longrightarrow> concat (take (Suc i) bl) = concat (take i bl) @ bl ! i"
  by (simp add: take_Suc_conv_app_nth)

lemma length_concat_take: "length (concat (take i bl)) \<le> length (concat bl)"
  using append_take_drop_id [of i bl] by (metis concat_append length_append le_add1)

lemma packet_fields:
  assumes fb: "file_blocks S bl" and i: "1 \<le> i" "i \<le> length bl"
    and d: "load_list m d (length (data_packet bl i)) = data_packet bl i"
  shows "length (data_packet bl i) = 4 + length (bl ! (i - 1))" and "d_u16 m d = 3" and "d_u16 m (d + 2) = int i"
    and "uint (of_nat (length (data_packet bl i)) :: u16) - 4 = int (length (bl ! (i - 1)))"
    and "\<not> (of_nat (length (data_packet bl i)) :: u16) < 2"
proof -
  let ?p = "data_packet bl i"
  have lb: "length (bl ! (i - 1)) \<le> S" "S < 65532" using length_block [OF fb, of "i - 1"] i fb by (auto simp: file_blocks_def)
  show lp: "length ?p = 4 + length (bl ! (i - 1))" by (simp add: data_packet_def)
  have iw: "uint (of_nat i :: u16) = int i" using i fb by (simp add: file_blocks_def unsigned_of_nat take_bit_nat_eq_self)
  show "d_u16 m (d + 2) = int i"
    using d_u16_load [OF d, of 2] iw by (simp add: lp) (simp add: data_packet_def be16_split)
  show "d_u16 m d = 3" using d_u16_load [OF d, of 0] by (simp add: lp) (simp add: data_packet_def be16_def)
  have "length ?p < 65536" using lb lp by linarith
  then have "uint (of_nat (length ?p) :: u16) = int (length ?p)" "unat (of_nat (length ?p) :: u16) = length ?p"
    by (simp_all add: unsigned_of_nat take_bit_nat_eq_self)
  then show "uint (of_nat (length ?p) :: u16) - 4 = int (length (bl ! (i - 1)))" "\<not> (of_nat (length ?p) :: u16) < 2"
    using lp by (simp_all add: word_less_nat_alt)
qed

lemma tftp_data_inv:
  assumes inv: "tftp_inv S bl off B M s" and fb: "file_blocks S bl" and i: "1 \<le> i" "i \<le> length bl"
    and fits: "off + length (concat bl) \<le> M" "M < 2 ^ 31"
    and d: "load_list (tmem s) d (length (data_packet bl i)) = data_packet bl i"
    and dis: "region d (length (data_packet bl i)) \<inter> region B M = {}"
  shows "tftp_inv S bl off B M (tftp_data d (of_nat (length (data_packet bl i))) s)"
proof -
  let ?blk = "bl ! (i - 1)" and ?p = "data_packet bl i" and ?n = "length (got bl s)"
  have lb: "length ?blk \<le> S" "S < 65532" using length_block [OF fb, of "i - 1"] i fb by (auto simp: file_blocks_def)
  note lp = packet_fields(1) [OF fb i d] and this_block = packet_fields(3) [OF fb i d] and pl = packet_fields(4) [OF fb i d]
  show ?thesis
  proof (cases "int i = current_block s + 1")
    case True
    then have cb: "nat (current_block s) = i - 1" "current_block s = int (i - 1)" using i by auto
    have g: "concat (take i bl) = got bl s @ ?blk"
      using concat_take_Suc [of "i - 1" bl] i cb by (simp add: got_def)
    then have len: "off + ?n + length ?blk \<le> M" using length_concat_take [of i bl] fits(1) by simp
    have wrap: "s32 (ptr s + int (length ?blk)) = int (off + ?n + length ?blk)" (is "_ = ?q")
      using inv len fits(2) by (subst s32_id) (auto simp: tftp_inv_def)
    have dest: "base s + word_of_int (ptr s) = B + of_nat (off + ?n)" using inv by (simp add: tftp_inv_def)
    have cnt: "unat (word_of_int (int (length ?blk)) :: u64) = length ?blk" using lb by (simp add: unat_of_nat)
    have sub: "region (B + of_nat (off + ?n)) (length ?blk) \<subseteq> region B M" using len by (intro region_sub) simp
    have sub2: "region (d + 4) (length ?blk) \<subseteq> region d (length ?p)"
      using region_sub [of 4 "length ?blk" "length ?p" d] by (simp add: lp)
    have src: "load_list (tmem s) (d + 4) (length ?blk) = ?blk"
      using d by (simp add: lp data_packet_def add.commute)
    define mm where "mm = memcpy (base s + word_of_int (ptr s)) (d + 4) (word_of_int (int (length ?blk))) (tmem s)"
    have mm: "mm = store_list (tmem s) (B + of_nat (off + ?n)) ?blk"
      unfolding mm_def dest using sub sub2 dis cnt src by (subst memcpy_disjoint) auto
    have "region (B + of_nat off) ?n \<inter> region (B + of_nat off + of_nat ?n) (length ?blk) = {}"
      using len fits(2) by (intro region_split_disjoint) simp
    then have old: "load_list mm (B + of_nat off) ?n = got bl s"
      unfolding mm using inv by (subst load_store_other) (auto simp: tftp_inv_def add.assoc)
    have new: "load_list mm (B + of_nat off + of_nat ?n) (length ?blk) = ?blk"
      unfolding mm using lb by (simp add: add.assoc load_store_list)
    have loaded: "load_list mm (B + of_nat off) (length (got bl s @ ?blk)) = got bl s @ ?blk"
      using old new by (simp add: load_list_add)
    have last: "i = length bl" if "int (length ?blk) < last_size s"
    proof -
      have "length ?blk < S" using that inv by (auto simp: tftp_inv_def)
      moreover have "i - 1 < length bl" using i by simp
      ultimately have "i - 1 = length bl - 1" using length_block(2) [OF fb] by blast
      then show ?thesis using i by simp
    qed
    define s1 where "s1 = s\<lparr>tmem := mm, current_block := current_block s + 1, ptr := int (off + ?n + length ?blk)\<rparr>"
    have "int (off + ?n + length ?blk) \<le> image_maxlen s" using inv len by (simp add: tftp_inv_def)
    then have td: "tftp_data d (of_nat (length ?p)) s = (if int (length ?blk) < last_size s
        then s1\<lparr>tftp_result := 0, tftp_state := TFTP_STATE_FINISH\<rparr> else s1\<lparr>last_size := int (length ?blk), send := True\<rparr>)"
      unfolding tftp_data_def this_block pl Let_def mm_def [symmetric] wrap s1_def using True wrap by simp
    have cb1: "current_block s + 1 = int i" using True by simp
    have g1: "got bl s1 = got bl s @ ?blk" proof -
      have "got bl s1 = concat (take i bl)" by (simp add: got_def s1_def cb1)
      then show ?thesis using g by simp
    qed
    have "base s1 = B" "image_maxlen s1 = int M" "maxtries s1 = 10" "current_block s1 = int i"
        "ptr s1 = int (off + length (got bl s1))" "load_list (tmem s1) (B + of_nat off) (length (got bl s1)) = got bl s1"
        "last_size s1 = last_size s" "tftp_state s1 = tftp_state s" "tftp_result s1 = tftp_result s"
      using inv loaded unfolding g1 by (simp_all add: s1_def tftp_inv_def cb1)
    moreover have "tftp_state s = TFTP_STATE_FINISH \<longrightarrow> tftp_result s < 0"
      using inv cb i by (auto simp: tftp_inv_def)
    moreover have "last_size s \<le> int S" "tftp_state s \<le> TFTP_STATE_FINISH" using inv by (simp_all add: tftp_inv_def)
    ultimately show ?thesis
      unfolding td using i lb last by (auto simp: tftp_inv_def got_def)
  next
    case False
    then show ?thesis using inv lb by (simp add: tftp_data_def this_block pl Let_def tftp_inv_def got_def)
  qed
qed

text \<open>The other steps of a round keep the invariant.\<close>

lemma opcode_data:
  assumes "load_list m d n = bs" and "2 \<le> n"
  shows "d_u16 m d = 3 \<longleftrightarrow> take 2 bs = [0, 3]"
proof -
  have "length bs = n" using assms(1) by auto
  then obtain x y r where xy: "bs = x # y # r" using assms(2) by (cases bs; cases "tl bs") auto
  have u: "d_u16 m d = int (256 * unat x + unat y)"
    using d_u16_load [OF assms(1), of 0] assms(2) xy by simp (metis unat_be16 uint_nat of_nat_add of_nat_mult of_nat_numeral)
  have "d_u16 m d = 3 \<longleftrightarrow> 256 * unat x + unat y = 3" unfolding u by linarith
  moreover have "256 * a + b = 3 \<longleftrightarrow> a = 0 \<and> b = 3" for a b :: nat by presburger
  then have "256 * unat x + unat y = 3 \<longleftrightarrow> unat x = 0 \<and> unat y = 3" .
  moreover have "unat y = 3 \<longleftrightarrow> y = 3" by (simp add: word_unat_eq_iff)
  ultimately show ?thesis by (simp add: xy unat_eq_0)
qed

lemma tftp_recv_inv:
  assumes inv: "tftp_inv S bl off B M s" and fb: "file_blocks S bl"
    and fits: "off + length (concat bl) \<le> M" "M < 2 ^ 31" and "2 \<le> n" "n < 65536"
    and d: "load_list (tmem s) d n = bs" and dis: "region d n \<inter> region B M = {}"
    and bs: "(\<exists>i. 1 \<le> i \<and> i \<le> length bl \<and> bs = data_packet bl i) \<or> take 2 bs \<noteq> [0, 3]"
  shows "tftp_inv S bl off B M (tftp_recv d (of_nat n) from t1 t2 s)"
proof -
  have n: "\<not> (of_nat n :: u16) < 2" using assms(5,6) by (simp add: word_less_nat_alt unat_of_nat)
  have lb: "length bs = n" using d by auto
  have op3: "d_u16 (tmem s) d = 3 \<longleftrightarrow> take 2 bs = [0, 3]" by (rule opcode_data [OF d assms(5)])
  let ?s = "s\<lparr>start := t1\<rparr>"
  have inv1: "tftp_inv S bl off B M ?s" using inv by (simp add: tftp_inv_def got_def)
  define s1 where "s1 = (if d_u16 (tmem s) d = 3 then tftp_data d (of_nat n) ?s
      else if d_u16 (tmem s) d = 5 then ?s\<lparr>tftp_state := TFTP_STATE_FINISH, tftp_result := -2\<rparr> else ?s)"
  have "tftp_inv S bl off B M s1"
  proof (cases "d_u16 (tmem s) d = 3")
    case True
    then obtain i where i: "1 \<le> i" "i \<le> length bl" "bs = data_packet bl i" using bs op3 by auto
    then have "load_list (tmem ?s) d (length (data_packet bl i)) = data_packet bl i"
        "region d (length (data_packet bl i)) \<inter> region B M = {}" "n = length (data_packet bl i)"
      using d dis lb by auto
    then show ?thesis using tftp_data_inv [OF inv1 fb i(1,2) fits, of d] True by (simp add: s1_def)
  next
    case False
    then show ?thesis using inv1 by (simp add: s1_def tftp_inv_def got_def)
  qed
  moreover have "tftp_recv d (of_nat n) from t1 t2 s =
      (if tftp_state s1 = TFTP_STATE_RRQ_SEND then s1\<lparr>peer := Some from, ts := t2, tftp_state := TFTP_STATE_ACK_SEND\<rparr> else s1)\<lparr>tries := 0\<rparr>"
    using n by (simp add: tftp_recv_def s1_def Let_def)
  ultimately show ?thesis by (simp add: tftp_inv_def got_def tftp_consts)
qed

lemma deliver_inv:
  assumes "tftp_inv S bl off B M s" and "file_blocks S bl"
    and "off + length (concat bl) \<le> M" "M < 2 ^ 31" and a: "arrival_ok bl B M a"
  shows "tftp_inv S bl off B M (deliver a s)"
proof -
  let ?m = "store_list (tmem s) (a_payload a) (a_bytes a)" and ?n = "length (a_bytes a)"
  have n: "2 \<le> ?n" "?n < 65536"
  proof -
    have "length (data_packet bl i) \<le> S + 4" if "1 \<le> i" "i \<le> length bl" for i
      using that length_block(1) [OF assms(2), of "i - 1"] by (simp add: data_packet_def)
    moreover have "2 \<le> length (data_packet bl i)" for i by (simp add: data_packet_def)
    moreover have "S + 4 < 65536" using assms(2) by (simp add: file_blocks_def)
    ultimately show "2 \<le> ?n" "?n < 65536" using a le_less_trans unfolding arrival_ok_def by metis+
  qed
  have dis: "region (a_payload a) ?n \<inter> region B M = {}" using a by (simp add: arrival_ok_def)
  have "length (got bl s) + off \<le> M" using assms(3) length_concat_take [of "nat (current_block s)" bl] by (simp add: got_def)
  then have "region (B + of_nat off) (length (got bl s)) \<subseteq> region B M" by (intro region_sub) simp
  with dis assms(1) have "tftp_inv S bl off B M (s\<lparr>tmem := ?m\<rparr>)"
    by (simp add: tftp_inv_def got_def) (subst load_store_other, auto)
  moreover have "load_list ?m (a_payload a) ?n = a_bytes a" using n by (simp add: load_store_list)
  ultimately show ?thesis
    unfolding deliver_def using assms(2-4) n dis a by (intro tftp_recv_inv) (auto simp: arrival_ok_def)
qed

lemma tftp_send_inv: "tftp_inv S bl off B M s \<Longrightarrow> tftp_state s \<noteq> TFTP_STATE_FINISH \<Longrightarrow>
    tftp_inv S bl off B M (tftp_send server file r s)"
  by (auto simp: tftp_send_def tftp_inv_def got_def tftp_consts)

text \<open>No restart: no timeout is the fifth in a row.\<close>

fun tftp_calm :: "u32 \<Rightarrow> u8 list \<Rightarrow> tick list \<Rightarrow> tftp \<Rightarrow> bool" where
  "tftp_calm server file rs s \<longleftrightarrow>
     (case rs of [] \<Rightarrow> True
      | r # rs \<Rightarrow> tftp_state s = TFTP_STATE_FINISH
          \<or> (tb_diff_msec (r_now r) (start s) > 500 \<longrightarrow> tries s < 4) \<and> tftp_calm server file rs (snd (tftp_round server file r s)))"

declare tftp_calm.simps [simp del]

lemma tftp_timeout_inv:
  assumes "tftp_inv S bl off B M s" and "tftp_state s \<noteq> TFTP_STATE_FINISH"
    and "tb_diff_msec (r_now r) (start s) > 500 \<longrightarrow> tries s < 4"
  shows "\<exists>s'. tftp_timeout r s = (False, s') \<and> tftp_inv S bl off B M s' \<and> tftp_state s' \<noteq> TFTP_STATE_FINISH"
proof (cases "tb_diff_msec (r_now r) (start s) > 500")
  case True
  with assms show ?thesis by (auto simp: tftp_timeout_def Let_def tftp_inv_def got_def tftp_consts)
next
  case False
  with assms show ?thesis by (auto simp: tftp_timeout_def)
qed

lemma fold_deliver_inv:
  assumes "file_blocks S bl" "off + length (concat bl) \<le> M" "M < 2 ^ 31" and "\<forall>a \<in> set as. arrival_ok bl B M a"
    and "tftp_inv S bl off B M s"
  shows "tftp_inv S bl off B M (fold deliver as s)"
  using assms(4,5) by (induction as arbitrary: s) (auto intro: deliver_inv [OF _ assms(1-3)])

lemma tftp_loop_inv:
  assumes "file_blocks S bl" "off + length (concat bl) \<le> M" "M < 2 ^ 31"
    and "\<forall>r \<in> set rs. \<forall>a \<in> set (r_arrivals r). arrival_ok bl B M a"
    and "tftp_inv S bl off B M s" and "tftp_calm server file rs s" and "tftp_loop server file rs s = Some s'"
  shows "tftp_inv S bl off B M s' \<and> tftp_state s' = TFTP_STATE_FINISH"
  using assms(4-7)
proof (induction rs arbitrary: s)
  case Nil
  then show ?case by (auto simp: tftp_loop.simps split: if_splits)
next
  case (Cons r rs)
  show ?case
  proof (cases "tftp_state s = TFTP_STATE_FINISH")
    case True
    with Cons.prems show ?thesis by (auto simp: tftp_loop.simps)
  next
    case False
    with Cons.prems(3) have calm: "tb_diff_msec (r_now r) (start s) > 500 \<longrightarrow> tries s < 4"
        "tftp_calm server file rs (snd (tftp_round server file r s))" by (simp_all add: tftp_calm.simps [of _ _ "r # rs"])
    obtain s1 where s1: "tftp_timeout r s = (False, s1)" "tftp_inv S bl off B M s1" "tftp_state s1 \<noteq> TFTP_STATE_FINISH"
      using tftp_timeout_inv [OF Cons.prems(2) False calm(1)] by blast
    let ?s2 = "fold deliver (r_arrivals r) (tftp_send server file r s1)"
    have rd: "tftp_round server file r s = (False, ?s2)" using s1(1) by (simp add: tftp_round_def)
    have "tftp_inv S bl off B M ?s2"
      using Cons.prems(1) by (intro fold_deliver_inv [OF assms(1-3)] tftp_send_inv s1) simp
    moreover have "tftp_loop server file rs ?s2 = Some s'"
      using Cons.prems(4) False rd by (simp add: tftp_loop.simps [of _ _ "r # rs"])
    moreover have "tftp_calm server file rs ?s2" using calm(2) rd by simp
    moreover have "\<forall>r \<in> set rs. \<forall>a \<in> set (r_arrivals r). arrival_ok bl B M a" using Cons.prems(1) by simp
    ultimately show ?thesis by (intro Cons.IH)
  qed
qed

text \<open>C18: a transfer is faithful: when the datagrams that arrive are blocks of a file in any order, lost and repeated,
  or no data, and no timeout is the fifth in a row, then a transfer that ends without an error has the whole file in
  memory, behind the \<open>ptr\<close> bytes counted before it, and returns the position of its end.\<close>

theorem tftp_image:
  assumes "file_blocks S bl" and "ptr s = int off" and "off + length (concat bl) \<le> M" and "M < 2 ^ 31"
    and "\<forall>r \<in> set rs. \<forall>a \<in> set (r_arrivals r). arrival_ok bl B M a"
    and "tftp_calm server file rs (tftp_setup B (int M) t s)"
    and "do_tftp True t rs B (int M) server file s = Some (res, s')" and "0 \<le> res"
  shows "res = int (off + length (concat bl)) \<and> load_list (tmem s') (B + of_nat off) (length (concat bl)) = concat bl"
proof -
  let ?s = "tftp_setup B (int M) t s"
  have "tftp_inv S bl off B M ?s"
    using assms(1,2) by (simp add: tftp_inv_def tftp_setup_def got_def tftp_consts)
  moreover have l: "tftp_loop server file rs ?s = Some s'" "res = (if tftp_result s' < 0 then tftp_result s' else ptr s')"
    using assms(7) by (auto simp: do_tftp_def split: option.splits)
  ultimately have "tftp_inv S bl off B M s'" "tftp_state s' = TFTP_STATE_FINISH"
    using tftp_loop_inv [OF assms(1,3,4,5) _ assms(6)] by blast+
  moreover have "\<not> tftp_result s' < 0" using l(2) assms(8) by auto
  ultimately show ?thesis using l(2) by (auto simp: tftp_inv_def got_def)
qed

section \<open>A transfer that is answered in time completes\<close>

text \<open>Every round brings the next block before the timeout.\<close>

fun in_order :: "u8 list list \<Rightarrow> nat \<Rightarrow> tb \<Rightarrow> tick list \<Rightarrow> bool" where
  "in_order bl k t [] \<longleftrightarrow> k = length bl"
| "in_order bl k t (r # rs) \<longleftrightarrow> k < length bl \<and> tb_diff_msec (r_now r) t \<le> 500 \<and> r_alloc r
     \<and> (case r_arrivals r of [a] \<Rightarrow> a_bytes a = data_packet bl (k + 1) \<and> in_order bl (k + 1) (a_start a) rs | _ \<Rightarrow> False)"

lemma deliver_next:
  assumes fb: "file_blocks S bl" and k: "k < length bl" "current_block s = int k"
    and a: "a_bytes a = data_packet bl (k + 1)"
  shows "current_block (deliver a s) = int (k + 1)" and "start (deliver a s) = a_start a" and "sent (deliver a s) = sent s"
    and "int (length (bl ! k)) < last_size s \<Longrightarrow> tftp_state (deliver a s) = TFTP_STATE_FINISH \<and> tftp_result (deliver a s) = 0"
    and "\<not> int (length (bl ! k)) < last_size s \<Longrightarrow> tftp_state s \<noteq> TFTP_STATE_FINISH \<Longrightarrow> tftp_state s \<le> TFTP_STATE_FINISH \<Longrightarrow>
      tftp_state (deliver a s) = TFTP_STATE_ACK_SEND \<and> last_size (deliver a s) = int (length (bl ! k)) \<and> send (deliver a s)"
proof -
  let ?p = "data_packet bl (k + 1)" and ?m = "store_list (tmem s) (a_payload a) (data_packet bl (k + 1))"
  have "length (bl ! k) \<le> S" "S < 65532" using length_block [OF fb k(1)] fb by (auto simp: file_blocks_def)
  then have "load_list ?m (a_payload a) (length ?p) = ?p" by (intro load_store_list) (simp add: data_packet_def)
  from packet_fields [OF fb _ _ this] k(1)
  have f: "d_u16 ?m (a_payload a) = 3" "d_u16 ?m (a_payload a + 2) = int (k + 1)"
      "uint (of_nat (length ?p) :: u16) - 4 = int (length (bl ! k))" "\<not> (of_nat (length ?p) :: u16) < 2" by simp_all
  show "current_block (deliver a s) = int (k + 1)" "start (deliver a s) = a_start a" "sent (deliver a s) = sent s"
    "int (length (bl ! k)) < last_size s \<Longrightarrow> tftp_state (deliver a s) = TFTP_STATE_FINISH \<and> tftp_result (deliver a s) = 0"
    "\<not> int (length (bl ! k)) < last_size s \<Longrightarrow> tftp_state s \<noteq> TFTP_STATE_FINISH \<Longrightarrow> tftp_state s \<le> TFTP_STATE_FINISH \<Longrightarrow>
      tftp_state (deliver a s) = TFTP_STATE_ACK_SEND \<and> last_size (deliver a s) = int (length (bl ! k)) \<and> send (deliver a s)"
    using f(4) k(2) by (auto simp: deliver_def tftp_recv_def tftp_data_def a f(1-3) [simplified] Let_def tftp_consts split: if_splits)
qed

text \<open>The state at the start of a round with \<open>k\<close> blocks received.\<close>

definition tftp_at :: "nat \<Rightarrow> u8 list list \<Rightarrow> nat \<Rightarrow> tb \<Rightarrow> tftp \<Rightarrow> bool" where
  "tftp_at S bl k t s \<longleftrightarrow> current_block s = int k \<and> start s = t \<and> send s
     \<and> (if k = 0 then tftp_state s = TFTP_STATE_RRQ_SEND \<and> last_size s = 0
        else tftp_state s = TFTP_STATE_ACK_SEND \<and> last_size s = int S)"

definition answer :: "u8 list \<Rightarrow> nat \<Rightarrow> u8 list" where
  "answer file k = (if k = 0 then rrq_packet file else ack_packet (int k))"

lemma round_next:
  assumes fb: "file_blocks S bl" and two: "2 \<le> length bl" and at: "tftp_at S bl k t s" and k: "k < length bl"
    and r: "tb_diff_msec (r_now r) t \<le> 500" "r_alloc r" "r_arrivals r = [a]" "a_bytes a = data_packet bl (k + 1)"
  shows "\<exists>s'. tftp_round server file r s = (False, s') \<and> map snd (sent s') = map snd (sent s) @ [answer file k]
    \<and> (if k + 1 = length bl then tftp_state s' = TFTP_STATE_FINISH \<and> tftp_result s' = 0
       else tftp_at S bl (k + 1) (a_start a) s')"
proof -
  let ?s = "tftp_send server file r s"
  have to: "tftp_timeout r s = (False, s)" using r(1) at by (simp add: tftp_timeout_def tftp_at_def not_less [symmetric])
  have s: "current_block ?s = int k" "map snd (sent ?s) = map snd (sent s) @ [answer file k]" "last_size ?s = last_size s"
      "tftp_state ?s \<noteq> TFTP_STATE_FINISH" "tftp_state ?s \<le> TFTP_STATE_FINISH"
    using at r(2) by (auto simp: tftp_send_def tftp_at_def answer_def tftp_consts split: if_splits)
  note d = deliver_next [OF fb k s(1) r(4)]
  have last: "int (length (bl ! k)) < last_size s \<longleftrightarrow> k + 1 = length bl"
    using at length_block [OF fb k] two by (auto simp: tftp_at_def split: if_splits)
  have size: "length (bl ! k) = S" if "k + 1 \<noteq> length bl" using length_block [OF fb k] that k by linarith
  have "tftp_round server file r s = (False, deliver a ?s)" by (simp add: tftp_round_def to r(3))
  moreover have "map snd (sent (deliver a ?s)) = map snd (sent s) @ [answer file k]" using d(3) s(2) by simp
  moreover have "tftp_state (deliver a ?s) = TFTP_STATE_FINISH \<and> tftp_result (deliver a ?s) = 0" if "k + 1 = length bl"
    using d(4) last s(3) that by simp
  moreover have "tftp_at S bl (k + 1) (a_start a) (deliver a ?s)" if "k + 1 \<noteq> length bl"
    using d(1,2,5) last s(3-5) that size by (simp add: tftp_at_def)
  ultimately show ?thesis by auto
qed

lemma loop_in_order:
  assumes fb: "file_blocks S bl" and two: "2 \<le> length bl"
  shows "tftp_at S bl k t s \<Longrightarrow> k < length bl \<Longrightarrow> in_order bl k t rs \<Longrightarrow>
    \<exists>s'. tftp_loop server file rs s = Some s' \<and> tftp_result s' = 0
      \<and> map snd (sent s') = map snd (sent s) @ map (answer file) [k..<length bl]"
proof (induction rs arbitrary: k t s)
  case (Cons r rs)
  then obtain a where r: "tb_diff_msec (r_now r) t \<le> 500" "r_alloc r" "r_arrivals r = [a]" "a_bytes a = data_packet bl (k + 1)"
    and rest: "in_order bl (k + 1) (a_start a) rs" by (auto split: list.splits)
  obtain s1 where s1: "tftp_round server file r s = (False, s1)" "map snd (sent s1) = map snd (sent s) @ [answer file k]"
      "if k + 1 = length bl then tftp_state s1 = TFTP_STATE_FINISH \<and> tftp_result s1 = 0 else tftp_at S bl (k + 1) (a_start a) s1"
    using round_next [OF fb two Cons.prems(1,2) r, of server "file"] by blast
  have "tftp_state s \<noteq> TFTP_STATE_FINISH" using Cons.prems(1) by (auto simp: tftp_at_def tftp_consts split: if_splits)
  then have step: "tftp_loop server file (r # rs) s = tftp_loop server file rs s1"
    using s1(1) by (simp add: tftp_loop.simps [of _ _ "r # rs"])
  have upt: "[k..<length bl] = k # [k + 1..<length bl]" using Cons.prems(2) by (simp add: upt_conv_Cons)
  show ?case
  proof (cases "k + 1 = length bl")
    case True
    then show ?thesis using s1 step upt by (simp add: tftp_loop.simps)
  next
    case False
    then have "tftp_at S bl (k + 1) (a_start a) s1" "k + 1 < length bl" using s1(3) Cons.prems(2) by auto
    from Cons.IH [OF this rest] show ?thesis using s1(2) step upt by auto
  qed
qed simp

lemma in_order_calm:
  assumes fb: "file_blocks S bl" and two: "2 \<le> length bl"
  shows "tftp_at S bl k t s \<Longrightarrow> k < length bl \<Longrightarrow> in_order bl k t rs \<Longrightarrow> tftp_calm server file rs s"
proof (induction rs arbitrary: k t s)
  case (Cons r rs)
  then obtain a where r: "tb_diff_msec (r_now r) t \<le> 500" "r_alloc r" "r_arrivals r = [a]" "a_bytes a = data_packet bl (k + 1)"
    and rest: "in_order bl (k + 1) (a_start a) rs" by (auto split: list.splits)
  obtain s1 where s1: "tftp_round server file r s = (False, s1)"
      "if k + 1 = length bl then tftp_state s1 = TFTP_STATE_FINISH \<and> tftp_result s1 = 0 else tftp_at S bl (k + 1) (a_start a) s1"
    using round_next [OF fb two Cons.prems(1,2) r, of server "file"] by blast
  have "\<not> tb_diff_msec (r_now r) (start s) > 500" using r(1) Cons.prems(1) by (simp add: tftp_at_def)
  moreover have "tftp_calm server file rs s1"
  proof (cases "k + 1 = length bl")
    case True
    then show ?thesis using s1(2) by (auto simp: tftp_calm.simps split: list.splits)
  next
    case False
    then show ?thesis using s1(2) Cons.prems(2) Cons.IH [OF _ _ rest, of s1] by auto
  qed
  ultimately show ?case using s1(1) by (simp add: tftp_calm.simps [of _ _ "r # rs"])
qed (simp add: tftp_calm.simps)

lemma tftp_completes_facts:
  assumes "file_blocks S bl" and "2 \<le> length bl" and "ptr s = int off" and "off + length (concat bl) \<le> M" and "M < 2 ^ 31"
    and "\<forall>r \<in> set rs. \<forall>a \<in> set (r_arrivals r). arrival_ok bl B M a" and "in_order bl 0 t rs"
  shows "\<exists>s'. do_tftp True t rs B (int M) server file s = Some (int (off + length (concat bl)), s')
    \<and> load_list (tmem s') (B + of_nat off) (length (concat bl)) = concat bl
    \<and> map snd (sent s') = map snd (sent s) @ rrq_packet file # map (\<lambda>k. ack_packet (int k)) [1..<length bl]"
proof -
  let ?s = "tftp_setup B (int M) t s"
  have at: "tftp_at S bl 0 t ?s" by (simp add: tftp_at_def tftp_setup_def)
  have inv: "tftp_inv S bl off B M ?s"
    using assms(1,3) by (simp add: tftp_inv_def tftp_setup_def got_def tftp_consts)
  have k: "0 < length bl" using assms(2) by linarith
  obtain s' where s': "tftp_loop server file rs ?s = Some s'" "tftp_result s' = 0"
      "map snd (sent s') = map snd (sent ?s) @ map (answer file) [0..<length bl]"
    using loop_in_order [OF assms(1,2) at k assms(7)] by blast
  have "tftp_inv S bl off B M s'" "tftp_state s' = TFTP_STATE_FINISH"
    using tftp_loop_inv [OF assms(1,4,5,6) inv in_order_calm [OF assms(1,2) at k assms(7)] s'(1)] by blast+
  moreover from this have "got bl s' = concat bl" using s'(2) by (simp add: tftp_inv_def got_def)
  ultimately have "ptr s' = int (off + length (concat bl))" "load_list (tmem s') (B + of_nat off) (length (concat bl)) = concat bl"
    unfolding tftp_inv_def by simp_all
  moreover have "map (answer file) [0..<length bl] = rrq_packet file # map (\<lambda>k. ack_packet (int k)) [1..<length bl]"
    using k by (simp add: upt_conv_Cons answer_def)
  ultimately show ?thesis using s' by (simp add: do_tftp_def tftp_setup_def)
qed


text \<open>A file of three bytes in two blocks, for the examples.\<close>

definition demo_tick :: "u8 list \<Rightarrow> tick" where
  "demo_tick bs = \<lparr>r_now = \<lparr>tb_l = 0, tb_u = 0\<rparr>, r_start = \<lparr>tb_l = 0, tb_u = 0\<rparr>, r_alloc = True,
     r_arrivals = [\<lparr>a_payload = 0x100, a_bytes = bs, a_from = (5, 1024), a_start = \<lparr>tb_l = 0, tb_u = 0\<rparr>, a_ts = \<lparr>tb_l = 0, tb_u = 0\<rparr>\<rparr>]\<rparr>"

definition demo_blocks :: "u8 list list" where
  "demo_blocks = [[7, 8], [9]]"

definition demo_ticks :: "tick list" where
  "demo_ticks = [demo_tick (data_packet demo_blocks 1), demo_tick (data_packet demo_blocks 2)]"

definition demo_tftp :: tftp where
  "demo_tftp = \<lparr>tmem = (\<lambda>_. 0), tftp_state = 0, tftp_result = 0, maxtries = 0, tries = 0, current_block = 0, send = False,
     last_size = 0, ptr = 0, ts = \<lparr>tb_l = 0, tb_u = 0\<rparr>, start = \<lparr>tb_l = 0, tb_u = 0\<rparr>, base = 0, image_maxlen = 0, peer = None, sent = []\<rparr>"

lemma load_list_3: "load_list m a 3 = [m a, m (a + 1), m (a + 2)]"
  by (simp add: numeral_3_eq_3 add.assoc)

lemma length_demo: "length demo_blocks = 2"
  by (simp add: demo_blocks_def)

lemma demo_ok:
  "file_blocks 2 demo_blocks" "2 \<le> length demo_blocks" "ptr demo_tftp = int 0" "0 + length (concat demo_blocks) \<le> 16"
  "\<forall>r \<in> set demo_ticks. \<forall>a \<in> set (r_arrivals r). arrival_ok demo_blocks 0x1000 16 a"
  "in_order demo_blocks 0 \<lparr>tb_l = 0, tb_u = 0\<rparr> demo_ticks"
proof -
  have "region 0x100 (length (data_packet demo_blocks i)) \<inter> region 0x1000 16 = {}" if "i = 1 \<or> i = 2" for i
    using that by (intro region_disjoint_nat) (auto simp: data_packet_def demo_blocks_def)
  then show "\<forall>r \<in> set demo_ticks. \<forall>a \<in> set (r_arrivals r). arrival_ok demo_blocks 0x1000 16 a"
    using le_numeral_extra(4) by (auto simp: demo_ticks_def demo_tick_def arrival_ok_def length_demo intro: exI [of _ 1] exI [of _ 2])
  show "file_blocks 2 demo_blocks" by (auto simp: file_blocks_def demo_blocks_def)
  show "in_order demo_blocks 0 \<lparr>tb_l = 0, tb_u = 0\<rparr> demo_ticks"
    by (simp add: demo_ticks_def demo_tick_def demo_blocks_def numeral_2_eq_2 [symmetric] tb_diff_msec_def tb_upper_def TB_CLOCK_def Let_def)
qed (simp_all add: demo_blocks_def demo_tftp_def)


theorem tftp_image_witness:
  "\<exists>res s'. do_tftp True \<lparr>tb_l = 0, tb_u = 0\<rparr> demo_ticks 0x1000 16 5 (bytes ''f'') demo_tftp = Some (res, s')
     \<and> res = 3 \<and> load_list (tmem s') 0x1000 3 = [7, 8, 9]"
proof -
  let ?t = "\<lparr>tb_l = 0, tb_u = 0\<rparr>"
  have "tftp_at 2 demo_blocks 0 ?t (tftp_setup 0x1000 (int 16) ?t demo_tftp)" by (simp add: tftp_at_def tftp_setup_def)
  then have calm: "tftp_calm 5 (bytes ''f'') demo_ticks (tftp_setup 0x1000 (int 16) ?t demo_tftp)"
    using demo_ok by (intro in_order_calm [where S = 2 and bl = demo_blocks and k = 0]) (auto simp: demo_blocks_def)
  obtain s' where s': "do_tftp True ?t demo_ticks 0x1000 (int 16) 5 (bytes ''f'') demo_tftp = Some (int (0 + length (concat demo_blocks)), s')"
    using tftp_completes_facts [OF demo_ok(1-4) _ demo_ok(5,6), of 5 "bytes ''f''"] by auto
  show ?thesis
    using tftp_image [OF demo_ok(1,3,4) _ demo_ok(5) calm s'] s' by (simp add: demo_blocks_def load_list_3)
qed

section \<open>What the client gets wrong\<close>

text \<open>The first block is compared with a size of 0, so that it never counts as the last.\<close>

definition short_inv :: "u8 list \<Rightarrow> tftp \<Rightarrow> bool" where
  "short_inv b s \<longleftrightarrow> (last_size s = 0 \<or> last_size s = int (length b)) \<and> tftp_state s \<le> TFTP_STATE_FINISH
     \<and> (tftp_state s = TFTP_STATE_FINISH \<longrightarrow> tftp_result s < 0)"

lemma short_deliver:
  assumes fb: "file_blocks S [b]" and a: "arrival_ok [b] B 0 a" and inv: "short_inv b s"
  shows "short_inv b (deliver a s)"
proof (cases "a_bytes a = data_packet [b] 1")
  case True
  let ?p = "data_packet [b] 1"
  have "length b < S" "S < 65532" using fb by (simp_all add: file_blocks_def)
  then have "load_list (store_list (tmem s) (a_payload a) ?p) (a_payload a) (length ?p) = ?p"
    by (intro load_store_list) (simp add: data_packet_def)
  from packet_fields [OF fb _ _ this] show ?thesis
    using inv by (auto simp: deliver_def tftp_recv_def tftp_data_def True Let_def short_inv_def tftp_consts)
next
  case False
  have n: "2 \<le> length (a_bytes a)" "length (a_bytes a) < 65536" "take 2 (a_bytes a) \<noteq> [0, 3]"
    using a False by (auto simp: arrival_ok_def le_Suc_eq)
  then have "load_list (store_list (tmem s) (a_payload a) (a_bytes a)) (a_payload a) (length (a_bytes a)) = a_bytes a"
    by (intro load_store_list) simp
  from opcode_data [OF this n(1)] n(3) have "d_u16 (store_list (tmem s) (a_payload a) (a_bytes a)) (a_payload a) \<noteq> 3" by simp
  moreover have "\<not> (of_nat (length (a_bytes a)) :: u16) < 2" using n by (simp add: word_less_nat_alt unat_of_nat)
  ultimately show ?thesis using inv by (simp add: deliver_def tftp_recv_def Let_def short_inv_def tftp_consts)
qed

lemma short_loop:
  assumes fb: "file_blocks S [b]" and "\<forall>r \<in> set rs. \<forall>a \<in> set (r_arrivals r). arrival_ok [b] B 0 a"
    and "short_inv b s" and "tftp_loop server file rs s = Some s'"
  shows "tftp_result s' < 0"
  using assms(2-4)
proof (induction rs arbitrary: s)
  case Nil
  then show ?case by (auto simp: tftp_loop.simps short_inv_def split: if_splits)
next
  case (Cons r rs)
  obtain ab s1 where to: "tftp_timeout r s = (ab, s1)" by force
  show ?case
  proof (cases "tftp_state s = TFTP_STATE_FINISH")
    case True
    with Cons.prems show ?thesis by (auto simp: tftp_loop.simps short_inv_def)
  next
    case False
    have s1: "short_inv b s1 \<and> tftp_state s1 \<noteq> TFTP_STATE_FINISH" if "\<not> ab"
      using Cons.prems(2) False to that by (auto simp: tftp_timeout_def Let_def short_inv_def tftp_consts split: if_splits)
    have ab: "tftp_result s1 < 0" if ab using that to by (auto simp: tftp_timeout_def Let_def split: if_splits)
    have "short_inv b (tftp_send server file r s1)" if "\<not> ab"
      using s1 [OF that] by (auto simp: tftp_send_def short_inv_def tftp_consts)
    moreover have "short_inv b (fold deliver as t)" if "\<forall>a \<in> set as. arrival_ok [b] B 0 a" "short_inv b t" for as t
      using that by (induction as arbitrary: t) (auto intro: short_deliver [OF fb])
    ultimately have "short_inv b (fold deliver (r_arrivals r) (tftp_send server file r s1))" if "\<not> ab"
      using that Cons.prems(1) by simp
    then show ?thesis
      using Cons.IH Cons.prems(1,3) False to ab
      by (auto simp: tftp_loop.simps [of _ _ "r # rs"] tftp_round_def split: if_splits)
  qed
qed

text \<open>C40: a file of less than one full block cannot be loaded: whatever number of times its only block arrives and
  whatever else does, \<open>do_tftp\<close> never returns a length.\<close>

theorem tftp_short_file_fails:
  assumes "file_blocks S [b]" and "\<forall>r \<in> set rs. \<forall>a \<in> set (r_arrivals r). arrival_ok [b] B 0 a"
    and "do_tftp True t rs target maxlen server file s = Some (res, s')"
  shows "res < 0"
proof -
  have l: "tftp_loop server file rs (tftp_setup target maxlen t s) = Some s'"
      "res = (if tftp_result s' < 0 then tftp_result s' else ptr s')"
    using assms(3) by (auto simp: do_tftp_def split: option.splits)
  have "short_inv b (tftp_setup target maxlen t s)" by (simp add: short_inv_def tftp_setup_def tftp_consts)
  from short_loop [OF assms(1,2) this l(1)] l(2) show ?thesis by simp
qed

theorem tftp_short_file_fails_witness:
  "\<exists>res s'. do_tftp True \<lparr>tb_l = 0, tb_u = 0\<rparr> [demo_tick [0, 5, 0, 1]] 0x1000 16 5 (bytes ''f'') demo_tftp = Some (res, s') \<and> res < 0"
proof -
  have fb: "file_blocks 2 [[9]]" by (simp add: file_blocks_def)
  have ok: "\<forall>r \<in> set [demo_tick [0, 5, 0, 1]]. \<forall>a \<in> set (r_arrivals r). arrival_ok [[9]] 0x1000 0 a"
    by (simp add: arrival_ok_def demo_tick_def)
  obtain res s' where r: "do_tftp True \<lparr>tb_l = 0, tb_u = 0\<rparr> [demo_tick [0, 5, 0, 1]] 0x1000 16 5 (bytes ''f'') demo_tftp = Some (res, s')"
    by (simp add: do_tftp_def tftp_loop.simps tftp_setup_def tftp_round_def tftp_timeout_def demo_tick_def demo_tftp_def tftp_consts
        tb_diff_msec_def tb_upper_def TB_CLOCK_def Let_def tftp_send_def deliver_def tftp_recv_def d_u16_def be16_def)
  from tftp_short_file_fails [OF fb ok this] r show ?thesis by blast
qed

text \<open>After the fifth timeout in a row the transfer starts again with the first block, but \<open>ptr\<close> is kept: the
  image is stored behind what had arrived before, not at the address it is then executed from.\<close>

lemma tftp_restart_keeps_ptr:
  assumes "tb_diff_msec (r_now r) (start s) > 500" and "tries s = 4" and "maxtries s = 10"
  shows "\<exists>s'. tftp_timeout r s = (False, s') \<and> tftp_state s' = TFTP_STATE_RRQ_SEND \<and> current_block s' = 0 \<and> ptr s' = ptr s"
  using assms by (simp add: tftp_timeout_def Let_def)

text \<open>The forms of the argument of \<open>boot_tftp_url\<close>: only \<^verbatim>\<open>ip:/path\<close> can succeed; without a colon there is no server, and
  a null pointer is read although the code replaces it by an empty string.\<close>

lemma boot_tftp_url_forms:
  shows "boot_tftp_url tr ex None s = Null_Read"
    and "ch CHR '':'' \<notin> set u \<Longrightarrow> boot_tftp_url tr ex (Some u) s = Returned (-1, s)"
    and "ch CHR '':'' \<notin> set h \<Longrightarrow> length h < 20 \<Longrightarrow> boot_tftp_url tr ex (Some (h @ ch CHR '':'' # f)) s = boot_tftp tr ex (Some h) (Some f) s"
proof -
  show "boot_tftp_url tr ex None s = Null_Read" by (simp add: boot_tftp_url_def split_at_def boot_tftp_def)
  show "boot_tftp_url tr ex (Some u) s = Returned (-1, s)" if "ch CHR '':'' \<notin> set u"
    using that by (simp add: boot_tftp_url_def split_at_def boot_tftp_def)
  show "boot_tftp_url tr ex (Some (h @ ch CHR '':'' # f)) s = boot_tftp tr ex (Some h) (Some f) s"
    if "ch CHR '':'' \<notin> set h" "length h < 20"
  proof -
    have "takeWhile (\<lambda>x. x \<noteq> 58) (h @ 58 # f) = h" "dropWhile (\<lambda>x. x \<noteq> 58) (h @ 58 # f) = 58 # f"
      using that(1) by (auto intro: takeWhile_tail dropWhile_append3 simp: takeWhile_append dropWhile_append takeWhile_eq_all_conv dropWhile_eq_Nil_conv)
    then show ?thesis using that(2) by (simp add: boot_tftp_url_def split_at_def)
  qed
qed

end
