(* ===== verification/Xell_Httpd.thy ===== *)
theory Xell_Httpd
  imports Xell_Vsprintf
begin
unbundle bit_operations_syntax

section \<open>State\<close>

text \<open>
  The web server of \<^verbatim>\<open>src/httpd/httpd.c\<close> and the lookup of \<^verbatim>\<open>src/httpd/vfs.c\<close>. The files (generated from the web pages) and
  the fuse dump are parameters, as are the memory \<^verbatim>\<open>/MEM\<close> reads and whether an allocation succeeds. Strings are lists
  of bytes. A handler is its row of the table \<^verbatim>\<open>http_handler\<close>; the private data of a response is the structure of its
  handler. \<open>frees\<close> counts the calls that release it. Reading through a null handler is \<open>None\<close>.
\<close>

definition MAX_LINESIZE :: nat where "MAX_LINESIZE = 256"
definition SENDBUFFER_LEN :: nat where "SENDBUFFER_LEN = 4096"

definition HTTPD_CLIENT_REQUEST :: nat where "HTTPD_CLIENT_REQUEST = 0"
definition HTTPD_CLIENT_HEADER :: nat where "HTTPD_CLIENT_HEADER = 1"
definition HTTPD_CLIENT_DATA :: nat where "HTTPD_CLIENT_DATA = 2"
definition HTTPD_SERVER_IDLE :: nat where "HTTPD_SERVER_IDLE = 0"
definition HTTPD_SERVER_RESPONSE :: nat where "HTTPD_SERVER_RESPONSE = 1"
definition HTTPD_SERVER_HEADER :: nat where "HTTPD_SERVER_HEADER = 2"
definition HTTPD_SERVER_DATA :: nat where "HTTPD_SERVER_DATA = 3"
definition HTTPD_SERVER_CLOSE :: nat where "HTTPD_SERVER_CLOSE = 4"

lemmas client_states = HTTPD_CLIENT_REQUEST_def HTTPD_CLIENT_HEADER_def HTTPD_CLIENT_DATA_def
lemmas server_states = HTTPD_SERVER_IDLE_def HTTPD_SERVER_RESPONSE_def HTTPD_SERVER_HEADER_def HTTPD_SERVER_DATA_def HTTPD_SERVER_CLOSE_def

record vfs_entry =
  vfs_filename :: "u8 list"
  vfs_data :: "u8 list"
  vfs_mime_type :: "u8 list"
  vfs_flags :: u32

datatype handler = H_mem | H_fuses | H_vfs | H_err400 | H_err404

datatype response =
    Static (st_data: "u8 list") (st_ptr: nat) (st_len: nat)
  | Vfs (vf_file: vfs_entry) (vf_ptr: nat) (vf_hdr_state: nat)
  | Mem (me_base: addr) (me_ptr: nat) (me_len: nat) (me_hdr_state: nat)

record http_env =
  vfs_entries :: "vfs_entry list"
  FUSES :: "u8 list"
  env_mem :: mem
  malloc_ok :: "handler \<Rightarrow> bool"

record http =
  state_server :: nat
  state_client :: nat
  code :: nat
  code_descr :: "u8 list option"
  linebuffer :: "u8 list"
  linebuffer_ptr :: nat
  sendbuffer :: "u8 list"
  sendbuffer_read :: nat
  sendbuffer_write :: nat
  std_header_state :: nat
  retries :: nat
  handler :: "handler option"
  response_priv :: "response option"
  frees :: nat

definition httpd_init :: "http \<Rightarrow> http" where
  "httpd_init h = h\<lparr>state_server := HTTPD_SERVER_IDLE, state_client := HTTPD_CLIENT_REQUEST, code_descr := None, code := 500,
     linebuffer_ptr := 0, std_header_state := 0, sendbuffer_read := 0, sendbuffer_write := 0, handler := None\<rparr>"

section \<open>The send buffer\<close>

definition httpd_available_sendbuffer :: "http \<Rightarrow> int" where
  "httpd_available_sendbuffer h =
     (let available = int (sendbuffer_read h) - int (sendbuffer_write h);
          available = (if available \<le> 0 then available + int SENDBUFFER_LEN else available)
      in if available < 10 then 0 else available - 10)"

text \<open>\<^verbatim>\<open>memcpy\<close> into an array at an index.\<close>

definition put_at :: "nat \<Rightarrow> 'a list \<Rightarrow> 'a list \<Rightarrow> 'a list" where
  "put_at i data xs = take i xs @ data @ drop (i + length data) xs"

definition httpd_put_sendbuffer :: "u8 list \<Rightarrow> http \<Rightarrow> http" where
  "httpd_put_sendbuffer data h =
     (let available = SENDBUFFER_LEN - sendbuffer_write h;
          len = length data;
          h = (if available \<ge> len
               then h\<lparr>sendbuffer := put_at (sendbuffer_write h) data (sendbuffer h), sendbuffer_write := sendbuffer_write h + len\<rparr>
               else h\<lparr>sendbuffer := put_at 0 (drop available data) (put_at (sendbuffer_write h) (take available data) (sendbuffer h)),
                      sendbuffer_write := len - available\<rparr>)
      in if sendbuffer_write h = SENDBUFFER_LEN then h\<lparr>sendbuffer_write := 0\<rparr> else h)"

text \<open>
  \<open>tcp_do_send\<close> halves the length while TCP has no memory; \<open>tcp_write len\<close> is the error \<^verbatim>\<open>tcp_write\<close> returns for
  that length.
\<close>

definition ERR_OK :: int where "ERR_OK = 0"
definition ERR_MEM :: int where "ERR_MEM = -1"

fun tcp_do_send :: "(nat \<Rightarrow> int) \<Rightarrow> nat \<Rightarrow> nat" where
  "tcp_do_send tcp_write len =
     (let err = tcp_write len
      in if err = ERR_MEM
         then if len div 2 > 1 then tcp_do_send tcp_write (len div 2) else 0
         else if err = ERR_OK then len else 0)"

declare tcp_do_send.simps [simp del]

section \<open>Requests\<close>

definition httpd_get_descr :: "http \<Rightarrow> http" where
  "httpd_get_descr h =
     h\<lparr>code_descr := Some (if code h = 200 then bytes ''OK''
        else if code h = 404 then bytes ''Not Found''
        else if code h = 400 then bytes ''Bad Request''
        else bytes ''Internal Server Error'')\<rparr>"

definition httpd_receive_char :: "u8 \<Rightarrow> http \<Rightarrow> u8 list option \<times> http" where
  "httpd_receive_char c h =
     (if c = 13 then (None, h)
      else let h = (if linebuffer_ptr h < MAX_LINESIZE
                    then h\<lparr>linebuffer := (linebuffer h)[linebuffer_ptr h := c], linebuffer_ptr := linebuffer_ptr h + 1\<rparr> else h)
           in if c = 10
              then let h = h\<lparr>linebuffer := (linebuffer h)[linebuffer_ptr h := 0], linebuffer_ptr := 0\<rparr>
                   in (Some (takeWhile (\<lambda>x. x \<noteq> 0) (linebuffer h)), h)
              else (None, h))"

definition search_file :: "vfs_entry list \<Rightarrow> u8 list \<Rightarrow> vfs_entry option" where
  "search_file entries filename = find (\<lambda>f. filename = vfs_filename f) entries"

definition response_static_process_request :: "bool \<Rightarrow> u8 list \<Rightarrow> http \<Rightarrow> http" where
  "response_static_process_request ok text h =
     h\<lparr>response_priv := (if ok then Some (Static text 0 (length text)) else None)\<rparr>"

definition response_vfs_process_request :: "http_env \<Rightarrow> u8 list \<Rightarrow> u8 list \<Rightarrow> http \<Rightarrow> bool \<times> http" where
  "response_vfs_process_request env method url h =
     (if method \<noteq> bytes ''GET'' then (False, h)
      else let url = (if url = bytes ''/'' then bytes ''/index.dhtml'' else url)
           in case search_file (vfs_entries env) url of
                None \<Rightarrow> (False, h)
              | Some f \<Rightarrow>
                  if malloc_ok env H_vfs then (True, h\<lparr>response_priv := Some (Vfs f 0 0), code := 200\<rparr>)
                  else (False, h\<lparr>response_priv := None\<rparr>))"

definition response_mem_process_request :: "http_env \<Rightarrow> u8 list \<Rightarrow> u8 list \<Rightarrow> http \<Rightarrow> bool \<times> http" where
  "response_mem_process_request env method url h =
     (if method \<noteq> bytes ''GET'' then (False, h)
      else if url \<noteq> bytes ''/MEM'' then (False, h)
      else if malloc_ok env H_mem
      then (True, h\<lparr>response_priv := Some (Mem 0 0 (512 * 1024 * 1024) 0), code := 200\<rparr>)
      else (False, h\<lparr>response_priv := None\<rparr>))"

definition response_fuses_process_request :: "http_env \<Rightarrow> u8 list \<Rightarrow> u8 list \<Rightarrow> http \<Rightarrow> bool \<times> http" where
  "response_fuses_process_request env method url h =
     (if method \<noteq> bytes ''GET'' then (False, h)
      else if url \<noteq> bytes ''/FUSE'' then (False, h)
      else (True, response_static_process_request (malloc_ok env H_fuses) (FUSES env) (h\<lparr>code := 200\<rparr>)))"

definition err400_text :: "u8 list" where
  "err400_text = bytes ''<http><head><title>400</title></head>'' @ [13, 10] @ bytes ''<body>400 - BAD REQUEST</body></html>'' @ [13, 10]"

definition err404_text :: "u8 list" where
  "err404_text = bytes ''<http><head><title>404</title></head>'' @ [13, 10] @ bytes ''<body>404 - Document not found</body></html>'' @ [13, 10]"

definition response_err400_process_request :: "http_env \<Rightarrow> u8 list \<Rightarrow> u8 list \<Rightarrow> http \<Rightarrow> bool \<times> http" where
  "response_err400_process_request env method url h =
     (if code h \<noteq> 400 then (False, h) else (True, response_static_process_request (malloc_ok env H_err400) err400_text h))"

definition response_err404_process_request :: "http_env \<Rightarrow> u8 list \<Rightarrow> u8 list \<Rightarrow> http \<Rightarrow> bool \<times> http" where
  "response_err404_process_request env method url h =
     (True, response_static_process_request (malloc_ok env H_err404) err404_text (h\<lparr>code := 404\<rparr>))"

text \<open>The columns of the table: \<^verbatim>\<open>process_request\<close> of each row.\<close>

definition process_request :: "handler \<Rightarrow> http_env \<Rightarrow> u8 list \<Rightarrow> u8 list \<Rightarrow> http \<Rightarrow> bool \<times> http" where
  "process_request row =
     (case row of H_mem \<Rightarrow> response_mem_process_request | H_fuses \<Rightarrow> response_fuses_process_request
      | H_vfs \<Rightarrow> response_vfs_process_request | H_err400 \<Rightarrow> response_err400_process_request
      | H_err404 \<Rightarrow> response_err404_process_request)"

definition http_handler :: "handler list" where
  "http_handler = [H_mem, H_fuses, H_vfs, H_err400, H_err404]"

fun find_handler_loop :: "handler list \<Rightarrow> http_env \<Rightarrow> u8 list \<Rightarrow> u8 list \<Rightarrow> http \<Rightarrow> http" where
  "find_handler_loop [] env method path h = h"
| "find_handler_loop (row # rows) env method path h =
     (let (ok, h) = process_request row env method path h
      in if ok then h\<lparr>handler := Some row\<rparr> else find_handler_loop rows env method path h)"

definition httpd_find_handler :: "http_env \<Rightarrow> u8 list \<Rightarrow> u8 list \<Rightarrow> http \<Rightarrow> http" where
  "httpd_find_handler env method path h = find_handler_loop http_handler env method path h"

text \<open>The string up to the first space and what follows it (the empty string without one).\<close>

definition cut_space :: "u8 list \<Rightarrow> u8 list \<times> u8 list" where
  "cut_space s = (takeWhile (\<lambda>c. c \<noteq> 32) s, drop 1 (dropWhile (\<lambda>c. c \<noteq> 32) s))"

definition parse_request :: "u8 list \<Rightarrow> u8 list \<times> u8 list \<times> bool" where
  "parse_request line =
     (let (method, rest) = cut_space line;
          (path, version) = cut_space rest;
          bad = (path = [] \<or> version = [] \<or> take 7 version \<noteq> bytes ''HTTP/1.'')
      in (method, if bad then [] else path, bad))"

definition httpd_receive_request :: "http_env \<Rightarrow> u8 \<Rightarrow> http \<Rightarrow> http" where
  "httpd_receive_request env c h =
     (case httpd_receive_char c h of
        (None, h) \<Rightarrow> h
      | (Some line, h) \<Rightarrow>
          (let (method, path, bad) = parse_request line;
               h = (if bad then h\<lparr>code := 400\<rparr> else h)
           in (httpd_find_handler env method path h)\<lparr>state_client := HTTPD_CLIENT_HEADER\<rparr>))"

definition httpd_start_response :: "http \<Rightarrow> http" where
  "httpd_start_response h = h\<lparr>state_client := HTTPD_CLIENT_DATA, state_server := HTTPD_SERVER_RESPONSE\<rparr>"

text \<open>No handler looks at the header lines, so only the empty line has an effect.\<close>

definition httpd_receive_header :: "u8 \<Rightarrow> http \<Rightarrow> http" where
  "httpd_receive_header c h =
     (case httpd_receive_char c h of
        (None, h) \<Rightarrow> h
      | (Some line, h) \<Rightarrow> if peek line = 10 then httpd_start_response h else h)"

fun httpd_receive_loop :: "http_env \<Rightarrow> u8 list \<Rightarrow> http \<Rightarrow> http option" where
  "httpd_receive_loop env [] h = Some h"
| "httpd_receive_loop env (c # cs) h =
     (if state_client h = HTTPD_CLIENT_REQUEST then httpd_receive_loop env cs (httpd_receive_request env c h)
      else if state_client h = HTTPD_CLIENT_HEADER then httpd_receive_loop env cs (httpd_receive_header c h)
      else if state_client h = HTTPD_CLIENT_DATA then (case handler h of None \<Rightarrow> None | Some _ \<Rightarrow> Some h)
      else Some h)"

section \<open>Responses\<close>

definition crlf :: "u8 list" where "crlf = [13, 10]"

text \<open>
  The producers return 0 when they are done, 1 when they wait for space in the buffer and 2 to be called again at once.
\<close>

definition std_header_line :: "nat \<Rightarrow> u8 list option" where
  "std_header_line st = (if st = 0 then Some (bytes ''Server: yahd v1.0'' @ crlf) else if st = 1 then Some crlf else None)"

definition httpd_do_std_header :: "http \<Rightarrow> nat \<times> http" where
  "httpd_do_std_header h =
     (case std_header_line (std_header_state h) of
        None \<Rightarrow> (0, h)
      | Some s \<Rightarrow>
          if httpd_available_sendbuffer h < int (length s) then (1, h)
          else (2, (httpd_put_sendbuffer s h)\<lparr>std_header_state := std_header_state h + 1\<rparr>))"

definition put_header :: "u8 list \<Rightarrow> u8 list \<Rightarrow> http \<Rightarrow> http" where
  "put_header t o' h = httpd_put_sendbuffer crlf (httpd_put_sendbuffer o' (httpd_put_sendbuffer (bytes '': '') (httpd_put_sendbuffer t h)))"

text \<open>\<^verbatim>\<open>sprintf(buf, "%d", n)\<close>.\<close>

definition sprintf_d :: "nat \<Rightarrow> u8 list" where
  "sprintf_d n = (case sprintf (bytes ''%d'') [VInt (of_nat n)] of Some (s, _) \<Rightarrow> s | None \<Rightarrow> [])"

definition response_static_do_data :: "http \<Rightarrow> (nat \<times> http) option" where
  "response_static_do_data h =
     (case response_priv h of
        None \<Rightarrow> Some (0, h)
      | Some (Static text ptr len) \<Rightarrow>
          (let av = httpd_available_sendbuffer h
           in if av = 0 then Some (1, h)
              else let av = (if av > int len then len else nat av);
                       h = (httpd_put_sendbuffer (take av (drop ptr text)) h)\<lparr>response_priv := Some (Static text (ptr + av) (len - av))\<rparr>
                   in Some (if len - av = 0 then 0 else 1, h))
      | Some _ \<Rightarrow> None)"

definition vfs_dynamic :: "vfs_entry \<Rightarrow> bool" where
  "vfs_dynamic f \<longleftrightarrow> vfs_flags f AND 1 \<noteq> 0"

definition response_vfs_do_dynamic :: "nat \<Rightarrow> http \<Rightarrow> nat \<times> http" where
  "response_vfs_do_dynamic len h =
     (let av = httpd_available_sendbuffer h;
          res = (if len + 1 = 1 then bytes ''%'' else bytes ''illegal dhtml primitive'')
      in if av < int (length res) then (1, h) else (0, httpd_put_sendbuffer res h))"

text \<open>The header lines of a file: its type and, for static content, its length; then the standard lines.\<close>

definition vfs_header_line :: "vfs_entry \<Rightarrow> nat \<Rightarrow> (u8 list \<times> u8 list) option" where
  "vfs_header_line f st =
     (if st = 0 then Some (bytes ''Content-Type'', vfs_mime_type f)
      else if st = 1 \<and> \<not> vfs_dynamic f then Some (bytes ''Content-Length'', sprintf_d (length (vfs_data f)))
      else None)"

definition response_vfs_do_header :: "http \<Rightarrow> (nat \<times> http) option" where
  "response_vfs_do_header h =
     (case response_priv h of
        Some (Vfs f ptr st) \<Rightarrow>
          Some (case vfs_header_line f st of
                  None \<Rightarrow> httpd_do_std_header h
                | Some (t, o') \<Rightarrow>
                    if httpd_available_sendbuffer h < int (length t + length o' + 4) then (1, h)
                    else (2, (put_header t o' h)\<lparr>response_priv := Some (Vfs f ptr (st + 1))\<rparr>))
      | _ \<Rightarrow> None)"

text \<open>
  The position of the next percent sign at or after \<open>e\<close>; the search of the source has no bound, and
  without one it leaves the file.
\<close>

definition next_percent :: "u8 list \<Rightarrow> nat \<Rightarrow> nat option" where
  "next_percent D e = (let k = length (takeWhile (\<lambda>c. c \<noteq> 37) (drop e D)) in if e + k < length D then Some (e + k) else None)"

text \<open>
  The loop over a page with commands between percent signs: \<open>b\<close> is the start of the text not yet sent and \<open>e\<close> the
  position reached. (The subtraction from \<^verbatim>\<open>av\<close> in the source has no effect: \<^verbatim>\<open>av\<close> is set again before it is read.)
\<close>

function dhtml_loop :: "vfs_entry \<Rightarrow> nat \<Rightarrow> nat \<Rightarrow> nat \<Rightarrow> int \<Rightarrow> http \<Rightarrow> (nat \<times> http) option" where
  "dhtml_loop f st b e av h =
     (let D = vfs_data f; text = take (e - b) (drop b D)
      in if int e - int b < av \<and> e \<noteq> length D
         then if e > length D then None
              else if D ! e = 37
              then let h = (if e \<noteq> b then (httpd_put_sendbuffer text h)\<lparr>response_priv := Some (Vfs f e st)\<rparr> else h)
                   in case next_percent D (e + 1) of
                        None \<Rightarrow> None
                      | Some q \<Rightarrow>
                          (let (r, h) = response_vfs_do_dynamic (q - (e + 1)) h
                           in if r = 1 then Some (1, h)
                              else dhtml_loop f st (q + 1) (q + 1) (httpd_available_sendbuffer h) (h\<lparr>response_priv := Some (Vfs f (q + 1) st)\<rparr>))
              else dhtml_loop f st b (e + 1) av h
         else let h = (if e \<noteq> b then (httpd_put_sendbuffer text h)\<lparr>response_priv := Some (Vfs f e st)\<rparr> else h)
              in Some (if e = length D then 0 else 1, h))"
  by pat_completeness auto
termination
  by (relation "measure (\<lambda>(f, st, b, e, av, h). length (vfs_data f) - e)")
    (auto simp: next_percent_def Let_def split: if_splits)

declare dhtml_loop.simps [simp del]

definition response_vfs_do_data :: "http \<Rightarrow> (nat \<times> http) option" where
  "response_vfs_do_data h =
     (case response_priv h of
        Some (Vfs f ptr st) \<Rightarrow>
          (let av = httpd_available_sendbuffer h
           in if av = 0 then Some (1, h)
              else if \<not> vfs_dynamic f
              then let av = (if av > int (length (vfs_data f)) - int ptr then int (length (vfs_data f)) - int ptr else av)
                   in if av = 0 then Some (0, h)
                      else Some (1, (httpd_put_sendbuffer (take (nat av) (drop ptr (vfs_data f))) h)\<lparr>response_priv := Some (Vfs f (ptr + nat av) st)\<rparr>)
              else dhtml_loop f st ptr ptr av h)
      | _ \<Rightarrow> None)"

definition response_mem_do_header :: "http \<Rightarrow> (nat \<times> http) option" where
  "response_mem_do_header h =
     (case response_priv h of
        Some (Mem b ptr len st) \<Rightarrow>
          Some (case (if st = 0 then Some (bytes ''Content-Type'', bytes ''application/binary'')
                      else if st = 1 then Some (bytes ''Content-Length'', sprintf_d len) else None) of
                  None \<Rightarrow> httpd_do_std_header h
                | Some (t, o') \<Rightarrow>
                    if httpd_available_sendbuffer h < int (length t + length o' + 4) then (1, h)
                    else (2, (put_header t o' h)\<lparr>response_priv := Some (Mem b ptr len (st + 1))\<rparr>))
      | _ \<Rightarrow> None)"

fun mem_data_loop :: "mem \<Rightarrow> addr \<Rightarrow> nat \<Rightarrow> nat \<Rightarrow> http \<Rightarrow> nat \<times> http" where
  "mem_data_loop m b ptr av h =
     (if av = 0 then (ptr, h)
      else let maxread = (if 1024 > av then av else 1024)
           in mem_data_loop m b (ptr + maxread) (av - maxread) (httpd_put_sendbuffer (load_list m (b + of_nat ptr) maxread) h))"

declare mem_data_loop.simps [simp del]

definition response_mem_do_data :: "mem \<Rightarrow> http \<Rightarrow> (nat \<times> http) option" where
  "response_mem_do_data m h =
     (case response_priv h of
        Some (Mem b ptr len st) \<Rightarrow>
          (let av = httpd_available_sendbuffer h
           in if av = 0 then Some (1, h)
              else let av = (if av > int len - int ptr then int len - int ptr else av);
                       (ptr, h) = mem_data_loop m b ptr (nat av) h
                   in Some (1, h\<lparr>response_priv := Some (Mem b ptr len st)\<rparr>))
      | _ \<Rightarrow> None)"

section \<open>The server loop\<close>

definition do_header :: "handler \<Rightarrow> http \<Rightarrow> (nat \<times> http) option" where
  "do_header row h =
     (case row of H_mem \<Rightarrow> response_mem_do_header h | H_vfs \<Rightarrow> response_vfs_do_header h | _ \<Rightarrow> Some (httpd_do_std_header h))"

definition do_data :: "http_env \<Rightarrow> handler \<Rightarrow> http \<Rightarrow> (nat \<times> http) option" where
  "do_data env row h =
     (case row of H_mem \<Rightarrow> response_mem_do_data (env_mem env) h | H_vfs \<Rightarrow> response_vfs_do_data h | _ \<Rightarrow> response_static_do_data h)"

text \<open>Every handler releases its private data when the response is over.\<close>

definition finish :: "http \<Rightarrow> http" where
  "finish h = h\<lparr>frees := frees h + 1\<rparr>"

definition status_line :: "nat \<Rightarrow> u8 list \<Rightarrow> u8 list list" where
  "status_line c descr =
     [bytes ''HTTP/1.0 '', [of_nat (c div 100) + 48, of_nat (c div 10 mod 10) + 48, of_nat (c mod 10) + 48, 32], descr, crlf]"

definition server_response :: "http \<Rightarrow> bool \<times> http" where
  "server_response h =
     (let h = (if code_descr h = None then httpd_get_descr h else h);
          descr = (case code_descr h of Some d \<Rightarrow> d | None \<Rightarrow> [])
      in if httpd_available_sendbuffer h < int (13 + length descr) then (True, h)
         else (False, (fold httpd_put_sendbuffer (status_line (code h) descr) h)\<lparr>state_server := HTTPD_SERVER_HEADER\<rparr>))"

text \<open>One round of the switch: whether the loop is done, whether it has to wait, and the state.\<close>

definition server_step :: "http_env \<Rightarrow> http \<Rightarrow> (bool \<times> bool \<times> http) option" where
  "server_step env h =
     (if state_server h = HTTPD_SERVER_IDLE then Some (True, False, h)
      else if state_server h = HTTPD_SERVER_RESPONSE then (let (busy, h) = server_response h in Some (False, busy, h))
      else if state_server h = HTTPD_SERVER_HEADER
      then (case handler h of None \<Rightarrow> None
            | Some row \<Rightarrow> (case do_header row h of None \<Rightarrow> None
                | Some (r, h) \<Rightarrow> Some (False, r = 1, if r = 0 then h\<lparr>state_server := HTTPD_SERVER_DATA\<rparr> else h)))
      else if state_server h = HTTPD_SERVER_DATA
      then (case handler h of None \<Rightarrow> None
            | Some row \<Rightarrow> (case do_data env row h of None \<Rightarrow> None
                | Some (r, h) \<Rightarrow> Some (False, r = 1, if r = 0 then h\<lparr>state_server := HTTPD_SERVER_CLOSE\<rparr> else h)))
      else if state_server h = HTTPD_SERVER_CLOSE
      then Some (True, False, (if handler h \<noteq> None then finish h else h)\<lparr>handler := None\<rparr>)
      else Some (False, False, h))"

partial_function (option) httpd_handle_server :: "http_env \<Rightarrow> http \<Rightarrow> http option" where
  "httpd_handle_server env h =
     (case server_step env h of
        None \<Rightarrow> None
      | Some (done, busy, h) \<Rightarrow> if busy \<or> done then Some h else httpd_handle_server env h)"

definition httpd_receive :: "http_env \<Rightarrow> u8 list \<Rightarrow> http \<Rightarrow> http option" where
  "httpd_receive env data h = (case httpd_receive_loop env data h of None \<Rightarrow> None | Some h \<Rightarrow> httpd_handle_server env h)"

section \<open>Connections\<close>

text \<open>
  A connection is the state the TCP callbacks get, what has been handed to TCP so far, and whether it was closed or
  aborted, with the number of times the private data had been released when it was closed. A callback finds the room in the TCP send buffer and the results of \<^verbatim>\<open>tcp_write\<close>.
\<close>

record tcp =
  tcp_sndbuf :: nat
  tcp_write :: "nat \<Rightarrow> int"

record conn =
  c_http :: "http option"
  c_sent :: "u8 list"
  c_closed :: bool
  c_aborted :: bool
  c_frees :: nat

definition send_pending :: "tcp \<Rightarrow> http \<Rightarrow> u8 list \<times> http" where
  "send_pending t h =
     (let a = int (sendbuffer_write h) - int (sendbuffer_read h);
          a = (if a < 0 then SENDBUFFER_LEN - sendbuffer_read h else nat a);
          a = (if tcp_sndbuf t < a then tcp_sndbuf t else a);
          n = tcp_do_send (tcp_write t) a;
          data = take n (drop (sendbuffer_read h) (sendbuffer h));
          h = h\<lparr>sendbuffer_read := sendbuffer_read h + n\<rparr>
      in (data, if sendbuffer_read h = SENDBUFFER_LEN then h\<lparr>sendbuffer_read := 0\<rparr> else h))"

definition send_data :: "http_env \<Rightarrow> tcp \<Rightarrow> http \<Rightarrow> conn \<Rightarrow> conn option" where
  "send_data env t h c =
     (case httpd_handle_server env h of
        None \<Rightarrow> None
      | Some h \<Rightarrow> (let (data, h) = send_pending t h in Some (c\<lparr>c_http := Some h, c_sent := c_sent c @ data\<rparr>)))"

definition close_conn :: "http \<Rightarrow> conn \<Rightarrow> conn" where
  "close_conn h c = (let h = (if handler h \<noteq> None then finish h else h) in c\<lparr>c_http := None, c_closed := True, c_frees := frees h\<rparr>)"

definition conn_err :: "conn \<Rightarrow> conn" where
  "conn_err c = c\<lparr>c_http := None\<rparr>"

definition http_poll :: "http_env \<Rightarrow> tcp \<Rightarrow> conn \<Rightarrow> conn option" where
  "http_poll env t c =
     (case c_http c of
        None \<Rightarrow> Some (c\<lparr>c_aborted := True\<rparr>)
      | Some h \<Rightarrow>
          if handler h \<noteq> None \<and> sendbuffer_read h \<noteq> sendbuffer_write h
          then let h = h\<lparr>retries := retries h + 1\<rparr>
               in if retries h = 4 then Some (c\<lparr>c_http := Some h, c_aborted := True\<rparr>) else send_data env t h c
          else Some c)"

definition http_sent :: "http_env \<Rightarrow> tcp \<Rightarrow> conn \<Rightarrow> conn option" where
  "http_sent env t c =
     (case c_http c of
        None \<Rightarrow> None
      | Some h \<Rightarrow>
          (let h = h\<lparr>retries := 0\<rparr>
           in if sendbuffer_read h \<noteq> sendbuffer_write h \<or> state_server h \<noteq> HTTPD_SERVER_CLOSE then send_data env t h c
              else Some (close_conn h c)))"

fun receive_chain :: "http_env \<Rightarrow> u8 list list \<Rightarrow> http \<Rightarrow> http option" where
  "receive_chain env [] h = Some h"
| "receive_chain env (q # qs) h = (case httpd_receive env q h of None \<Rightarrow> None | Some h \<Rightarrow> receive_chain env qs h)"

text \<open>\<open>None\<close> stands for the end of the stream, a list for the buffers of a segment.\<close>

definition http_recv :: "http_env \<Rightarrow> tcp \<Rightarrow> u8 list list option \<Rightarrow> conn \<Rightarrow> conn option" where
  "http_recv env t p c =
     (case c_http c of
        None \<Rightarrow> None
      | Some h \<Rightarrow>
          (case p of
             None \<Rightarrow> Some (close_conn h c)
           | Some qs \<Rightarrow> (case receive_chain env qs h of None \<Rightarrow> None | Some h \<Rightarrow> send_data env t h c)))"

definition http_accept :: "http option \<Rightarrow> conn option" where
  "http_accept mem =
     (case mem of None \<Rightarrow> None
      | Some h \<Rightarrow> Some \<lparr>c_http = Some (httpd_init (h\<lparr>retries := 0, frees := 0\<rparr>)), c_sent = [], c_closed = False, c_aborted = False, c_frees = 0\<rparr>)"

end
