(* ===== verification/Xell_Httpd_Stream.thy ===== *)
theory Xell_Httpd_Stream
  imports Xell_Httpd "HOL-Library.Sublist"
begin
unbundle bit_operations_syntax

section \<open>The send buffer is a queue of bytes\<close>

text \<open>
  Correctness of the web server: the ring buffer refines a queue, and what is sent on a connection is the
  response to its request, whatever TCP accepts at a time.
\<close>

text \<open>The contract of a bounded queue of bytes that is filled by blocks.\<close>

locale byte_queue =
  fixes abs :: "'s \<Rightarrow> 'a list" and ok :: "'s \<Rightarrow> bool" and put :: "'a list \<Rightarrow> 's \<Rightarrow> 's" and cap :: nat
  assumes put_abs: "ok s \<Longrightarrow> length (abs s) + length d \<le> cap \<Longrightarrow> abs (put d s) = abs s @ d"
    and put_ok: "ok s \<Longrightarrow> length (abs s) + length d \<le> cap \<Longrightarrow> ok (put d s)"
begin

lemma puts:
  "ok s \<Longrightarrow> length (abs s) + length (concat ds) \<le> cap \<Longrightarrow> ok (fold put ds s) \<and> abs (fold put ds s) = abs s @ concat ds"
proof (induction ds arbitrary: s)
  case (Cons d ds)
  then have "ok (put d s)" "abs (put d s) = abs s @ d" by (simp_all add: put_ok put_abs)
  with Cons show ?case by simp
qed simp

end

definition buf_ok :: "http \<Rightarrow> bool" where
  "buf_ok h \<longleftrightarrow> length (sendbuffer h) = SENDBUFFER_LEN \<and> sendbuffer_read h < SENDBUFFER_LEN \<and> sendbuffer_write h < SENDBUFFER_LEN"

definition pending :: "http \<Rightarrow> u8 list" where
  "pending h = (if sendbuffer_read h \<le> sendbuffer_write h
     then take (sendbuffer_write h - sendbuffer_read h) (drop (sendbuffer_read h) (sendbuffer h))
     else drop (sendbuffer_read h) (sendbuffer h) @ take (sendbuffer_write h) (sendbuffer h))"

lemma length_pending:
  "buf_ok h \<Longrightarrow> length (pending h) = (if sendbuffer_read h \<le> sendbuffer_write h then sendbuffer_write h - sendbuffer_read h
     else SENDBUFFER_LEN - sendbuffer_read h + sendbuffer_write h)"
  by (auto simp: buf_ok_def pending_def)

lemma available_pending: "buf_ok h \<Longrightarrow> httpd_available_sendbuffer h = int (SENDBUFFER_LEN - 10 - length (pending h))"
  by (simp add: length_pending httpd_available_sendbuffer_def Let_def SENDBUFFER_LEN_def buf_ok_def) linarith

lemma ring_cases:
  assumes "(if r \<le> w then w - r else L - r + w) + n < L" and "r < L" and "w < L"
  obtains (in_front) "w < r" "w + n < r" | (behind) "r \<le> w" "w + n < L" | (full) "r \<le> w" "w + n = L" "0 < r"
    | (wrap) "r \<le> w" "L < w + n" "w + n - L < r" "(w :: nat) < L"
proof (cases "r \<le> w")
  case True
  then have "w + n < L + r" using assms by simp
  with True show ?thesis using that(2-4) assms(3) by (metis linorder_neqE_nat add.commute add_0 less_diff_conv2 less_imp_le not_gr_zero nless_le add_0_right)
next
  case False
  then show ?thesis using that(1) assms by simp
qed

lemma put_fits:
  assumes "sendbuffer_write h + length data < SENDBUFFER_LEN"
  shows "httpd_put_sendbuffer data h
    = h\<lparr>sendbuffer := put_at (sendbuffer_write h) data (sendbuffer h), sendbuffer_write := sendbuffer_write h + length data\<rparr>"
proof -
  have "length data \<le> SENDBUFFER_LEN - sendbuffer_write h" "sendbuffer_write h + length data \<noteq> SENDBUFFER_LEN"
    using assms by linarith+
  then show ?thesis unfolding httpd_put_sendbuffer_def Let_def by simp
qed

lemma put_full:
  assumes "sendbuffer_write h + length data = SENDBUFFER_LEN"
  shows "httpd_put_sendbuffer data h = h\<lparr>sendbuffer := put_at (sendbuffer_write h) data (sendbuffer h), sendbuffer_write := 0\<rparr>"
proof -
  have "length data \<le> SENDBUFFER_LEN - sendbuffer_write h" using assms by linarith
  then show ?thesis unfolding httpd_put_sendbuffer_def Let_def using assms by simp
qed

lemma put_wraps:
  assumes "SENDBUFFER_LEN < sendbuffer_write h + length data" and "sendbuffer_write h < SENDBUFFER_LEN"
    and "sendbuffer_write h + length data < 2 * SENDBUFFER_LEN"
  shows "httpd_put_sendbuffer data h =
    h\<lparr>sendbuffer := put_at 0 (drop (SENDBUFFER_LEN - sendbuffer_write h) data)
        (put_at (sendbuffer_write h) (take (SENDBUFFER_LEN - sendbuffer_write h) data) (sendbuffer h)),
      sendbuffer_write := length data - (SENDBUFFER_LEN - sendbuffer_write h)\<rparr>"
proof -
  have "\<not> length data \<le> SENDBUFFER_LEN - sendbuffer_write h" "length data - (SENDBUFFER_LEN - sendbuffer_write h) \<noteq> SENDBUFFER_LEN"
    using assms by linarith+
  then show ?thesis unfolding httpd_put_sendbuffer_def Let_def by simp
qed

lemma put_sendbuffer_buf:
  assumes ok: "buf_ok h" and fits: "length (pending h) + length data < SENDBUFFER_LEN"
  shows "buf_ok (httpd_put_sendbuffer data h)" and "pending (httpd_put_sendbuffer data h) = pending h @ data"
proof -
  let ?r = "sendbuffer_read h" and ?w = "sendbuffer_write h" and ?L = SENDBUFFER_LEN and ?n = "length data"
  note lp = length_pending [OF ok]
  have b: "length (sendbuffer h) = ?L" "?r < ?L" "?w < ?L" using ok by (simp_all add: buf_ok_def)
  have f: "(if ?r \<le> ?w then ?w - ?r else ?L - ?r + ?w) + ?n < ?L" using fits lp by simp
  have "buf_ok (httpd_put_sendbuffer data h) \<and> pending (httpd_put_sendbuffer data h) = pending h @ data"
    using f b(2,3)
  proof (cases rule: ring_cases)
    case in_front
    then have "?w + ?n < ?L" using b by linarith
    from put_fits [OF this] show ?thesis using b in_front by (simp add: put_at_def buf_ok_def pending_def)
  next
    case behind
    from put_fits [OF behind(2)] show ?thesis using b behind by (simp add: drop_take put_at_def buf_ok_def pending_def)
  next
    case full
    from put_full [OF full(2)] show ?thesis using b full by (simp add: drop_take put_at_def buf_ok_def pending_def)
  next
    case wrap
    then have "?w + ?n < 2 * ?L" using b by linarith
    moreover have "\<not> ?r \<le> ?n + ?w - ?L" using wrap by linarith
    ultimately show ?thesis using put_wraps [OF wrap(2,4)] b wrap by (simp add: drop_take put_at_def buf_ok_def pending_def)
  qed
  then show "buf_ok (httpd_put_sendbuffer data h)" "pending (httpd_put_sendbuffer data h) = pending h @ data" by simp_all
qed

text \<open>The ring buffer is such a queue, of one byte less than its size.\<close>

interpretation sb: byte_queue pending buf_ok httpd_put_sendbuffer 4095
  by unfold_locales (auto simp: put_sendbuffer_buf SENDBUFFER_LEN_def)

lemma put_frame [simp]:
  "state_server (httpd_put_sendbuffer d h) = state_server h" "state_client (httpd_put_sendbuffer d h) = state_client h"
  "code (httpd_put_sendbuffer d h) = code h" "code_descr (httpd_put_sendbuffer d h) = code_descr h"
  "linebuffer (httpd_put_sendbuffer d h) = linebuffer h" "linebuffer_ptr (httpd_put_sendbuffer d h) = linebuffer_ptr h"
  "std_header_state (httpd_put_sendbuffer d h) = std_header_state h" "handler (httpd_put_sendbuffer d h) = handler h"
  "response_priv (httpd_put_sendbuffer d h) = response_priv h" "frees (httpd_put_sendbuffer d h) = frees h"
  "sendbuffer_read (httpd_put_sendbuffer d h) = sendbuffer_read h"
  by (simp_all add: httpd_put_sendbuffer_def Let_def)

lemma fold_put_frame [simp]:
  "state_server (fold httpd_put_sendbuffer ds h) = state_server h" "state_client (fold httpd_put_sendbuffer ds h) = state_client h"
  "code (fold httpd_put_sendbuffer ds h) = code h" "code_descr (fold httpd_put_sendbuffer ds h) = code_descr h"
  "linebuffer (fold httpd_put_sendbuffer ds h) = linebuffer h" "linebuffer_ptr (fold httpd_put_sendbuffer ds h) = linebuffer_ptr h"
  "std_header_state (fold httpd_put_sendbuffer ds h) = std_header_state h" "handler (fold httpd_put_sendbuffer ds h) = handler h"
  "response_priv (fold httpd_put_sendbuffer ds h) = response_priv h" "frees (fold httpd_put_sendbuffer ds h) = frees h"
  by (induction ds arbitrary: h) simp_all

text \<open>The other fields do not matter to the buffer.\<close>

lemma buf_frame [simp]:
  "buf_ok (h\<lparr>state_server := a\<rparr>) = buf_ok h" "pending (h\<lparr>state_server := a\<rparr>) = pending h"
  "buf_ok (h\<lparr>state_client := a\<rparr>) = buf_ok h" "pending (h\<lparr>state_client := a\<rparr>) = pending h"
  "buf_ok (h\<lparr>code := a\<rparr>) = buf_ok h" "pending (h\<lparr>code := a\<rparr>) = pending h"
  "buf_ok (h\<lparr>code_descr := b\<rparr>) = buf_ok h" "pending (h\<lparr>code_descr := b\<rparr>) = pending h"
  "buf_ok (h\<lparr>linebuffer := c\<rparr>) = buf_ok h" "pending (h\<lparr>linebuffer := c\<rparr>) = pending h"
  "buf_ok (h\<lparr>linebuffer_ptr := a\<rparr>) = buf_ok h" "pending (h\<lparr>linebuffer_ptr := a\<rparr>) = pending h"
  "buf_ok (h\<lparr>std_header_state := a\<rparr>) = buf_ok h" "pending (h\<lparr>std_header_state := a\<rparr>) = pending h"
  "buf_ok (h\<lparr>retries := a\<rparr>) = buf_ok h" "pending (h\<lparr>retries := a\<rparr>) = pending h"
  "buf_ok (h\<lparr>handler := d\<rparr>) = buf_ok h" "pending (h\<lparr>handler := d\<rparr>) = pending h"
  "buf_ok (h\<lparr>response_priv := e\<rparr>) = buf_ok h" "pending (h\<lparr>response_priv := e\<rparr>) = pending h"
  "buf_ok (h\<lparr>frees := a\<rparr>) = buf_ok h" "pending (h\<lparr>frees := a\<rparr>) = pending h"
  by (simp_all add: buf_ok_def pending_def)

lemma put_avail:
  assumes "buf_ok h" and "int (length d) \<le> httpd_available_sendbuffer h"
  shows "buf_ok (httpd_put_sendbuffer d h)" and "pending (httpd_put_sendbuffer d h) = pending h @ d"
proof -
  have "length (pending h) < SENDBUFFER_LEN"
    using length_pending [OF assms(1)] assms(1) by (auto simp: buf_ok_def)
  then have "length (pending h) + length d \<le> 4095" using assms available_pending [OF assms(1)] by (simp add: SENDBUFFER_LEN_def)
  then show "buf_ok (httpd_put_sendbuffer d h)" "pending (httpd_put_sendbuffer d h) = pending h @ d"
    using assms(1) by (simp_all add: sb.put_ok sb.put_abs)
qed

lemma puts_avail:
  assumes "buf_ok h" and "int (length (concat ds)) \<le> httpd_available_sendbuffer h + 9" and "httpd_available_sendbuffer h > 0"
  shows "buf_ok (fold httpd_put_sendbuffer ds h)" and "pending (fold httpd_put_sendbuffer ds h) = pending h @ concat ds"
proof -
  have "length (pending h) + length (concat ds) \<le> 4095"
    using assms(2,3) unfolding available_pending [OF assms(1)] by (simp add: SENDBUFFER_LEN_def)
  then show "buf_ok (fold httpd_put_sendbuffer ds h)" "pending (fold httpd_put_sendbuffer ds h) = pending h @ concat ds"
    using sb.puts [OF assms(1)] by blast+
qed

lemma tcp_do_send_le: "tcp_do_send tw n \<le> n"
proof (induction tw n rule: tcp_do_send.induct)
  case (1 tw n)
  then show ?case by (subst tcp_do_send.simps) (auto simp: Let_def intro: order_trans)
qed

lemma send_pending_ok:
  assumes ok: "buf_ok h" and "send_pending t h = (data, h')"
  shows "buf_ok h' \<and> pending h = data @ pending h'"
proof -
  let ?r = "sendbuffer_read h" and ?w = "sendbuffer_write h" and ?L = SENDBUFFER_LEN
  define a where "a = (if ?w < ?r then ?L - ?r else ?w - ?r)"
  define n where "n = tcp_do_send (tcp_write t) (if tcp_sndbuf t < a then tcp_sndbuf t else a)"
  have n: "n \<le> a" using tcp_do_send_le [of "tcp_write t" "if tcp_sndbuf t < a then tcp_sndbuf t else a"] by (simp add: n_def split: if_splits)
  have b: "length (sendbuffer h) = ?L" "?r < ?L" "?w < ?L" using ok by (simp_all add: buf_ok_def)
  have e: "(if int ?w - int ?r < 0 then ?L - ?r else nat (int ?w - int ?r)) = a" by (auto simp: a_def)
  have res: "data = take n (drop ?r (sendbuffer h))" "h' = h\<lparr>sendbuffer_read := if ?r + n = ?L then 0 else ?r + n\<rparr>"
    using assms(2) unfolding send_pending_def Let_def e n_def [symmetric] by auto
  show ?thesis
  proof (cases "?w < ?r")
    case True
    then have "n \<le> ?L - ?r" using n by (simp add: a_def)
    moreover have "drop ?r (sendbuffer h) = take n (drop ?r (sendbuffer h)) @ drop (?r + n) (sendbuffer h)"
      using append_take_drop_id [of n "drop ?r (sendbuffer h)"] by (simp add: add.commute)
    ultimately show ?thesis using True b unfolding res buf_ok_def pending_def by auto
  next
    case False
    then have "n \<le> ?w - ?r" using n by (simp add: a_def)
    moreover from this have "?r + n \<noteq> ?L" "?r + n \<le> ?w" using b False by linarith+
    moreover have "take (?w - ?r) xs = take n xs @ take (?w - ?r - n) (drop n xs)" for xs :: "u8 list"
      using \<open>n \<le> ?w - ?r\<close> by (metis le_add_diff_inverse take_add)
    ultimately show ?thesis using False b unfolding res buf_ok_def pending_def by (simp add: add.commute)
  qed
qed

section \<open>What is still to be sent\<close>

text \<open>A page with commands, with each command replaced by its text.\<close>

function dhtml_text :: "u8 list \<Rightarrow> u8 list" where
  "dhtml_text [] = []"
| "dhtml_text (c # cs) =
     (if c \<noteq> 37 then c # dhtml_text cs
      else let cmd = takeWhile (\<lambda>c. c \<noteq> 37) cs
           in (if cmd = [] then bytes ''%'' else bytes ''illegal dhtml primitive'') @ dhtml_text (drop (length cmd + 1) cs))"
  by pat_completeness auto
termination
  by (relation "measure length") auto

definition dhtml_ok :: "u8 list \<Rightarrow> bool" where
  "dhtml_ok xs \<longleftrightarrow> even (length (filter (\<lambda>c. c = 37) xs))"

lemma dhtml_text_plain: "37 \<notin> set xs \<Longrightarrow> dhtml_text (xs @ ys) = xs @ dhtml_text ys"
  by (induction xs) auto

lemma dhtml_ok_plain: "37 \<notin> set xs \<Longrightarrow> dhtml_ok (xs @ ys) = dhtml_ok ys"
  by (induction xs) (auto simp: dhtml_ok_def)

lemma dhtml_ok_command:
  assumes "dhtml_ok (37 # cs)"
  shows "length (takeWhile (\<lambda>c. c \<noteq> 37) cs) < length cs" and "dhtml_ok (drop (length (takeWhile (\<lambda>c. c \<noteq> 37) cs) + 1) cs)"
proof -
  let ?t = "takeWhile (\<lambda>c. c \<noteq> 37) cs" and ?d = "dropWhile (\<lambda>c. c \<noteq> 37) cs"
  have odd: "odd (length (filter (\<lambda>c. c = 37) cs))" using assms by (simp add: dhtml_ok_def)
  then have "37 \<in> set cs" by (metis (mono_tags, lifting) even_zero filter_False list.size(3))
  then obtain r where d: "?d = 37 # r" by (metis (mono_tags, lifting) dropWhile_eq_Nil_conv hd_dropWhile list.exhaust_sel)
  have cs: "cs = ?t @ 37 # r" using d takeWhile_dropWhile_id [of "\<lambda>c. c \<noteq> 37" cs] by simp
  have "37 \<notin> set ?t" by (auto dest: set_takeWhileD)
  then have "filter (\<lambda>c. c = 37) cs = 37 # filter (\<lambda>c. c = 37) r" by (subst cs) (auto simp: filter_empty_conv)
  then have "dhtml_ok r" using odd by (simp add: dhtml_ok_def)
  moreover have "drop (length ?t + 1) cs = r" by (subst cs) simp
  ultimately show "dhtml_ok (drop (length ?t + 1) cs)" by simp
  show "length ?t < length cs" by (subst (2) cs) simp
qed

definition same_ctl :: "http \<Rightarrow> http \<Rightarrow> bool" where
  "same_ctl h h' \<longleftrightarrow> state_server h' = state_server h \<and> state_client h' = state_client h \<and> handler h' = handler h \<and> frees h' = frees h
     \<and> linebuffer h' = linebuffer h \<and> linebuffer_ptr h' = linebuffer_ptr h \<and> code h' = code h \<and> code_descr h' = code_descr h
     \<and> std_header_state h' = std_header_state h"

lemma same_ctl_refl [simp]: "same_ctl h h"
  by (simp add: same_ctl_def)

lemma same_ctl_trans: "same_ctl a b \<Longrightarrow> same_ctl b c \<Longrightarrow> same_ctl a c"
  by (simp add: same_ctl_def)

lemma same_ctl_put [simp]: "same_ctl h (httpd_put_sendbuffer d h)" "same_ctl h ((httpd_put_sendbuffer d h)\<lparr>response_priv := p\<rparr>)"
    "same_ctl h (h\<lparr>response_priv := p\<rparr>)"
  by (simp_all add: same_ctl_def)

text \<open>The state of a response in the middle of a page.\<close>

definition page_at :: "vfs_entry \<Rightarrow> nat \<Rightarrow> nat \<Rightarrow> u8 list \<Rightarrow> http \<Rightarrow> bool" where
  "page_at f st ptr rest h \<longleftrightarrow> buf_ok h \<and> response_priv h = Some (Vfs f ptr st) \<and> ptr \<le> length (vfs_data f) \<and> dhtml_ok (drop ptr (vfs_data f))
     \<and> pending h @ dhtml_text (drop ptr (vfs_data f)) = rest"

lemma page_put:
  assumes "page_at f st b rest h" and "b \<le> e" "e \<le> length (vfs_data f)" and "37 \<notin> set (take (e - b) (drop b (vfs_data f)))"
    and "int e - int b \<le> httpd_available_sendbuffer h"
  shows "page_at f st e rest ((httpd_put_sendbuffer (take (e - b) (drop b (vfs_data f))) h)\<lparr>response_priv := Some (Vfs f e st)\<rparr>)"
proof -
  let ?D = "vfs_data f" and ?t = "take (e - b) (drop b (vfs_data f))"
  have "drop b ?D = ?t @ drop e ?D" using append_take_drop_id [of "e - b" "drop b ?D"] assms(2) by simp
  then have "dhtml_text (drop b ?D) = ?t @ dhtml_text (drop e ?D)" "dhtml_ok (drop e ?D)"
    using dhtml_text_plain [OF assms(4), of "drop e ?D"] dhtml_ok_plain [OF assms(4), of "drop e ?D"] assms(1) by (simp_all add: page_at_def)
  moreover have "int (length ?t) \<le> httpd_available_sendbuffer h" using assms(2,3,5) by simp
  ultimately show ?thesis using assms(1,3) put_avail [of h ?t] by (simp add: page_at_def)
qed

lemma next_percent_command:
  assumes "e < length D" and "D ! e = 37" and "dhtml_ok (drop e D)"
  shows "\<exists>q. next_percent D (e + 1) = Some q \<and> e < q \<and> q < length D \<and> dhtml_ok (drop (q + 1) D)
    \<and> dhtml_text (drop e D) = (if q - (e + 1) + 1 = 1 then bytes ''%'' else bytes ''illegal dhtml primitive'') @ dhtml_text (drop (q + 1) D)"
proof -
  let ?cs = "drop (e + 1) D" and ?k = "length (takeWhile (\<lambda>c. c \<noteq> 37) (drop (e + 1) D))"
  have d: "drop e D = 37 # ?cs" using assms(1,2) Cons_nth_drop_Suc [of e D] by simp
  have k: "?k < length ?cs" "dhtml_ok (drop (?k + 1) ?cs)" using dhtml_ok_command [of ?cs] assms(3) d by auto
  then have "next_percent D (e + 1) = Some (e + 1 + ?k)" by (simp add: next_percent_def Let_def)
  moreover have "dhtml_text (drop e D) = (if ?k + 1 = 1 then bytes ''%'' else bytes ''illegal dhtml primitive'') @ dhtml_text (drop (?k + 1) ?cs)"
    unfolding d by (simp add: Let_def)
  moreover have "drop (?k + 1) ?cs = drop (e + 1 + ?k + 1) D" by (simp add: add.commute add.left_commute)
  ultimately show ?thesis using k by (intro exI [of _ "e + 1 + ?k"]) (simp add: Let_def)
qed

lemma plain_Suc:
  assumes "b \<le> e" and "e < length D" and "37 \<notin> set (take (e - b) (drop b D))" and "D ! e \<noteq> 37"
  shows "37 \<notin> set (take (e + 1 - b) (drop b D))"
proof -
  have "take (Suc (e - b)) (drop b D) = take (e - b) (drop b D) @ [D ! e]" using assms(1,2) by (subst take_Suc_conv_app_nth) auto
  then show ?thesis using assms by (simp add: Suc_diff_le)
qed

text \<open>The loop over a page sends a part of its text, as much as fits, and remembers where to go on.\<close>

lemma dhtml_loop_page:
  assumes "page_at f st b rest h" and "b \<le> e" "e \<le> length (vfs_data f)" and "37 \<notin> set (take (e - b) (drop b (vfs_data f)))"
    and "int e - int b \<le> av" and "av \<le> httpd_available_sendbuffer h"
  shows "\<exists>r h' ptr. dhtml_loop f st b e av h = Some (r, h') \<and> page_at f st ptr rest h' \<and> same_ctl h h' \<and> r \<le> 1
    \<and> (r = 0 \<longrightarrow> ptr = length (vfs_data f))"
  using assms
proof (induction f st b e av h rule: dhtml_loop.induct)
  case (1 f st b e av h)
  let ?D = "vfs_data f" and ?t = "take (e - b) (drop b (vfs_data f))"
  define h1 where "h1 = (if e \<noteq> b then (httpd_put_sendbuffer ?t h)\<lparr>response_priv := Some (Vfs f e st)\<rparr> else h)"
  have h1: "page_at f st e rest h1" "same_ctl h h1"
    using page_put [OF "1.prems"(1-4)] "1.prems"(1,5,6) by (auto simp: h1_def)
  show ?case
  proof (cases "int e - int b < av \<and> e \<noteq> length ?D")
    case False
    then have "dhtml_loop f st b e av h = Some (if e = length ?D then 0 else 1, h1)"
      by (subst dhtml_loop.simps) (simp only: Let_def if_False h1_def)
    then show ?thesis using h1 by auto
  next
    case loop: True
    then have e: "e < length ?D" using "1.prems"(3) by simp
    show ?thesis
    proof (cases "?D ! e = 37")
      case False
      then have "dhtml_loop f st b e av h = dhtml_loop f st b (e + 1) av h"
        using loop e by (subst dhtml_loop.simps) (simp add: Let_def)
      moreover have "37 \<notin> set (take (e + 1 - b) (drop b ?D))" using plain_Suc [OF "1.prems"(2) e "1.prems"(4) False] .
      ultimately show ?thesis using "1.IH"(2) [OF refl refl loop _ False "1.prems"(1)] "1.prems" e loop by simp
    next
      case True
      have "dhtml_ok (drop e ?D)" using h1(1) by (simp add: page_at_def)
      from next_percent_command [OF e True this] obtain q where q: "next_percent ?D (e + 1) = Some q" "e < q" "q < length ?D"
          "dhtml_ok (drop (q + 1) ?D)"
          "dhtml_text (drop e ?D) = (if q - (e + 1) + 1 = 1 then bytes ''%'' else bytes ''illegal dhtml primitive'') @ dhtml_text (drop (q + 1) ?D)"
        by blast
      define res where "res = (if q - (e + 1) + 1 = 1 then bytes ''%'' else bytes ''illegal dhtml primitive'')"
      obtain r h2 where d: "response_vfs_do_dynamic (q - (e + 1)) h1 = (r, h2)" by force
      let ?h3 = "h2\<lparr>response_priv := Some (Vfs f (q + 1) st)\<rparr>"
      have step: "dhtml_loop f st b e av h = (if r = 1 then Some (1, h2) else dhtml_loop f st (q + 1) (q + 1) (httpd_available_sendbuffer h2) ?h3)"
        using loop e True q(1) d by (subst dhtml_loop.simps) (simp add: Let_def h1_def [symmetric])
      show ?thesis
      proof (cases "httpd_available_sendbuffer h1 < int (length res)")
        case True
        then have "r = 1" "h2 = h1" using d by (auto simp: response_vfs_do_dynamic_def Let_def res_def)
        then show ?thesis using step h1 by auto
      next
        case False
        then have r: "r = 0" "h2 = httpd_put_sendbuffer res h1" using d by (auto simp: response_vfs_do_dynamic_def Let_def res_def)
        have "buf_ok h1" using h1(1) by (simp add: page_at_def)
        then have put: "buf_ok h2" "pending h2 = pending h1 @ res" using put_avail [of h1 res] False r(2) by auto
        have page: "page_at f st (q + 1) rest ?h3"
          using h1(1) put q(3,4) q(5) [folded res_def] by (simp add: page_at_def)
        have "httpd_available_sendbuffer ?h3 = httpd_available_sendbuffer h2" by (simp add: httpd_available_sendbuffer_def)
        moreover have "0 \<le> httpd_available_sendbuffer h2" by (simp add: available_pending [OF put(1)])
        ultimately obtain r' h' ptr where "dhtml_loop f st (q + 1) (q + 1) (httpd_available_sendbuffer h2) ?h3 = Some (r', h')"
            "page_at f st ptr rest h'" "same_ctl ?h3 h'" "r' \<le> 1" "r' = 0 \<longrightarrow> ptr = length ?D"
          using "1.IH"(1) [OF refl refl loop _ True h1_def q(1) d [symmetric] refl _ page] r(1) e q(3) by auto
        moreover have "same_ctl h ?h3" using h1(2) by (simp add: r(2) same_ctl_def)
        ultimately show ?thesis using step r(1) same_ctl_trans by auto
      qed
    qed
  qed
qed


text \<open>The texts of a response that the producers have not put into the buffer yet.\<close>

definition header_text :: "u8 list \<Rightarrow> u8 list \<Rightarrow> u8 list" where
  "header_text t o' = t @ bytes '': '' @ o' @ crlf"

definition std_rest :: "nat \<Rightarrow> u8 list" where
  "std_rest st = (if st = 0 then (bytes ''Server: yahd v1.0'' @ crlf) @ crlf else if st = 1 then crlf else [])"

definition header_rest :: "http \<Rightarrow> u8 list" where
  "header_rest h =
     (case response_priv h of
        Some (Vfs f ptr st) \<Rightarrow>
          (if st = 0 then header_text (bytes ''Content-Type'') (vfs_mime_type f) else [])
          @ (if st \<le> 1 \<and> \<not> vfs_dynamic f then header_text (bytes ''Content-Length'') (sprintf_d (length (vfs_data f))) else [])
      | Some (Mem b ptr len st) \<Rightarrow>
          (if st = 0 then header_text (bytes ''Content-Type'') (bytes ''application/binary'') else [])
          @ (if st \<le> 1 then header_text (bytes ''Content-Length'') (sprintf_d len) else [])
      | _ \<Rightarrow> []) @ std_rest (std_header_state h)"

definition body_rest :: "http_env \<Rightarrow> http \<Rightarrow> u8 list" where
  "body_rest env h =
     (case response_priv h of
        None \<Rightarrow> []
      | Some (Static text ptr len) \<Rightarrow> take len (drop ptr text)
      | Some (Vfs f ptr st) \<Rightarrow> if vfs_dynamic f then dhtml_text (drop ptr (vfs_data f)) else drop ptr (vfs_data f)
      | Some (Mem b ptr len st) \<Rightarrow> load_list (env_mem env) (b + of_nat ptr) (len - ptr))"

definition status_text :: "http \<Rightarrow> u8 list" where
  "status_text h = concat (status_line (code h)
     (case code_descr h of Some d \<Rightarrow> d | None \<Rightarrow> the (code_descr (httpd_get_descr h))))"

definition remaining :: "http_env \<Rightarrow> http \<Rightarrow> u8 list" where
  "remaining env h =
     (if state_server h = HTTPD_SERVER_RESPONSE then status_text h @ header_rest h @ body_rest env h
      else if state_server h = HTTPD_SERVER_HEADER then header_rest h @ body_rest env h
      else if state_server h = HTTPD_SERVER_DATA then body_rest env h
      else [])"

lemma remaining_cong:
  assumes "state_server h' = state_server h" "code h' = code h" "code_descr h' = code_descr h" "response_priv h' = response_priv h"
    "std_header_state h' = std_header_state h"
  shows "remaining env h' = remaining env h"
proof -
  have "the (code_descr (httpd_get_descr h')) = the (code_descr (httpd_get_descr h))" using assms(2) by (simp add: httpd_get_descr_def)
  then have "status_text h' = status_text h" using assms(2,3) by (simp add: status_text_def split: option.splits)
  then show ?thesis using assms by (simp add: remaining_def header_rest_def body_rest_def)
qed

text \<open>The private data belongs to the handler and its position is inside of the data.\<close>

definition priv_ok :: "http \<Rightarrow> bool" where
  "priv_ok h \<longleftrightarrow>
     (case handler h of
        None \<Rightarrow> True
      | Some H_mem \<Rightarrow> (\<exists>b ptr len st. response_priv h = Some (Mem b ptr len st) \<and> ptr \<le> len)
      | Some H_vfs \<Rightarrow> (\<exists>f ptr st. response_priv h = Some (Vfs f ptr st) \<and> ptr \<le> length (vfs_data f)
           \<and> (vfs_dynamic f \<longrightarrow> dhtml_ok (drop ptr (vfs_data f))))
      | Some _ \<Rightarrow> response_priv h = None \<or> (\<exists>t ptr len. response_priv h = Some (Static t ptr len) \<and> ptr + len = length t))"

lemma priv_ok_cong: "handler h' = handler h \<Longrightarrow> response_priv h' = response_priv h \<Longrightarrow> priv_ok h' = priv_ok h"
  by (simp add: priv_ok_def split: option.splits handler.splits)

definition same_conn :: "http \<Rightarrow> http \<Rightarrow> bool" where
  "same_conn h h' \<longleftrightarrow> state_server h' = state_server h \<and> state_client h' = state_client h \<and> handler h' = handler h \<and> frees h' = frees h
     \<and> linebuffer h' = linebuffer h \<and> linebuffer_ptr h' = linebuffer_ptr h"

lemma same_ctl_conn: "same_ctl h h' \<Longrightarrow> same_conn h h'"
  by (simp add: same_ctl_def same_conn_def)

lemma same_conn_refl [simp]: "same_conn h h"
  by (simp add: same_conn_def)

lemma put_header_fold: "put_header t o' h = fold httpd_put_sendbuffer [t, bytes '': '', o', crlf] h"
  by (simp add: put_header_def)

lemma put_header_avail:
  assumes "buf_ok h" and "int (length t + length o' + 4) \<le> httpd_available_sendbuffer h"
  shows "buf_ok (put_header t o' h)" and "pending (put_header t o' h) = pending h @ header_text t o'"
proof -
  have l: "int (length (concat [t, bytes '': '', o', crlf])) \<le> httpd_available_sendbuffer h + 9" "httpd_available_sendbuffer h > 0"
    using assms(2) by (simp_all add: crlf_def bytes_def)
  show "buf_ok (put_header t o' h)" "pending (put_header t o' h) = pending h @ header_text t o'"
    unfolding put_header_fold using puts_avail [OF assms(1) l] by (simp_all add: header_text_def)
qed

lemma put_header_frame [simp]:
  "state_server (put_header t o' h) = state_server h" "state_client (put_header t o' h) = state_client h"
  "linebuffer (put_header t o' h) = linebuffer h" "linebuffer_ptr (put_header t o' h) = linebuffer_ptr h"
  "std_header_state (put_header t o' h) = std_header_state h" "handler (put_header t o' h) = handler h"
  "response_priv (put_header t o' h) = response_priv h" "frees (put_header t o' h) = frees h"
  by (simp_all add: put_header_def)

text \<open>How many header lines are left; each call that asks to be called again takes one.\<close>

definition header_rank :: "http \<Rightarrow> nat" where
  "header_rank h = 2 - std_header_state h + (case response_priv h of Some (Vfs f ptr st) \<Rightarrow> 2 - st | Some (Mem b ptr len st) \<Rightarrow> 2 - st | _ \<Rightarrow> 0)"

definition header_step :: "http_env \<Rightarrow> http \<Rightarrow> nat \<Rightarrow> http \<Rightarrow> bool" where
  "header_step env h r h' \<longleftrightarrow> buf_ok h' \<and> priv_ok h' \<and> same_conn h h' \<and> pending h' @ header_rest h' = pending h @ header_rest h
     \<and> body_rest env h' = body_rest env h \<and> (r = 0 \<longrightarrow> header_rest h' = []) \<and> (r = 0 \<or> r = 1 \<or> header_rank h' < header_rank h)"

lemma vfs_header_line_None: "vfs_header_line f st = None \<longleftrightarrow> st \<noteq> 0 \<and> (st \<le> 1 \<longrightarrow> vfs_dynamic f)"
  by (auto simp: vfs_header_line_def split: if_splits)

lemma std_header_step:
  assumes "buf_ok h" and "priv_ok h" and "\<forall>f ptr st. response_priv h = Some (Vfs f ptr st) \<longrightarrow> vfs_header_line f st = None"
    and "\<forall>b ptr len st. response_priv h = Some (Mem b ptr len st) \<longrightarrow> st \<ge> 2"
    and "httpd_do_std_header h = (r, h')"
  shows "header_step env h r h'"
proof -
  have rest: "header_rest h = std_rest (std_header_state h)"
    using assms(3,4) by (auto simp: header_rest_def vfs_header_line_None split: option.splits response.splits)
  show ?thesis
  proof (cases "std_header_line (std_header_state h)")
    case None
    then have "r = 0" "h' = h" "std_header_state h \<ge> 2" using assms(5) by (auto simp: httpd_do_std_header_def std_header_line_def split: if_splits)
    then show ?thesis using assms(1,2) rest by (simp add: header_step_def std_rest_def)
  next
    case (Some s)
    show ?thesis
    proof (cases "httpd_available_sendbuffer h < int (length s)")
      case True
      then have "r = 1" "h' = h" using assms(5) Some by (simp_all add: httpd_do_std_header_def)
      then show ?thesis using assms(1,2) by (simp add: header_step_def)
    next
      case False
      then have h': "r = 2" "h' = (httpd_put_sendbuffer s h)\<lparr>std_header_state := std_header_state h + 1\<rparr>"
        using assms(5) Some by (simp_all add: httpd_do_std_header_def)
      have put: "buf_ok (httpd_put_sendbuffer s h)" "pending (httpd_put_sendbuffer s h) = pending h @ s"
        using put_avail [OF assms(1), of s] False by simp_all
      have st: "std_header_state h < 2" "std_rest (std_header_state h) = s @ std_rest (std_header_state h + 1)"
        using Some by (auto simp: std_header_line_def std_rest_def split: if_splits)
      have "header_rest h' = std_rest (std_header_state h + 1)"
        using rest unfolding h' header_rest_def by (auto split: option.splits response.splits if_splits)
      moreover have "priv_ok h'" using assms(2) by (subst priv_ok_cong [of _ h]) (simp_all add: h')
      moreover have "header_rank h' < header_rank h" unfolding header_rank_def h' using st(1) by simp
      ultimately show ?thesis using put st rest by (simp add: header_step_def h' same_conn_def body_rest_def)
    qed
  qed
qed

lemma do_header_step:
  assumes "buf_ok h" and "priv_ok h" and "handler h = Some row"
  shows "\<exists>r h'. do_header row h = Some (r, h') \<and> header_step env h r h'"
proof -
  have std: "\<exists>r h'. Some (httpd_do_std_header h) = Some (r, h') \<and> header_step env h r h'"
    if "\<forall>f ptr st. response_priv h = Some (Vfs f ptr st) \<longrightarrow> vfs_header_line f st = None"
      "\<forall>b ptr len st. response_priv h = Some (Mem b ptr len st) \<longrightarrow> st \<ge> 2"
    using std_header_step [OF assms(1,2) that] by (metis surj_pair)
  show ?thesis
  proof (cases "row = H_vfs \<or> row = H_mem")
    case False
    then show ?thesis using assms(2,3) std by (cases row) (auto simp: do_header_def priv_ok_def)
  next
    case True
    then show ?thesis
    proof
      assume row: "row = H_vfs"
      then obtain f ptr st where p: "response_priv h = Some (Vfs f ptr st)" using assms(2,3) by (auto simp: priv_ok_def)
      show ?thesis
      proof (cases "vfs_header_line f st")
        case None
        then show ?thesis using std p row by (auto simp: do_header_def response_vfs_do_header_def)
      next
        case (Some to)
        obtain t o' where to: "to = (t, o')" by force
        show ?thesis
        proof (cases "httpd_available_sendbuffer h < int (length t + length o' + 4)")
          case True
          then show ?thesis using Some to p row assms(1,2) by (auto simp: do_header_def response_vfs_do_header_def header_step_def)
        next
          case False
          let ?h = "(put_header t o' h)\<lparr>response_priv := Some (Vfs f ptr (st + 1))\<rparr>"
          have "do_header row h = Some (2, ?h)" using False Some to p row by (simp add: do_header_def response_vfs_do_header_def)
          moreover have "header_step env h 2 ?h"
            using put_header_avail [OF assms(1), of t o'] False Some to p assms(2,3) row
            by (auto simp: header_step_def header_rest_def body_rest_def priv_ok_def same_conn_def header_rank_def vfs_header_line_def split: if_splits)
          ultimately show ?thesis by blast
        qed
      qed
    next
      assume row: "row = H_mem"
      then obtain b ptr len st where p: "response_priv h = Some (Mem b ptr len st)" using assms(2,3) by (auto simp: priv_ok_def)
      define line where "line = (if st = 0 then Some (bytes ''Content-Type'', bytes ''application/binary'')
                      else if st = 1 then Some (bytes ''Content-Length'', sprintf_d len) else None)"
      show ?thesis
      proof (cases line)
        case None
        then have "st \<ge> 2" by (auto simp: line_def split: if_splits)
        then show ?thesis using std p row by (auto simp: do_header_def response_mem_do_header_def)
      next
        case (Some to)
        obtain t o' where to: "to = (t, o')" by force
        show ?thesis
        proof (cases "httpd_available_sendbuffer h < int (length t + length o' + 4)")
          case True
          then show ?thesis using Some to p row assms(1,2)
            by (auto simp: do_header_def response_mem_do_header_def header_step_def line_def [symmetric])
        next
          case False
          let ?h = "(put_header t o' h)\<lparr>response_priv := Some (Mem b ptr len (st + 1))\<rparr>"
          have "do_header row h = Some (2, ?h)" using False Some to p row
            by (simp add: do_header_def response_mem_do_header_def line_def [symmetric])
          moreover have "header_step env h 2 ?h"
            using put_header_avail [OF assms(1), of t o'] False Some to p assms(2,3) row
            by (auto simp: header_step_def header_rest_def body_rest_def priv_ok_def same_conn_def header_rank_def line_def split: if_splits)
          ultimately show ?thesis by blast
        qed
      qed
    qed
  qed
qed

definition data_step :: "http_env \<Rightarrow> http \<Rightarrow> nat \<Rightarrow> http \<Rightarrow> bool" where
  "data_step env h r h' \<longleftrightarrow> buf_ok h' \<and> priv_ok h' \<and> same_conn h h' \<and> pending h' @ body_rest env h' = pending h @ body_rest env h
     \<and> r \<le> 1 \<and> (r = 0 \<longrightarrow> body_rest env h' = [])"

lemma data_step_refl: "buf_ok h \<Longrightarrow> priv_ok h \<Longrightarrow> r \<le> 1 \<Longrightarrow> (r = 0 \<Longrightarrow> body_rest env h = []) \<Longrightarrow> data_step env h r h"
  by (simp add: data_step_def)

lemma mem_data_loop_load:
  assumes "buf_ok h" and "int av \<le> httpd_available_sendbuffer h"
  shows "\<exists>h'. mem_data_loop m b ptr av h = (ptr + av, h') \<and> buf_ok h' \<and> same_ctl h h' \<and> response_priv h' = response_priv h
    \<and> pending h' = pending h @ load_list m (b + of_nat ptr) av"
  using assms
proof (induction m b ptr av h rule: mem_data_loop.induct)
  case (1 m b ptr av h)
  show ?case
  proof (cases "av = 0")
    case True
    then show ?thesis using "1.prems" by (subst mem_data_loop.simps) simp
  next
    case False
    define k where "k = (if 1024 > av then av else 1024)"
    have k: "k \<le> av" by (simp add: k_def)
    let ?d = "load_list m (b + of_nat ptr) k"
    let ?h = "httpd_put_sendbuffer ?d h"
    have step: "mem_data_loop m b ptr av h = mem_data_loop m b (ptr + k) (av - k) ?h"
      using False by (subst mem_data_loop.simps) (simp add: k_def Let_def)
    have put: "buf_ok ?h" "pending ?h = pending h @ ?d" using put_avail [OF "1.prems"(1), of ?d] "1.prems"(2) k by simp_all
    have "int (av - k) \<le> httpd_available_sendbuffer ?h"
      using "1.prems"(2) k by (simp add: available_pending put "1.prems"(1))
    from "1.IH" [OF False k_def put(1) this]
    obtain h' where h': "mem_data_loop m b (ptr + k) (av - k) ?h = (ptr + k + (av - k), h')" "buf_ok h'" "same_ctl ?h h'"
        "response_priv h' = response_priv ?h" "pending h' = pending ?h @ load_list m (b + of_nat (ptr + k)) (av - k)" by blast
    have "load_list m (b + of_nat ptr) av = ?d @ load_list m (b + of_nat (ptr + k)) (av - k)"
      using load_list_add [of m "b + of_nat ptr" k "av - k"] k by (simp add: add.assoc)
    moreover have "same_ctl h h'" using same_ctl_trans [OF same_ctl_put(1) h'(3)] .
    ultimately show ?thesis using step h' k put by simp
  qed
qed

lemma static_data_step:
  assumes "buf_ok h" and "priv_ok h" and "handler h = Some row" and "row \<noteq> H_vfs" "row \<noteq> H_mem"
  shows "\<exists>r h'. response_static_do_data h = Some (r, h') \<and> data_step env h r h'"
proof (cases "response_priv h")
  case None
  then have "response_static_do_data h = Some (0, h)" by (simp add: response_static_do_data_def)
  moreover have "data_step env h 0 h" using assms(1,2) None by (simp add: data_step_refl body_rest_def)
  ultimately show ?thesis by blast
next
  case (Some p)
  then obtain t ptr len where p: "response_priv h = Some (Static t ptr len)" "ptr + len = length t"
    using assms(2-5) by (cases row) (auto simp: priv_ok_def)
  let ?av = "httpd_available_sendbuffer h"
  show ?thesis
  proof (cases "?av = 0")
    case True
    then have "response_static_do_data h = Some (1, h)" using p by (simp add: response_static_do_data_def)
    moreover have "data_step env h 1 h" using assms(1,2) by (simp add: data_step_refl)
    ultimately show ?thesis by blast
  next
    case False
    define av where "av = (if ?av > int len then len else nat ?av)"
    have pos: "0 < ?av" using False available_pending [OF assms(1)] by simp
    then have av: "int av \<le> ?av" "av \<le> len" by (auto simp: av_def)
    let ?d = "take av (drop ptr t)"
    let ?h = "(httpd_put_sendbuffer ?d h)\<lparr>response_priv := Some (Static t (ptr + av) (len - av))\<rparr>"
    have e: "response_static_do_data h = Some (if len - av = 0 then 0 else 1, ?h)"
      using False p by (simp add: response_static_do_data_def Let_def av_def)
    have put: "buf_ok (httpd_put_sendbuffer ?d h)" "pending (httpd_put_sendbuffer ?d h) = pending h @ ?d"
      using put_avail [OF assms(1), of ?d] av by simp_all
    have split: "take len (drop ptr t) = ?d @ take (len - av) (drop (ptr + av) t)"
      using take_add [of av "len - av" "drop ptr t"] av by (simp add: add.commute)
    have "priv_ok ?h" using assms(3-5) p av by (cases row) (simp_all add: priv_ok_def)
    then have "data_step env h (if len - av = 0 then 0 else 1) ?h"
      using put split p by (simp add: data_step_def same_conn_def body_rest_def)
    with e show ?thesis by blast
  qed
qed

lemma vfs_data_step:
  assumes "buf_ok h" and "priv_ok h" and "handler h = Some H_vfs"
  shows "\<exists>r h'. response_vfs_do_data h = Some (r, h') \<and> data_step env h r h'"
proof -
  obtain f ptr st where p: "response_priv h = Some (Vfs f ptr st)" "ptr \<le> length (vfs_data f)" "vfs_dynamic f \<longrightarrow> dhtml_ok (drop ptr (vfs_data f))"
    using assms(2,3) by (auto simp: priv_ok_def)
  let ?av = "httpd_available_sendbuffer h" and ?D = "vfs_data f"
  consider (full) "?av = 0" | (dynamic) "?av \<noteq> 0" "vfs_dynamic f" | (static) "?av \<noteq> 0" "\<not> vfs_dynamic f" by blast
  then show ?thesis
  proof cases
    case full
    then have "response_vfs_do_data h = Some (1, h)" using p by (simp add: response_vfs_do_data_def)
    moreover have "data_step env h 1 h" using assms(1,2) by (simp add: data_step_refl)
    ultimately show ?thesis by blast
  next
    case dynamic
    have "page_at f st ptr (pending h @ dhtml_text (drop ptr ?D)) h" using assms(1) p dynamic by (simp add: page_at_def)
    moreover have "0 \<le> ?av" by (simp add: available_pending [OF assms(1)])
    ultimately obtain r h' ptr' where l: "dhtml_loop f st ptr ptr ?av h = Some (r, h')"
        "page_at f st ptr' (pending h @ dhtml_text (drop ptr ?D)) h'" "same_ctl h h'" "r \<le> 1" "r = 0 \<longrightarrow> ptr' = length ?D"
      using dhtml_loop_page [of f st ptr "pending h @ dhtml_text (drop ptr ?D)" h ptr ?av] p(2) by auto
    have "response_vfs_do_data h = Some (r, h')" using p dynamic l(1) by (simp add: response_vfs_do_data_def)
    moreover have "handler h' = Some H_vfs" using l(3) assms(3) by (simp add: same_ctl_def)
    then have "data_step env h r h'"
      using l dynamic p by (simp add: data_step_def page_at_def priv_ok_def body_rest_def same_ctl_conn)
    ultimately show ?thesis by blast
  next
    case static
    define av where "av = (if ?av > int (length ?D) - int ptr then int (length ?D) - int ptr else ?av)"
    have pos: "0 < ?av" using static available_pending [OF assms(1)] by simp
    then have av: "0 \<le> av" "av \<le> ?av" "nat av \<le> length ?D - ptr" using p(2) by (auto simp: av_def)
    let ?d = "take (nat av) (drop ptr ?D)"
    let ?h = "(httpd_put_sendbuffer ?d h)\<lparr>response_priv := Some (Vfs f (ptr + nat av) st)\<rparr>"
    have e: "response_vfs_do_data h = Some (if av = 0 then (0, h) else (1, ?h))"
      using static p by (simp add: response_vfs_do_data_def Let_def av_def)
    show ?thesis
    proof (cases "av = 0")
      case True
      then have "ptr = length ?D" using pos p(2) by (auto simp: av_def split: if_splits)
      then have "data_step env h 0 h" using assms(1,2) p static by (simp add: data_step_refl body_rest_def)
      with e True show ?thesis by simp
    next
      case False
      have put: "buf_ok (httpd_put_sendbuffer ?d h)" "pending (httpd_put_sendbuffer ?d h) = pending h @ ?d"
        using put_avail [OF assms(1), of ?d] av by simp_all
      have split: "drop ptr ?D = ?d @ drop (ptr + nat av) ?D"
        using append_take_drop_id [of "nat av" "drop ptr ?D"] by (simp add: add.commute)
      have "priv_ok ?h" using assms(3) p(2) av static(2) by (simp add: priv_ok_def)
      then have "data_step env h 1 ?h" using put split p static by (simp add: data_step_def same_conn_def body_rest_def)
      with e False show ?thesis by simp
    qed
  qed
qed

lemma mem_data_step:
  assumes "buf_ok h" and "priv_ok h" and "handler h = Some H_mem"
  shows "\<exists>r h'. response_mem_do_data (env_mem env) h = Some (r, h') \<and> data_step env h r h'"
proof -
  obtain b ptr len st where p: "response_priv h = Some (Mem b ptr len st)" "ptr \<le> len" using assms(2,3) by (auto simp: priv_ok_def)
  let ?av = "httpd_available_sendbuffer h"
  show ?thesis
  proof (cases "?av = 0")
    case True
    then have "response_mem_do_data (env_mem env) h = Some (1, h)" using p by (simp add: response_mem_do_data_def)
    moreover have "data_step env h 1 h" using assms(1,2) by (simp add: data_step_refl)
    ultimately show ?thesis by blast
  next
    case False
    define av where "av = (if ?av > int len - int ptr then int len - int ptr else ?av)"
    have "0 < ?av" using False available_pending [OF assms(1)] by simp
    then have av: "0 \<le> av" "av \<le> ?av" "nat av \<le> len - ptr" using p(2) by (auto simp: av_def)
    then have fits: "int (nat av) \<le> ?av" by simp
    obtain h' where h': "mem_data_loop (env_mem env) b ptr (nat av) h = (ptr + nat av, h')" "buf_ok h'" "same_ctl h h'"
        "response_priv h' = response_priv h" "pending h' = pending h @ load_list (env_mem env) (b + of_nat ptr) (nat av)"
      using mem_data_loop_load [OF assms(1) fits] by blast
    let ?h = "h'\<lparr>response_priv := Some (Mem b (ptr + nat av) len st)\<rparr>"
    have e: "response_mem_do_data (env_mem env) h = Some (1, ?h)"
      using False p h'(1) by (simp add: response_mem_do_data_def Let_def av_def)
    have split: "load_list (env_mem env) (b + of_nat ptr) (len - ptr)
        = load_list (env_mem env) (b + of_nat ptr) (nat av) @ load_list (env_mem env) (b + of_nat (ptr + nat av)) (len - (ptr + nat av))"
    proof -
      have "len - ptr = nat av + (len - (ptr + nat av))" using av(3) by simp
      then show ?thesis using load_list_add [of "env_mem env" "b + of_nat ptr" "nat av" "len - (ptr + nat av)"] by (simp add: add.assoc)
    qed
    have "handler h' = Some H_mem" using h'(3) assms(3) by (simp add: same_ctl_def)
    then have "priv_ok ?h" using p(2) av(3) by (simp add: priv_ok_def)
    moreover have "same_conn h ?h" using h'(3) by (simp add: same_ctl_def same_conn_def)
    ultimately have "data_step env h 1 ?h" using h'(2,5) split p by (simp add: data_step_def body_rest_def)
    with e show ?thesis by blast
  qed
qed

lemma do_data_step:
  assumes "buf_ok h" and "priv_ok h" and "handler h = Some row"
  shows "\<exists>r h'. do_data env row h = Some (r, h') \<and> data_step env h r h'"
  using static_data_step [OF assms] vfs_data_step [OF assms(1,2)] mem_data_step [OF assms(1,2)] assms(3)
  by (cases row) (simp_all add: do_data_def)

section \<open>The invariant of a connection\<close>

definition http_ok :: "http \<Rightarrow> bool" where
  "http_ok h \<longleftrightarrow> buf_ok h \<and> priv_ok h \<and> length (linebuffer h) = MAX_LINESIZE + 1 \<and> linebuffer_ptr h \<le> MAX_LINESIZE
     \<and> state_server h \<le> HTTPD_SERVER_CLOSE \<and> state_client h \<le> HTTPD_CLIENT_DATA
     \<and> (state_client h = HTTPD_CLIENT_DATA \<longleftrightarrow> state_server h \<noteq> HTTPD_SERVER_IDLE)
     \<and> (handler h = None \<longleftrightarrow> state_client h = HTTPD_CLIENT_REQUEST \<or> frees h = 1)
     \<and> frees h \<le> 1 \<and> (frees h = 1 \<longrightarrow> state_server h = HTTPD_SERVER_CLOSE)"

definition server_rank :: "http \<Rightarrow> nat" where
  "server_rank h = (if state_server h = HTTPD_SERVER_RESPONSE then 10
     else if state_server h = HTTPD_SERVER_HEADER then 3 + header_rank h
     else if state_server h = HTTPD_SERVER_DATA then 2 else 1)"

definition step_ok :: "http_env \<Rightarrow> http \<Rightarrow> http \<Rightarrow> bool" where
  "step_ok env h h' \<longleftrightarrow> http_ok h' \<and> state_client h' = state_client h
     \<and> pending h' @ remaining env h' = pending h @ remaining env h"

lemma step_ok_refl: "http_ok h \<Longrightarrow> step_ok env h h"
  by (simp add: step_ok_def)

lemma step_ok_trans: "step_ok env a b \<Longrightarrow> step_ok env b c \<Longrightarrow> step_ok env a c"
  by (simp add: step_ok_def)

lemma header_rank_le: "header_rank h \<le> 4"
  by (auto simp: header_rank_def split: option.splits response.splits)

lemma server_response_step:
  assumes ok: "http_ok h" and st: "state_server h = HTTPD_SERVER_RESPONSE" and r: "server_response h = (busy, h')"
  shows "step_ok env h h' \<and> (busy \<or> server_rank h' < server_rank h)"
proof -
  define h1 where "h1 = (if code_descr h = None then httpd_get_descr h else h)"
  obtain d where d: "code_descr h1 = Some d" by (cases "code_descr h") (auto simp: h1_def httpd_get_descr_def)
  have same: "buf_ok h1 = buf_ok h" "pending h1 = pending h" "same_conn h h1" "response_priv h1 = response_priv h"
      "std_header_state h1 = std_header_state h" "code h1 = code h"
    by (simp_all add: h1_def httpd_get_descr_def same_conn_def)
  have rest: "header_rest h1 = header_rest h" "body_rest env h1 = body_rest env h" "status_text h = concat (status_line (code h) d)"
      "status_text h1 = concat (status_line (code h) d)"
    using same d by (simp_all add: header_rest_def body_rest_def status_text_def)
      (auto simp: h1_def httpd_get_descr_def split: option.splits if_splits)
  have priv: "priv_ok h1" using ok same by (subst priv_ok_cong [of _ h]) (simp_all add: http_ok_def same_conn_def)
  have ok1: "http_ok h1" using ok same priv by (simp add: http_ok_def same_conn_def)
  show ?thesis
  proof (cases "httpd_available_sendbuffer h1 < int (13 + length d)")
    case True
    then have "busy" "h' = h1" using r d by (simp_all add: server_response_def Let_def h1_def [symmetric])
    then show ?thesis using ok1 same rest st by (simp add: step_ok_def remaining_def same_conn_def)
  next
    case False
    let ?ds = "status_line (code h) d"
    let ?h2 = "fold httpd_put_sendbuffer ?ds h1"
    have h': "\<not> busy" "h' = ?h2\<lparr>state_server := HTTPD_SERVER_HEADER\<rparr>"
      using False r d same by (simp_all add: server_response_def Let_def h1_def [symmetric])
    have "int (length (concat ?ds)) \<le> httpd_available_sendbuffer h1 + 9" "0 < httpd_available_sendbuffer h1"
      using False by (simp_all add: status_line_def bytes_def crlf_def)
    from puts_avail [OF _ this] ok1 have put: "buf_ok ?h2" "pending ?h2 = pending h1 @ concat ?ds" by (simp_all add: http_ok_def)
    have "header_rest h' = header_rest h" "body_rest env h' = body_rest env h"
      using same by (simp_all add: h' header_rest_def body_rest_def)
    moreover have "priv_ok h'" using priv by (subst priv_ok_cong [of _ h1]) (simp_all add: h')
    ultimately show ?thesis
      using ok1 put same rest st header_rank_le [of h'] by (simp add: step_ok_def http_ok_def remaining_def same_conn_def h' server_rank_def server_states)
  qed
qed

lemma server_step_ok:
  assumes ok: "http_ok h"
  shows "\<exists>d b h'. server_step env h = Some (d, b, h') \<and> step_ok env h h' \<and> (d \<or> b \<or> server_rank h' < server_rank h)"
proof -
  have bp: "buf_ok h" "priv_ok h" using ok by (simp_all add: http_ok_def)
  have "state_server h = 0 \<or> state_server h = 1 \<or> state_server h = 2 \<or> state_server h = 3 \<or> state_server h = 4"
    using ok by (auto simp: http_ok_def server_states)
  then consider (idle) "state_server h = HTTPD_SERVER_IDLE" | (response) "state_server h = HTTPD_SERVER_RESPONSE"
    | (header) "state_server h = HTTPD_SERVER_HEADER" | (data) "state_server h = HTTPD_SERVER_DATA" | (close) "state_server h = HTTPD_SERVER_CLOSE"
    by (auto simp: server_states)
  then show ?thesis
  proof cases
    case idle
    then have "server_step env h = Some (True, False, h)" by (simp add: server_step_def)
    then show ?thesis using step_ok_refl [OF ok] by blast
  next
    case response
    obtain busy h' where r: "server_response h = (busy, h')" by force
    then have "server_step env h = Some (False, busy, h')" using response by (simp add: server_step_def server_states)
    with server_response_step [OF ok response r] show ?thesis by blast
  next
    case header
    then obtain row where row: "handler h = Some row" using ok by (cases "handler h") (auto simp: http_ok_def server_states client_states)
    obtain r h1 where r: "do_header row h = Some (r, h1)" "header_step env h r h1"
      using do_header_step [OF bp row, of env] by blast
    let ?h = "if r = 0 then h1\<lparr>state_server := HTTPD_SERVER_DATA\<rparr> else h1"
    have "server_step env h = Some (False, r = 1, ?h)" using header row r by (simp add: server_step_def server_states)
    moreover have p: "priv_ok ?h" using r(2) by (subst priv_ok_cong [of _ h1]) (simp_all add: header_step_def)
    have "step_ok env h ?h" "r = 1 \<or> server_rank ?h < server_rank h"
      using ok header r(2) p
      by (auto simp: step_ok_def http_ok_def header_step_def same_conn_def remaining_def body_rest_def server_rank_def server_states)
    ultimately show ?thesis by blast
  next
    case data
    then obtain row where row: "handler h = Some row" using ok by (cases "handler h") (auto simp: http_ok_def server_states client_states)
    obtain r h1 where r: "do_data env row h = Some (r, h1)" "data_step env h r h1"
      using do_data_step [OF bp row, of env] by blast
    let ?h = "if r = 0 then h1\<lparr>state_server := HTTPD_SERVER_CLOSE\<rparr> else h1"
    have "server_step env h = Some (False, r = 1, ?h)" using data row r by (simp add: server_step_def server_states)
    moreover have p: "priv_ok ?h" using r(2) by (subst priv_ok_cong [of _ h1]) (simp_all add: data_step_def)
    have "step_ok env h ?h" "r = 1 \<or> server_rank ?h < server_rank h"
      using ok data r(2) p
      by (auto simp: step_ok_def http_ok_def data_step_def same_conn_def remaining_def server_rank_def server_states)
    ultimately show ?thesis by blast
  next
    case close
    let ?h = "(if handler h \<noteq> None then finish h else h)\<lparr>handler := None\<rparr>"
    have "server_step env h = Some (True, False, ?h)" using close by (simp add: server_step_def server_states)
    moreover have "step_ok env h ?h"
      using ok close by (auto simp: step_ok_def http_ok_def priv_ok_def remaining_def finish_def server_states client_states)
    ultimately show ?thesis by blast
  qed
qed

text \<open>The server loop ends, without a null pointer, and only moves bytes of the response into the buffer.\<close>

lemma handle_server_ok:
  assumes "http_ok h"
  shows "\<exists>h'. httpd_handle_server env h = Some h' \<and> step_ok env h h'"
  using assms
proof (induction "server_rank h" arbitrary: h rule: less_induct)
  case less
  obtain d b h1 where s: "server_step env h = Some (d, b, h1)" "step_ok env h h1" "d \<or> b \<or> server_rank h1 < server_rank h"
    using server_step_ok [OF less.prems] by blast
  show ?case
  proof (cases "d \<or> b")
    case True
    then show ?thesis using s by (subst httpd_handle_server.simps) auto
  next
    case False
    then obtain h' where "httpd_handle_server env h1 = Some h'" "step_ok env h1 h'"
      using less.hyps [of h1] s(2,3) by (auto simp: step_ok_def)
    then show ?thesis using s(1,2) False step_ok_trans by (subst httpd_handle_server.simps) auto
  qed
qed

section \<open>Receiving a request\<close>

text \<open>The pages the server has are well-formed.\<close>

definition env_ok :: "http_env \<Rightarrow> bool" where
  "env_ok env \<longleftrightarrow> (\<forall>f \<in> set (vfs_entries env). vfs_dynamic f \<longrightarrow> dhtml_ok (vfs_data f))"

lemma search_file_Some: "search_file es n = Some f \<Longrightarrow> f \<in> set es \<and> vfs_filename f = n"
  by (auto simp: search_file_def find_Some_iff)

lemma process_request_ok:
  assumes "env_ok env" and "process_request row env method path h = (ok, h')"
  shows "\<exists>p c. h' = h\<lparr>response_priv := p, code := c\<rparr> \<and> (ok \<longrightarrow> priv_ok (h'\<lparr>handler := Some row\<rparr>))"
proof -
  have id: "h = h\<lparr>response_priv := response_priv h, code := code h\<rparr>" by simp
  have upd: "h\<lparr>response_priv := p\<rparr> = h\<lparr>response_priv := p, code := code h\<rparr>" for p by simp
  have swap: "h\<lparr>code := c, response_priv := p\<rparr> = h\<lparr>response_priv := p, code := c\<rparr>" for c p by simp
  have page: "dhtml_ok (vfs_data f)" if "search_file (vfs_entries env) u = Some f" "vfs_dynamic f" for u f
    using assms(1) search_file_Some [OF that(1)] that(2) by (auto simp: env_ok_def)
  have rej: ?thesis if "\<not> ok" "h' = h \<or> (\<exists>p. h' = h\<lparr>response_priv := p\<rparr>)" using that id upd by metis
  have acc: ?thesis if "h' = h\<lparr>response_priv := p, code := c\<rparr>" "priv_ok (h'\<lparr>handler := Some row\<rparr>)" for p c using that by blast
  have st: "priv_ok ((h\<lparr>response_priv := (if b then Some (Static t 0 (length t)) else None), code := c\<rparr>)\<lparr>handler := Some row\<rparr>)"
    if "row \<noteq> H_vfs" "row \<noteq> H_mem" for b t c
    using that by (cases row) (auto simp: priv_ok_def)
  show ?thesis
  proof (cases row)
    case H_mem
    let ?p = "Some (Mem 0 0 (512 * 1024 * 1024) 0)"
    have h': "ok \<Longrightarrow> h' = h\<lparr>response_priv := ?p, code := 200\<rparr>" "\<not> ok \<Longrightarrow> h' = h \<or> h' = h\<lparr>response_priv := None\<rparr>"
      using assms(2) H_mem by (simp_all add: process_request_def response_mem_process_request_def split: if_splits)
    then have "ok \<Longrightarrow> priv_ok (h'\<lparr>handler := Some row\<rparr>)" by (simp add: H_mem priv_ok_def)
    then show ?thesis using h' rej acc [where p = ?p and c = 200] by blast
  next
    case H_vfs
    let ?u = "if path = bytes ''/'' then bytes ''/index.dhtml'' else path"
    show ?thesis
    proof (cases "search_file (vfs_entries env) ?u")
      case None
      then have "\<not> ok \<and> h' = h"
        using assms(2) H_vfs unfolding process_request_def response_vfs_process_request_def Let_def by (simp split: if_splits)
      then show ?thesis using rej by blast
    next
      case (Some f)
      have h': "ok \<Longrightarrow> h' = h\<lparr>response_priv := Some (Vfs f 0 0), code := 200\<rparr>" "\<not> ok \<Longrightarrow> h' = h \<or> h' = h\<lparr>response_priv := None\<rparr>"
        using assms(2) H_vfs Some unfolding process_request_def response_vfs_process_request_def Let_def by (simp_all split: if_splits)
      then have "ok \<Longrightarrow> priv_ok (h'\<lparr>handler := Some row\<rparr>)" using page [OF Some] by (simp add: H_vfs priv_ok_def)
      then show ?thesis using h' rej acc [where p = "Some (Vfs f 0 0)" and c = 200] by blast
    qed
  next
    case H_fuses
    let ?p = "if malloc_ok env H_fuses then Some (Static (FUSES env) 0 (length (FUSES env))) else None"
    have h': "ok \<Longrightarrow> h' = h\<lparr>response_priv := ?p, code := 200\<rparr>" "\<not> ok \<Longrightarrow> h' = h"
      using assms(2) H_fuses by (simp_all add: process_request_def response_fuses_process_request_def response_static_process_request_def swap split: if_splits)
    with st [where b = "malloc_ok env H_fuses" and t = "FUSES env" and c = "200"] H_fuses have "ok \<Longrightarrow> priv_ok (h'\<lparr>handler := Some row\<rparr>)" by simp
    then show ?thesis using h' rej acc [where p = ?p and c = "200"] by blast
  next
    case H_err400
    let ?p = "if malloc_ok env H_err400 then Some (Static (err400_text) 0 (length (err400_text))) else None"
    have h': "ok \<Longrightarrow> h' = h\<lparr>response_priv := ?p, code := code h\<rparr>" "\<not> ok \<Longrightarrow> h' = h"
      using assms(2) H_err400 by (simp_all add: process_request_def response_err400_process_request_def response_static_process_request_def swap split: if_splits)
    with st [where b = "malloc_ok env H_err400" and t = "err400_text" and c = "code h"] H_err400 have "ok \<Longrightarrow> priv_ok (h'\<lparr>handler := Some row\<rparr>)" by simp
    then show ?thesis using h' rej acc [where p = ?p and c = "code h"] by blast
  next
    case H_err404
    let ?p = "if malloc_ok env H_err404 then Some (Static (err404_text) 0 (length (err404_text))) else None"
    have h': "ok \<Longrightarrow> h' = h\<lparr>response_priv := ?p, code := 404\<rparr>" "\<not> ok \<Longrightarrow> h' = h"
      using assms(2) H_err404 by (simp_all add: process_request_def response_err404_process_request_def response_static_process_request_def swap split: if_splits)
    with st [where b = "malloc_ok env H_err404" and t = "err404_text" and c = "404"] H_err404 have "ok \<Longrightarrow> priv_ok (h'\<lparr>handler := Some row\<rparr>)" by simp
    then show ?thesis using h' rej acc [where p = ?p and c = "404"] by blast
  qed
qed

lemma find_handler_ok:
  assumes "env_ok env" and "h' = httpd_find_handler env method path h"
  shows "\<exists>p c row. h' = h\<lparr>response_priv := p, code := c, handler := Some row\<rparr> \<and> priv_ok h'"
proof -
  have loop: "\<exists>p c row. find_handler_loop (rows @ [H_err404]) env method path h = h\<lparr>response_priv := p, code := c, handler := Some row\<rparr>
      \<and> priv_ok (find_handler_loop (rows @ [H_err404]) env method path h)" for rows h
  proof (induction rows arbitrary: h)
    case Nil
    obtain ok h1 where r: "process_request H_err404 env method path h = (ok, h1)" by force
    have "ok" using r by (simp add: process_request_def response_err404_process_request_def)
    then show ?case using process_request_ok [OF assms(1) r] r by auto
  next
    case (Cons row rows)
    obtain ok h1 where r: "process_request row env method path h = (ok, h1)" by force
    obtain p c where h1: "h1 = h\<lparr>response_priv := p, code := c\<rparr>" "ok \<longrightarrow> priv_ok (h1\<lparr>handler := Some row\<rparr>)"
      using process_request_ok [OF assms(1) r] by blast
    show ?case
    proof (cases ok)
      case True
      then show ?thesis using r h1 by auto
    next
      case False
      then show ?thesis using r h1(1) Cons.IH [of h1] by auto
    qed
  qed
  show ?thesis using loop [of "[H_mem, H_fuses, H_vfs, H_err400]" h] by (simp add: assms(2) httpd_find_handler_def http_handler_def)
qed

text \<open>Storing a character keeps to the line buffer.\<close>

lemma receive_char_ok:
  assumes "length (linebuffer h) = MAX_LINESIZE + 1" "linebuffer_ptr h \<le> MAX_LINESIZE" and "httpd_receive_char c h = (l, h')"
  shows "\<exists>lb p. h' = h\<lparr>linebuffer := lb, linebuffer_ptr := p\<rparr> \<and> length lb = MAX_LINESIZE + 1 \<and> p \<le> MAX_LINESIZE"
proof -
  define lb where "lb = (if linebuffer_ptr h < MAX_LINESIZE then (linebuffer h)[linebuffer_ptr h := c] else linebuffer h)"
  define p where "p = (if linebuffer_ptr h < MAX_LINESIZE then linebuffer_ptr h + 1 else linebuffer_ptr h)"
  let ?h = "h\<lparr>linebuffer := lb, linebuffer_ptr := p\<rparr>"
  have 1: "(if linebuffer_ptr h < MAX_LINESIZE
      then h\<lparr>linebuffer := (linebuffer h)[linebuffer_ptr h := c], linebuffer_ptr := linebuffer_ptr h + 1\<rparr> else h) = ?h"
    by (simp add: lb_def p_def)
  have b: "length lb = MAX_LINESIZE + 1" "p \<le> MAX_LINESIZE" using assms(1,2) by (simp_all add: lb_def p_def)
  consider "c = 13" "h' = h" | "h' = ?h" | "h' = ?h\<lparr>linebuffer := lb[p := 0], linebuffer_ptr := 0\<rparr>"
    using assms(3) unfolding httpd_receive_char_def Let_def 1 by (auto split: if_splits)
  then show ?thesis
  proof cases
    case 1
    then have "h' = h\<lparr>linebuffer := linebuffer h, linebuffer_ptr := linebuffer_ptr h\<rparr>" by simp
    with assms(1,2) show ?thesis by blast
  next
    case 2
    with b show ?thesis by blast
  next
    case 3
    then have "h' = h\<lparr>linebuffer := lb[p := 0], linebuffer_ptr := 0\<rparr>" by simp
    with b show ?thesis by (metis length_list_update zero_le)
  qed
qed

lemma line_fields:
  assumes "http_ok h" and "length lb = MAX_LINESIZE + 1" and "p \<le> MAX_LINESIZE"
  shows "http_ok (h\<lparr>linebuffer := lb, linebuffer_ptr := p\<rparr>)"
proof -
  have "priv_ok (h\<lparr>linebuffer := lb, linebuffer_ptr := p\<rparr>)"
    using assms(1) by (subst priv_ok_cong [of _ h]) (simp_all add: http_ok_def)
  then show ?thesis using assms by (simp add: http_ok_def)
qed

lemma receive_request_ok:
  assumes "env_ok env" and ok: "http_ok h" and st: "state_client h = HTTPD_CLIENT_REQUEST"
  shows "http_ok (httpd_receive_request env c h) \<and> state_server (httpd_receive_request env c h) = state_server h
    \<and> (state_client (httpd_receive_request env c h) = HTTPD_CLIENT_REQUEST \<or> state_client (httpd_receive_request env c h) = HTTPD_CLIENT_HEADER)"
proof -
  obtain l h1 where r: "httpd_receive_char c h = (l, h1)" by force
  obtain lb p where h1: "h1 = h\<lparr>linebuffer := lb, linebuffer_ptr := p\<rparr>" "length lb = MAX_LINESIZE + 1" "p \<le> MAX_LINESIZE"
    using receive_char_ok [OF _ _ r] ok by (auto simp: http_ok_def)
  have ok1: "http_ok h1" using line_fields [OF ok h1(2,3)] h1(1) by simp
  have st1: "state_client h1 = HTTPD_CLIENT_REQUEST" "state_server h1 = state_server h" using h1(1) st by simp_all
  show ?thesis
  proof (cases l)
    case None
    then show ?thesis using r ok1 st1 by (simp add: httpd_receive_request_def)
  next
    case (Some line)
    obtain meth path bad where pr: "parse_request line = (meth, path, bad)" by (cases "parse_request line")
    define h2 where "h2 = (if bad then h1\<lparr>code := 400\<rparr> else h1)"
    have h2: "h2 = h1 \<or> h2 = h1\<lparr>code := 400\<rparr>"
        "httpd_receive_request env c h = (httpd_find_handler env meth path h2)\<lparr>state_client := HTTPD_CLIENT_HEADER\<rparr>"
      using r Some pr by (simp_all add: httpd_receive_request_def h2_def)
    obtain q k row where f: "httpd_find_handler env meth path h2 = h2\<lparr>response_priv := q, code := k, handler := Some row\<rparr>"
        "priv_ok (httpd_find_handler env meth path h2)"
      using find_handler_ok [OF assms(1) refl] by blast
    have p: "priv_ok (httpd_receive_request env c h)" unfolding h2(2) using f(2) by (subst priv_ok_cong) simp_all
    show ?thesis
      using ok1 st1 h2(1) p unfolding h2(2) f(1) by (auto simp: http_ok_def client_states server_states)
  qed
qed

lemma receive_header_ok:
  assumes ok: "http_ok h" and st: "state_client h = HTTPD_CLIENT_HEADER"
  shows "http_ok (httpd_receive_header c h)"
proof -
  obtain l h1 where r: "httpd_receive_char c h = (l, h1)" by force
  obtain lb p where h1: "h1 = h\<lparr>linebuffer := lb, linebuffer_ptr := p\<rparr>" "length lb = MAX_LINESIZE + 1" "p \<le> MAX_LINESIZE"
    using receive_char_ok [OF _ _ r] ok by (auto simp: http_ok_def)
  have ok1: "http_ok h1" using line_fields [OF ok h1(2,3)] h1(1) by simp
  have st1: "state_client h1 = HTTPD_CLIENT_HEADER" using h1(1) st by simp
  have "priv_ok (httpd_start_response h1)" using ok1 by (subst priv_ok_cong [of _ h1]) (simp_all add: http_ok_def httpd_start_response_def)
  then have "http_ok (httpd_start_response h1)"
    using ok1 st1 by (auto simp: http_ok_def httpd_start_response_def client_states server_states)
  then show ?thesis using r ok1 by (cases l) (auto simp: httpd_receive_header_def)
qed

lemma receive_loop_ok:
  assumes "env_ok env" and "http_ok h"
  shows "(\<forall>h'. httpd_receive_loop env cs h = Some h' \<longrightarrow> http_ok h')
    \<and> (state_client h \<noteq> HTTPD_CLIENT_DATA \<or> handler h \<noteq> None \<longrightarrow> (\<exists>h'. httpd_receive_loop env cs h = Some h'))"
  using assms(2)
proof (induction cs arbitrary: h)
  case (Cons c cs)
  have "state_client h = 0 \<or> state_client h = 1 \<or> state_client h = 2" using Cons.prems by (auto simp: http_ok_def client_states)
  then consider (req) "state_client h = HTTPD_CLIENT_REQUEST" | (hdr) "state_client h = HTTPD_CLIENT_HEADER" | (data) "state_client h = HTTPD_CLIENT_DATA"
    by (auto simp: client_states)
  then show ?case
  proof cases
    case req
    have "http_ok (httpd_receive_request env c h)" "state_client (httpd_receive_request env c h) \<noteq> HTTPD_CLIENT_DATA"
      using receive_request_ok [OF assms(1) Cons.prems req, of c] by (auto simp: client_states)
    then show ?thesis using Cons.IH [of "httpd_receive_request env c h"] req by simp
  next
    case hdr
    have ok: "http_ok (httpd_receive_header c h)" by (rule receive_header_ok [OF Cons.prems hdr])
    have "handler h \<noteq> None" using Cons.prems hdr by (auto simp: http_ok_def client_states server_states)
    moreover have "handler (httpd_receive_header c h) = handler h"
      by (simp add: httpd_receive_header_def httpd_receive_char_def httpd_start_response_def Let_def split: option.splits prod.splits if_splits)
    ultimately show ?thesis using Cons.IH [OF ok] hdr by (simp add: client_states)
  next
    case data
    then show ?thesis using Cons.prems by (simp add: client_states split: option.splits)
  qed
qed simp

section \<open>What a connection sends\<close>

text \<open>The steps of an open connection: its callbacks.\<close>

inductive conn_step :: "http_env \<Rightarrow> conn \<Rightarrow> conn \<Rightarrow> bool" for env where
  recv: "\<not> c_closed c \<Longrightarrow> \<not> c_aborted c \<Longrightarrow> http_recv env t p c = Some c' \<Longrightarrow> conn_step env c c'"
| sent: "\<not> c_closed c \<Longrightarrow> \<not> c_aborted c \<Longrightarrow> http_sent env t c = Some c' \<Longrightarrow> conn_step env c c'"
| poll: "\<not> c_closed c \<Longrightarrow> \<not> c_aborted c \<Longrightarrow> http_poll env t c = Some c' \<Longrightarrow> conn_step env c c'"
| err: "conn_step env c (conn_err c)"

inductive_cases conn_stepE: "conn_step env c c'"

text \<open>Everything sent, waiting and still to come makes up the response.\<close>

definition conn_ok :: "http_env \<Rightarrow> u8 list \<Rightarrow> conn \<Rightarrow> bool" where
  "conn_ok env R c \<longleftrightarrow> prefix (c_sent c) R \<and> (c_closed c \<longrightarrow> c_frees c \<le> 1)
     \<and> (\<forall>h. c_http c = Some h \<longrightarrow> http_ok h \<and> state_client h = HTTPD_CLIENT_DATA \<and> c_sent c @ pending h @ remaining env h = R)"

lemma retries_ok [simp]: "http_ok (h\<lparr>retries := n\<rparr>) = http_ok h" "remaining env (h\<lparr>retries := n\<rparr>) = remaining env h"
proof -
  have "priv_ok (h\<lparr>retries := n\<rparr>) = priv_ok h" by (rule priv_ok_cong) simp_all
  then show "http_ok (h\<lparr>retries := n\<rparr>) = http_ok h" by (simp add: http_ok_def)
  show "remaining env (h\<lparr>retries := n\<rparr>) = remaining env h"
    by (rule remaining_cong) simp_all
qed

lemma send_pending_frame:
  assumes "send_pending t h = (data, h')"
  shows "\<exists>r. h' = h\<lparr>sendbuffer_read := r\<rparr>"
  using assms by (auto simp: send_pending_def Let_def split: if_splits)

lemma send_pending_step:
  assumes "http_ok h" and "send_pending t h = (data, h')"
  shows "http_ok h' \<and> state_client h' = state_client h \<and> pending h @ remaining env h = data @ pending h' @ remaining env h'"
proof -
  obtain r where r: "h' = h\<lparr>sendbuffer_read := r\<rparr>" using send_pending_frame [OF assms(2)] by blast
  have b: "buf_ok h'" "pending h = data @ pending h'" using send_pending_ok [OF _ assms(2)] assms(1) by (simp_all add: http_ok_def)
  have "priv_ok h'" using assms(1) by (subst priv_ok_cong [of _ h]) (simp_all add: r http_ok_def)
  then have "http_ok h'" using assms(1) b(1) by (simp add: http_ok_def r)
  moreover have "remaining env h' = remaining env h"
    by (rule remaining_cong) (simp_all add: r)
  ultimately show ?thesis using b by (simp add: r)
qed

lemma send_data_conn:
  assumes "http_ok h" and "state_client h = HTTPD_CLIENT_DATA" and "c_sent c @ pending h @ remaining env h = R"
    and "\<not> c_closed c" and "send_data env t h c = Some c'"
  shows "conn_ok env R c' \<and> \<not> c_closed c'"
proof -
  obtain h1 where h1: "httpd_handle_server env h = Some h1" "step_ok env h h1" using handle_server_ok [OF assms(1), of env] by blast
  obtain data h2 where h2: "send_pending t h1 = (data, h2)" by force
  have c': "c' = c\<lparr>c_http := Some h2, c_sent := c_sent c @ data\<rparr>" using assms(5) h1(1) h2 by (simp add: send_data_def)
  have p: "http_ok h2" "state_client h2 = state_client h1" "pending h1 @ remaining env h1 = data @ pending h2 @ remaining env h2"
    using send_pending_step [OF _ h2, of env] h1(2) by (auto simp: step_ok_def)
  have R: "R = c_sent c @ data @ pending h2 @ remaining env h2" using assms(3) h1(2) p(3) by (simp add: step_ok_def)
  then have "prefix (c_sent c @ data) R" by (metis append_assoc prefix_def)
  moreover have "state_client h2 = HTTPD_CLIENT_DATA" using p(2) h1(2) assms(2) by (simp add: step_ok_def)
  ultimately show ?thesis using p(1) R [symmetric] assms(4) by (simp add: conn_ok_def c')
qed

lemma receive_chain_data:
  assumes "http_ok h" and "state_client h = HTTPD_CLIENT_DATA" and "receive_chain env qs h = Some h'"
  shows "step_ok env h h'"
  using assms
proof (induction qs arbitrary: h)
  case Nil
  then show ?case by (simp add: step_ok_refl)
next
  case (Cons q qs)
  then obtain h1 where h1: "httpd_receive env q h = Some h1" "receive_chain env qs h1 = Some h'" by (auto split: option.splits)
  have "httpd_receive_loop env q h = Some h \<or> httpd_receive_loop env q h = None"
    using Cons.prems(2) by (cases q) (auto simp: client_states split: option.splits)
  then have "httpd_handle_server env h = Some h1" using h1(1) by (auto simp: httpd_receive_def)
  then have s: "step_ok env h h1" using handle_server_ok [OF Cons.prems(1), of env] by auto
  then have "step_ok env h1 h'" using Cons.IH [OF _ _ h1(2)] Cons.prems(2) by (simp add: step_ok_def)
  with s show ?case by (rule step_ok_trans)
qed

lemma close_conn_ok:
  assumes "http_ok h" and "prefix (c_sent c) R"
  shows "conn_ok env R (close_conn h c)"
proof -
  have "frees h \<le> 1 \<and> (handler h \<noteq> None \<longrightarrow> frees h = 0)" using assms(1) by (auto simp: http_ok_def)
  then show ?thesis using assms(2) by (auto simp: conn_ok_def close_conn_def finish_def)
qed

lemma conn_step_ok:
  assumes "conn_step env c c'" and ok: "conn_ok env R c"
  shows "conn_ok env R c'"
  using assms(1)
proof (cases rule: conn_step.cases)
  case (recv t p)
  then obtain h where h: "c_http c = Some h" by (auto simp: http_recv_def split: option.splits)
  have hok: "http_ok h" "state_client h = HTTPD_CLIENT_DATA" "c_sent c @ pending h @ remaining env h = R" "prefix (c_sent c) R"
    using ok h by (simp_all add: conn_ok_def)
  show ?thesis
  proof (cases p)
    case None
    then show ?thesis using recv h close_conn_ok [OF hok(1,4)] by (simp add: http_recv_def)
  next
    case (Some qs)
    then obtain h1 where h1: "receive_chain env qs h = Some h1" "send_data env t h1 c = Some c'"
      using recv h by (auto simp: http_recv_def split: option.splits)
    have s: "step_ok env h h1" by (rule receive_chain_data [OF hok(1,2) h1(1)])
    then have "http_ok h1" "state_client h1 = HTTPD_CLIENT_DATA" "c_sent c @ pending h1 @ remaining env h1 = R"
      using hok by (simp_all add: step_ok_def)
    then show ?thesis using send_data_conn [OF _ _ _ _ h1(2)] recv by blast
  qed
next
  case (sent t)
  then obtain h where h: "c_http c = Some h" by (auto simp: http_sent_def split: option.splits)
  have hok: "http_ok (h\<lparr>retries := 0\<rparr>)" "state_client (h\<lparr>retries := 0\<rparr>) = HTTPD_CLIENT_DATA"
      "c_sent c @ pending (h\<lparr>retries := 0\<rparr>) @ remaining env (h\<lparr>retries := 0\<rparr>) = R" "prefix (c_sent c) R"
    using ok h by (simp_all add: conn_ok_def)
  show ?thesis
    using sent h close_conn_ok [OF hok(1,4)] send_data_conn [OF hok(1-3)] by (auto simp: http_sent_def Let_def split: if_splits)
next
  case (poll t)
  show ?thesis
  proof (cases "c_http c")
    case None
    then show ?thesis using poll ok by (auto simp: http_poll_def conn_ok_def)
  next
    case (Some h)
    let ?h = "h\<lparr>retries := retries h + 1\<rparr>"
    have hok: "http_ok ?h" "state_client ?h = HTTPD_CLIENT_DATA" "c_sent c @ pending ?h @ remaining env ?h = R" "prefix (c_sent c) R"
      using ok Some by (simp_all add: conn_ok_def)
    show ?thesis
      using poll Some ok hok send_data_conn [OF hok(1-3)] by (auto simp: http_poll_def Let_def conn_ok_def split: if_splits)
  qed
next
  case err
  then show ?thesis using ok by (simp add: conn_ok_def conn_err_def)
qed

lemma conn_steps_ok: "(conn_step env)\<^sup>*\<^sup>* c c' \<Longrightarrow> conn_ok env R c \<Longrightarrow> conn_ok env R c'"
  by (induction rule: rtranclp_induct) (auto intro: conn_step_ok)

end
