(* ===== verification/Xell_Httpd_Pages.thy ===== *)
theory Xell_Httpd_Pages
  imports Xell_Httpd_Stream
begin
unbundle bit_operations_syntax

section \<open>From the request to the response\<close>

text \<open>
  What the web server answers: lines of a request, the page it asks for and the whole stream of bytes of its connection.
\<close>

text \<open>A line without control characters is collected in the line buffer.\<close>

definition plain :: "u8 list \<Rightarrow> bool" where
  "plain xs \<longleftrightarrow> 10 \<notin> set xs \<and> 13 \<notin> set xs \<and> 0 \<notin> set xs"

lemma receive_char_plain:
  assumes "c \<noteq> 10" "c \<noteq> 13" and "linebuffer_ptr h < MAX_LINESIZE"
  shows "httpd_receive_char c h = (None, h\<lparr>linebuffer := (linebuffer h)[linebuffer_ptr h := c], linebuffer_ptr := linebuffer_ptr h + 1\<rparr>)"
  using assms by (simp add: httpd_receive_char_def Let_def)

lemma put_at_Cons:
  assumes "i < length xs"
  shows "put_at (i + 1) cs (xs[i := c]) = put_at i (c # cs) xs"
  using assms by (simp add: put_at_def take_Suc_conv_app_nth upd_conv_take_nth_drop add.commute)

lemma put_at_Nil [simp]: "put_at i [] xs = xs"
  by (simp add: put_at_def)

lemma receive_plain:
  assumes "plain xs" and "linebuffer_ptr h + length xs \<le> MAX_LINESIZE" and "length (linebuffer h) = MAX_LINESIZE + 1"
    and "state_client h = HTTPD_CLIENT_REQUEST \<or> state_client h = HTTPD_CLIENT_HEADER"
  shows "httpd_receive_loop env (xs @ ys) h
    = httpd_receive_loop env ys (h\<lparr>linebuffer := put_at (linebuffer_ptr h) xs (linebuffer h), linebuffer_ptr := linebuffer_ptr h + length xs\<rparr>)"
  using assms
proof (induction xs arbitrary: h)
  case (Cons c xs)
  let ?h = "h\<lparr>linebuffer := (linebuffer h)[linebuffer_ptr h := c], linebuffer_ptr := linebuffer_ptr h + 1\<rparr>"
  have "httpd_receive_char c h = (None, ?h)" using Cons.prems by (intro receive_char_plain) (auto simp: plain_def)
  then have "httpd_receive_loop env ((c # xs) @ ys) h = httpd_receive_loop env (xs @ ys) ?h"
    using Cons.prems(4) by (auto simp: httpd_receive_request_def httpd_receive_header_def client_states)
  then show ?case using Cons.IH [of ?h] Cons.prems put_at_Cons [of "linebuffer_ptr h" "linebuffer h" xs c]
    by (auto simp: plain_def)
qed simp

text \<open>The end of the line: the buffer holds the line with its newline.\<close>

lemma receive_char_eol:
  assumes "plain xs" and "length xs < MAX_LINESIZE" and "length lb = MAX_LINESIZE + 1" and "linebuffer h = put_at 0 xs lb" and "linebuffer_ptr h = length xs"
  shows "\<exists>lb'. httpd_receive_char 10 h = (Some (xs @ [10]), h\<lparr>linebuffer := lb', linebuffer_ptr := 0\<rparr>) \<and> length lb' = MAX_LINESIZE + 1"
proof -
  let ?n = "length xs"
  let ?lb = "((linebuffer h)[?n := 10])[?n + 1 := 0]"
  have "?lb = xs @ [10, 0] @ drop (?n + 2) lb" using assms(2-4)
    by (simp add: put_at_def list_update_append Cons_nth_drop_Suc [symmetric, of _ lb])
  moreover have "0 \<notin> set xs" using assms(1) by (simp add: plain_def)
  ultimately have "takeWhile (\<lambda>x. x \<noteq> 0) ?lb = xs @ [10]" by (auto intro: takeWhile_tail simp: takeWhile_append)
  moreover have "length ?lb = MAX_LINESIZE + 1" using assms(3,4,2) by (simp add: put_at_def)
  ultimately show ?thesis using assms(2,5) by (auto simp: httpd_receive_char_def Let_def)
qed

lemma receive_loop_append:
  "httpd_receive_loop env (xs @ ys) h = (case httpd_receive_loop env xs h of None \<Rightarrow> None | Some h \<Rightarrow> httpd_receive_loop env ys h)"
proof (induction xs arbitrary: h)
  case (Cons c xs)
  have "httpd_receive_loop env ys h = Some h" if "state_client h \<noteq> HTTPD_CLIENT_REQUEST" "state_client h \<noteq> HTTPD_CLIENT_HEADER"
      "state_client h = HTTPD_CLIENT_DATA \<longrightarrow> handler h \<noteq> None"
    using that by (cases ys) auto
  then show ?case using Cons.IH by (auto simp: client_states split: option.splits)
qed simp

lemma handle_server_idle:
  assumes "state_server h = HTTPD_SERVER_IDLE"
  shows "httpd_handle_server env h = Some h"
  using assms by (subst httpd_handle_server.simps) (simp add: server_step_def)

lemma receive_chain_empty:
  assumes "http_ok h" and "state_client h = HTTPD_CLIENT_DATA" and "concat qs = []"
  shows "\<exists>h'. receive_chain env qs h = Some h' \<and> step_ok env h h'"
  using assms
proof (induction qs arbitrary: h)
  case Nil
  then show ?case by (simp add: step_ok_refl)
next
  case (Cons q qs)
  obtain h1 where h1: "httpd_handle_server env h = Some h1" "step_ok env h h1" using handle_server_ok [OF Cons.prems(1), of env] by blast
  then obtain h' where "receive_chain env qs h1 = Some h'" "step_ok env h1 h'"
    using Cons.IH [of h1] Cons.prems by (auto simp: step_ok_def)
  then show ?case using Cons.prems(3) h1 step_ok_trans by (auto simp: httpd_receive_def)
qed

text \<open>It does not matter into which buffers TCP cuts the request.\<close>

lemma receive_chain_cut:
  assumes env: "env_ok env" and "http_ok h" and "concat qs = xs @ [x]"
    and "httpd_receive_loop env xs h = Some h0" "state_client h0 \<noteq> HTTPD_CLIENT_DATA"
    and "httpd_receive_loop env (xs @ [x]) h = Some h1" "state_client h1 = HTTPD_CLIENT_DATA"
  shows "\<exists>h2. receive_chain env qs h = Some h2 \<and> step_ok env h1 h2"
  using assms(2-)
proof (induction qs arbitrary: h xs)
  case (Cons q qs)
  show ?case
  proof (cases "concat qs = []")
    case True
    then have q: "q = xs @ [x]" using Cons.prems(2) by (metis append_Nil2 concat.simps(2))
    have ok1: "http_ok h1" using receive_loop_ok [OF env Cons.prems(1), of q] Cons.prems(5) q by simp
    obtain h2 where h2: "httpd_handle_server env h1 = Some h2" "step_ok env h1 h2" using handle_server_ok [OF ok1, of env] by blast
    then obtain h3 where "receive_chain env qs h2 = Some h3" "step_ok env h2 h3"
      using receive_chain_empty [OF _ _ True, of h2 env] Cons.prems(6) by (auto simp: step_ok_def)
    then show ?thesis using Cons.prems(5) q h2 step_ok_trans by (auto simp: httpd_receive_def)
  next
    case False
    then obtain r where r: "concat qs = r @ [x]" "xs = q @ r"
      using Cons.prems(2) by (metis append.assoc append_butlast_last_id butlast_append concat.simps(2) last_append last_snoc butlast_snoc)
    obtain hq where hq: "httpd_receive_loop env q h = Some hq" "httpd_receive_loop env r hq = Some h0"
      using Cons.prems(3) r(2) by (auto simp: receive_loop_append split: option.splits)
    have "httpd_receive_loop env (r @ [x]) hq = Some h1" using Cons.prems(5) hq r(2) by (simp add: receive_loop_append)
    moreover have ok: "http_ok hq" using receive_loop_ok [OF env Cons.prems(1), of q] hq(1) by simp
    moreover have nd: "state_client hq \<noteq> HTTPD_CLIENT_DATA"
    proof
      assume d: "state_client hq = HTTPD_CLIENT_DATA"
      then have "httpd_receive_loop env r hq = Some hq \<or> httpd_receive_loop env r hq = None"
        by (cases r) (auto simp: client_states split: option.splits)
      then show False using hq(2) d Cons.prems(4) by auto
    qed
    ultimately obtain h2 where "receive_chain env qs hq = Some h2" "step_ok env h1 h2"
      using Cons.IH [of hq r] r(1) hq(2) Cons.prems(4,6) by auto
    moreover have "httpd_handle_server env hq = Some hq" using ok nd by (intro handle_server_idle) (simp add: http_ok_def)
    ultimately show ?thesis using hq(1) by (simp add: httpd_receive_def)
  qed
qed simp

section \<open>Pages\<close>

lemma receive_line:
  assumes "plain xs" and "length xs < MAX_LINESIZE" and "length (linebuffer h) = MAX_LINESIZE + 1" and "linebuffer_ptr h = 0"
    and "state_client h = HTTPD_CLIENT_REQUEST \<or> state_client h = HTTPD_CLIENT_HEADER"
  shows "\<exists>h1 lb. httpd_receive_loop env (xs @ [13]) h = Some h1 \<and> h1\<lparr>linebuffer := lb, linebuffer_ptr := 0\<rparr> = h\<lparr>linebuffer := lb, linebuffer_ptr := 0\<rparr>
    \<and> httpd_receive_char 10 h1 = (Some (xs @ [10]), h\<lparr>linebuffer := lb, linebuffer_ptr := 0\<rparr>) \<and> length lb = MAX_LINESIZE + 1
    \<and> state_client h1 = state_client h"
proof -
  let ?h = "h\<lparr>linebuffer := put_at 0 xs (linebuffer h), linebuffer_ptr := length xs\<rparr>"
  have "httpd_receive_loop env (xs @ [13]) h = httpd_receive_loop env [13] ?h"
    using receive_plain [of xs h env "[13]"] assms by simp
  also have "\<dots> = Some ?h"
    using assms(5) by (auto simp: httpd_receive_request_def httpd_receive_header_def httpd_receive_char_def client_states)
  finally have l: "httpd_receive_loop env (xs @ [13]) h = Some ?h" .
  obtain lb where lb: "httpd_receive_char 10 ?h = (Some (xs @ [10]), ?h\<lparr>linebuffer := lb, linebuffer_ptr := 0\<rparr>)" "length lb = MAX_LINESIZE + 1"
    using receive_char_eol [OF assms(1,2,3), of ?h] by auto
  show ?thesis by (intro exI [of _ ?h] exI [of _ lb]) (use l lb in simp)
qed

text \<open>Header lines are skipped.\<close>

lemma receive_headers:
  assumes "\<forall>l \<in> set ls. plain l \<and> l \<noteq> [] \<and> length l < MAX_LINESIZE" and "length (linebuffer h) = MAX_LINESIZE + 1"
    and "linebuffer_ptr h = 0" and "state_client h = HTTPD_CLIENT_HEADER"
  shows "\<exists>lb. httpd_receive_loop env (concat (map (\<lambda>l. l @ crlf) ls)) h = Some (h\<lparr>linebuffer := lb, linebuffer_ptr := 0\<rparr>) \<and> length lb = MAX_LINESIZE + 1"
  using assms
proof (induction ls arbitrary: h)
  case Nil
  have "h = h\<lparr>linebuffer := linebuffer h, linebuffer_ptr := 0\<rparr>" using Nil.prems by simp
  moreover have "httpd_receive_loop env (concat (map (\<lambda>l. l @ crlf) [])) h = Some h" by simp
  ultimately show ?case using Nil.prems(2) by metis
next
  case (Cons l ls)
  then obtain h1 lb where h1: "httpd_receive_loop env (l @ [13]) h = Some h1"
      "httpd_receive_char 10 h1 = (Some (l @ [10]), h\<lparr>linebuffer := lb, linebuffer_ptr := 0\<rparr>)" "length lb = MAX_LINESIZE + 1"
      "state_client h1 = HTTPD_CLIENT_HEADER"
    using receive_line [of l h env] by auto
  let ?h = "h\<lparr>linebuffer := lb, linebuffer_ptr := 0\<rparr>"
  have "peek (l @ [10]) \<noteq> 10" using Cons.prems(1) by (cases l) (auto simp: plain_def)
  then have "httpd_receive_loop env (l @ crlf) h = Some ?h"
    using h1 receive_loop_append [of env "l @ [13]" "[10]" h]
    by (simp add: crlf_def httpd_receive_header_def client_states)
  then have "httpd_receive_loop env (concat (map (\<lambda>l. l @ crlf) (l # ls))) h = httpd_receive_loop env (concat (map (\<lambda>l. l @ crlf) ls)) ?h"
    using receive_loop_append [of env "l @ crlf" "concat (map (\<lambda>l. l @ crlf) ls)" h] by simp
  then show ?case using Cons.IH [of ?h] Cons.prems h1(3) by auto
qed

definition get_request :: "u8 list \<Rightarrow> u8 list \<Rightarrow> u8 list list \<Rightarrow> u8 list" where
  "get_request url version ls = (bytes ''GET '' @ url @ bytes '' HTTP/1.'' @ version @ crlf) @ concat (map (\<lambda>l. l @ crlf) ls) @ crlf"

definition page_response :: "vfs_entry \<Rightarrow> u8 list" where
  "page_response f = bytes ''HTTP/1.0 200 OK'' @ crlf @ header_text (bytes ''Content-Type'') (vfs_mime_type f)
     @ (if vfs_dynamic f then [] else header_text (bytes ''Content-Length'') (sprintf_d (length (vfs_data f))))
     @ bytes ''Server: yahd v1.0'' @ crlf @ crlf @ (if vfs_dynamic f then dhtml_text (vfs_data f) else vfs_data f)"

definition page_url :: "u8 list \<Rightarrow> u8 list" where
  "page_url url = (if url = bytes ''/'' then bytes ''/index.dhtml'' else url)"

lemma parse_get:
  assumes "32 \<notin> set url" and "url \<noteq> []"
  shows "parse_request ((bytes ''GET '' @ url @ bytes '' HTTP/1.'' @ version) @ [10]) = (bytes ''GET'', url, False)"
proof -
  have "cut_space (bytes ''GET '' @ r) = (bytes ''GET'', r)" for r by (simp add: cut_space_def bytes_def)
  moreover have "cut_space (url @ bytes '' HTTP/1.'' @ r) = (url, bytes ''HTTP/1.'' @ r)" for r
  proof -
    have "takeWhile (\<lambda>c. c \<noteq> 32) (url @ 32 # s) = url" "dropWhile (\<lambda>c. c \<noteq> 32) (url @ 32 # s) = 32 # s" for s
      using assms(1) by (induction url) auto
    then show ?thesis by (simp add: cut_space_def bytes_def)
  qed
  ultimately show ?thesis using assms(2) by (simp add: parse_request_def bytes_def)
qed

text \<open>The state of a connection that has just been accepted.\<close>

definition fresh :: "http \<Rightarrow> bool" where
  "fresh h \<longleftrightarrow> http_ok h \<and> state_client h = HTTPD_CLIENT_REQUEST \<and> linebuffer_ptr h = 0 \<and> std_header_state h = 0 \<and> code_descr h = None
     \<and> pending h = []"

lemma fresh_accept:
  assumes "length (linebuffer h) = MAX_LINESIZE + 1" and "length (sendbuffer h) = SENDBUFFER_LEN"
  shows "fresh (httpd_init (h\<lparr>retries := 0, frees := 0\<rparr>))"
  using assms by (simp add: fresh_def httpd_init_def http_ok_def buf_ok_def priv_ok_def pending_def client_states server_states SENDBUFFER_LEN_def)

lemma get_page:
  assumes h: "fresh h" and f: "search_file (vfs_entries env) (page_url url) = Some f" and m: "malloc_ok env H_vfs"
    and url: "32 \<notin> set url" "url \<noteq> []" "url \<noteq> bytes ''/MEM''" "url \<noteq> bytes ''/FUSE''"
    and line: "plain (bytes ''GET '' @ url @ bytes '' HTTP/1.'' @ version)" "length (bytes ''GET '' @ url @ bytes '' HTTP/1.'' @ version) < MAX_LINESIZE"
    and ls: "\<forall>l \<in> set ls. plain l \<and> l \<noteq> [] \<and> length l < MAX_LINESIZE"
  shows "\<exists>h0 h1. httpd_receive_loop env (butlast (get_request url version ls)) h = Some h0 \<and> state_client h0 = HTTPD_CLIENT_HEADER
    \<and> httpd_receive_loop env (get_request url version ls) h = Some h1 \<and> state_client h1 = HTTPD_CLIENT_DATA
    \<and> pending h1 @ remaining env h1 = page_response f"
proof -
  let ?line = "bytes ''GET '' @ url @ bytes '' HTTP/1.'' @ version"
  have hp: "length (linebuffer h) = MAX_LINESIZE + 1" "linebuffer_ptr h = 0" "state_client h = HTTPD_CLIENT_REQUEST" "state_server h = HTTPD_SERVER_IDLE"
    using h by (auto simp: fresh_def http_ok_def client_states)
  obtain g lb where g: "httpd_receive_loop env (?line @ [13]) h = Some g" "httpd_receive_char 10 g = (Some (?line @ [10]), h\<lparr>linebuffer := lb, linebuffer_ptr := 0\<rparr>)"
      "length lb = MAX_LINESIZE + 1" "state_client g = HTTPD_CLIENT_REQUEST"
    using receive_line [OF line hp(1,2), of env] hp(3) by auto
  let ?h1 = "h\<lparr>linebuffer := lb, linebuffer_ptr := 0\<rparr>"
  define h2 where "h2 = ?h1\<lparr>response_priv := Some (Vfs f 0 0), code := 200, handler := Some H_vfs, state_client := HTTPD_CLIENT_HEADER\<rparr>"
  have "httpd_find_handler env (bytes ''GET'') url ?h1 = ?h1\<lparr>response_priv := Some (Vfs f 0 0), code := 200, handler := Some H_vfs\<rparr>"
    using f m url(3,4) unfolding page_url_def
    by (simp add: httpd_find_handler_def http_handler_def process_request_def response_mem_process_request_def
        response_fuses_process_request_def response_vfs_process_request_def Let_def)
  then have "httpd_receive_request env 10 g = h2" using g(2) parse_get [OF url(1,2), of version] by (simp add: httpd_receive_request_def h2_def)
  then have r1: "httpd_receive_loop env (?line @ crlf) h = Some h2"
    using receive_loop_append [of env "?line @ [13]" "[10]" h] g by (simp add: crlf_def client_states)
  obtain lb2 where r2: "httpd_receive_loop env (concat (map (\<lambda>l. l @ crlf) ls)) h2 = Some (h2\<lparr>linebuffer := lb2, linebuffer_ptr := 0\<rparr>)"
      "length lb2 = MAX_LINESIZE + 1"
    using receive_headers [OF ls, of h2 env] g(3) by (auto simp: h2_def)
  let ?h3 = "h2\<lparr>linebuffer := lb2, linebuffer_ptr := 0\<rparr>"
  obtain g2 lb3 where g2: "httpd_receive_loop env ([] @ [13]) ?h3 = Some g2" "httpd_receive_char 10 g2 = (Some ([] @ [10]), ?h3\<lparr>linebuffer := lb3, linebuffer_ptr := 0\<rparr>)"
      "state_client g2 = HTTPD_CLIENT_HEADER"
    using receive_line [of "[]" ?h3 env] r2(2) by (auto simp: plain_def h2_def MAX_LINESIZE_def)
  let ?h4 = "httpd_start_response (?h3\<lparr>linebuffer := lb3, linebuffer_ptr := 0\<rparr>)"
  have r3: "httpd_receive_loop env [10] g2 = Some ?h4" using g2(2,3) by (simp add: httpd_receive_header_def client_states)
  have pre: "butlast (get_request url version ls) = (?line @ crlf) @ concat (map (\<lambda>l. l @ crlf) ls) @ [13]"
    by (simp add: get_request_def crlf_def butlast_append)
  have p0: "httpd_receive_loop env (butlast (get_request url version ls)) h = Some g2"
    unfolding pre receive_loop_append [of env "?line @ crlf"] using r1 r2(1) g2(1) by (simp add: receive_loop_append)
  have "get_request url version ls = butlast (get_request url version ls) @ [10]"
    by (simp add: get_request_def crlf_def butlast_append)
  then have p1: "httpd_receive_loop env (get_request url version ls) h = Some ?h4"
    using p0 r3 receive_loop_append [of env "butlast (get_request url version ls)" "[10]" h] by simp
  have "pending ?h4 @ remaining env ?h4 = page_response f"
    using h by (simp add: httpd_start_response_def h2_def fresh_def remaining_def status_text_def header_rest_def body_rest_def page_response_def
        httpd_get_descr_def status_line_def std_rest_def bytes_def)
  moreover have "state_client ?h4 = HTTPD_CLIENT_DATA" by (simp add: httpd_start_response_def)
  ultimately show ?thesis using p0 p1 g2(3) by blast
qed

lemma http_sent_closes:
  assumes "conn_ok env R c" and "\<not> c_closed c" and "http_sent env t c = Some c'" and "c_closed c'"
  shows "c_sent c' = R"
proof -
  obtain h where h: "c_http c = Some h" using assms(3) by (auto simp: http_sent_def split: option.splits)
  let ?h = "h\<lparr>retries := 0\<rparr>"
  have hok: "http_ok ?h" "state_client ?h = HTTPD_CLIENT_DATA" "c_sent c @ pending ?h @ remaining env ?h = R" "prefix (c_sent c) R"
    using assms(1) h by (simp_all add: conn_ok_def)
  show ?thesis
  proof (cases "sendbuffer_read h = sendbuffer_write h \<and> state_server h = HTTPD_SERVER_CLOSE")
    case True
    then have "c' = close_conn ?h c" using assms(3) h by (simp add: http_sent_def Let_def)
    moreover have "pending h = []" "remaining env h = []" using True by (simp_all add: pending_def remaining_def server_states)
    ultimately show ?thesis using hok(3) by (simp add: close_conn_def Let_def)
  next
    case False
    then have "send_data env t ?h c = Some c'" using assms(3) h by (simp add: http_sent_def Let_def split: if_splits)
    then show ?thesis using send_data_conn [OF hok(1-3) assms(2)] assms(4) by blast
  qed
qed


text \<open>A server with one page, for the examples.\<close>

definition demo_page :: vfs_entry where
  "demo_page = \<lparr>vfs_filename = bytes ''/index.dhtml'', vfs_data = bytes ''100%% XeLL'', vfs_mime_type = bytes ''text/html'', vfs_flags = 1\<rparr>"

definition demo_server :: http_env where
  "demo_server = \<lparr>vfs_entries = [demo_page], FUSES = [], env_mem = (\<lambda>_. 0), malloc_ok = (\<lambda>_. True)\<rparr>"

definition demo_http :: http where
  "demo_http = \<lparr>state_server = 0, state_client = 0, code = 0, code_descr = None, linebuffer = replicate 257 0, linebuffer_ptr = 0,
     sendbuffer = replicate 4096 0, sendbuffer_read = 0, sendbuffer_write = 0, std_header_state = 0, retries = 0, handler = None,
     response_priv = None, frees = 0\<rparr>"

lemma demo_env_ok: "env_ok demo_server"
  by (simp add: env_ok_def demo_server_def demo_page_def dhtml_ok_def bytes_def)

lemma demo_fresh: "fresh (httpd_init demo_http)"
proof -
  have "httpd_init demo_http = httpd_init (demo_http\<lparr>retries := 0, frees := 0\<rparr>)" by (simp add: demo_http_def)
  then show ?thesis using fresh_accept [of demo_http] by (simp add: demo_http_def MAX_LINESIZE_def SENDBUFFER_LEN_def)
qed




text \<open>C23: the server loop always ends: from every well-formed state, however full the send buffer is, \<open>httpd_handle_server\<close>
  returns without reading a null pointer; it keeps the state well-formed, and all it does to the stream is to move bytes from
  the rest of the response to the end of the send buffer.\<close>

theorem httpd_server_returns:
  assumes "http_ok h"
  shows "\<exists>h'. httpd_handle_server env h = Some h' \<and> http_ok h' \<and> pending h' @ remaining env h' = pending h @ remaining env h"
  using handle_server_ok [OF assms, of env] by (auto simp: step_ok_def)

theorem httpd_server_returns_witness:
  "\<exists>h'. httpd_handle_server demo_server (httpd_init demo_http) = Some h' \<and> http_ok h'"
proof -
  have "http_ok (httpd_init demo_http)" using demo_fresh by (simp add: fresh_def)
  from httpd_server_returns [OF this, of demo_server] show ?thesis by blast
qed

text \<open>C24: the ring buffer is a queue: putting a block that fits appends it, giving data to TCP takes what TCP
  accepts off the front, and the space announced leaves at least ten bytes free.\<close>

theorem sendbuffer_queue:
  assumes "buf_ok h"
  shows "(length (pending h) + length d < 4096 \<longrightarrow> buf_ok (httpd_put_sendbuffer d h) \<and> pending (httpd_put_sendbuffer d h) = pending h @ d)
    \<and> (\<forall>t data h'. send_pending t h = (data, h') \<longrightarrow> buf_ok h' \<and> pending h = data @ pending h')
    \<and> httpd_available_sendbuffer h = int (4086 - length (pending h))"
  using put_sendbuffer_buf [OF assms, of d] send_pending_ok [OF assms] available_pending [OF assms]
  by (simp add: SENDBUFFER_LEN_def)

theorem sendbuffer_queue_witness: "pending (httpd_put_sendbuffer (bytes ''ab'') (httpd_init demo_http)) = bytes ''ab''"
proof -
  have "buf_ok (httpd_init demo_http)" "pending (httpd_init demo_http) = []" using demo_fresh by (simp_all add: fresh_def http_ok_def)
  with sendbuffer_queue [of "httpd_init demo_http" "bytes ''ab''"] show ?thesis by (simp add: bytes_def)
qed

end
