(* ===== verification/Xell_Cdrom.thy ===== *)
theory Xell_Cdrom
  imports Xell_Time Xell_String Xell_Ctype "HOL-Library.Monad_Syntax" "HOL-Library.Signed_Division"
begin
unbundle bit_operations_syntax

text \<open>
  The DVD drive and the ISO 9660 loader of \<^verbatim>\<open>src/cdrom.c\<close>. The drive is a parameter: a state of any type and what a
  load from and a store to each of its registers does. The state of the code is the byte memory, the drive and the
  number of the next reading of the time base, which \<^verbatim>\<open>delay\<close> takes. Waiting for a drive that stays busy for ever
  is \<^term>\<open>None\<close>. An \<^verbatim>\<open>int\<close> that holds a block number or a size from the disc is a 32-bit word, other \<^verbatim>\<open>int\<close>s are integers.
  File names are read-only strings, and the messages are left out.
\<close>

section \<open>Registers\<close>

record 'd cd_env =
  in8 :: "nat \<Rightarrow> 'd \<Rightarrow> u8 \<times> 'd"
  in32 :: "nat \<Rightarrow> 'd \<Rightarrow> u32 \<times> 'd"
  out8 :: "nat \<Rightarrow> u8 \<Rightarrow> 'd \<Rightarrow> 'd"
  out16 :: "nat \<Rightarrow> u16 \<Rightarrow> 'd \<Rightarrow> 'd"
  out32 :: "nat \<Rightarrow> u32 \<Rightarrow> 'd \<Rightarrow> 'd"
  sector_buffer :: addr
  sense_buf :: addr
  modeb_res :: addr
  cd_clock :: "nat \<Rightarrow> u64"

record 'd cd_state =
  cmem :: mem
  drive :: 'd
  ticks :: nat

definition ATAPI_ERROR :: nat where "ATAPI_ERROR = 1"
definition ATAPI_DATA :: nat where "ATAPI_DATA = 0"
definition ATAPI_DRIVE_SELECT :: nat where "ATAPI_DRIVE_SELECT = 6"
definition ATAPI_BYTE_CNT_L :: nat where "ATAPI_BYTE_CNT_L = 4"
definition ATAPI_BYTE_CNT_H :: nat where "ATAPI_BYTE_CNT_H = 5"
definition ATAPI_FEATURES :: nat where "ATAPI_FEATURES = 1"
definition ATAPI_COMMAND :: nat where "ATAPI_COMMAND = 7"
definition ATAPI_STATUS :: nat where "ATAPI_STATUS = 7"
definition ATAPI_STATUS_DRQ :: u8 where "ATAPI_STATUS_DRQ = 8"
definition ATAPI_STATUS_ERR :: u8 where "ATAPI_STATUS_ERR = 1"

lemmas atapi_regs = ATAPI_ERROR_def ATAPI_DATA_def ATAPI_DRIVE_SELECT_def ATAPI_BYTE_CNT_L_def ATAPI_BYTE_CNT_H_def
  ATAPI_FEATURES_def ATAPI_COMMAND_def ATAPI_STATUS_def ATAPI_STATUS_DRQ_def ATAPI_STATUS_ERR_def

definition ide_out8 :: "'d cd_env \<Rightarrow> nat \<Rightarrow> u8 \<Rightarrow> 'd cd_state \<Rightarrow> 'd cd_state" where
  "ide_out8 E reg d s = s\<lparr>drive := out8 E reg d (drive s)\<rparr>"

definition ide_out16 :: "'d cd_env \<Rightarrow> nat \<Rightarrow> u16 \<Rightarrow> 'd cd_state \<Rightarrow> 'd cd_state" where
  "ide_out16 E reg d s = s\<lparr>drive := out16 E reg d (drive s)\<rparr>"

definition ide_out32 :: "'d cd_env \<Rightarrow> nat \<Rightarrow> u32 \<Rightarrow> 'd cd_state \<Rightarrow> 'd cd_state" where
  "ide_out32 E reg d s = s\<lparr>drive := out32 E reg d (drive s)\<rparr>"

definition ide_in8 :: "'d cd_env \<Rightarrow> nat \<Rightarrow> 'd cd_state \<Rightarrow> u8 \<times> 'd cd_state" where
  "ide_in8 E reg s = (case in8 E reg (drive s) of (v, d) \<Rightarrow> (v, s\<lparr>drive := d\<rparr>))"

definition ide_in32 :: "'d cd_env \<Rightarrow> nat \<Rightarrow> 'd cd_state \<Rightarrow> u32 \<times> 'd cd_state" where
  "ide_in32 E reg s = (case in32 E reg (drive s) of (v, d) \<Rightarrow> (v, s\<lparr>drive := d\<rparr>))"

section \<open>Packet commands\<close>

partial_function (option) ide_waitready :: "'d cd_env \<Rightarrow> 'd cd_state \<Rightarrow> (int \<times> 'd cd_state) option" where
  "ide_waitready E s =
     (let (status, s) = ide_in8 E ATAPI_STATUS s
      in if status AND 0xC0 = 0x40 then Some (0, s)
         else if status = 0xFF then Some (-1, s)
         else ide_waitready E s)"

partial_function (option) data_loop :: "'d cd_env \<Rightarrow> addr \<Rightarrow> int \<Rightarrow> 'd cd_state \<Rightarrow> 'd cd_state option" where
  "data_loop E data data_len s =
     (if data_len = 0 then Some s
      else let (x, s) = ide_in8 E ATAPI_STATUS s
           in if x AND 0x80 \<noteq> 0 then data_loop E data data_len s
              else if x AND 1 \<noteq> 0 then Some (snd (ide_in8 E ATAPI_ERROR s))
              else let (w, s) = ide_in32 E ATAPI_DATA s
                   in data_loop E (data + 4) (data_len - 2) (s\<lparr>cmem := store_list (cmem s) data (be32_bytes w)\<rparr>))"

text \<open>The three words of a packet of twelve bytes.\<close>

definition packet_word :: "u8 list \<Rightarrow> nat \<Rightarrow> u32" where
  "packet_word packet i = be32 (packet ! i) (packet ! (i + 1)) (packet ! (i + 2)) (packet ! (i + 3))"

definition atapi_packet :: "'d cd_env \<Rightarrow> u8 list \<Rightarrow> addr \<Rightarrow> int \<Rightarrow> 'd cd_state \<Rightarrow> (int \<times> 'd cd_state) option" where
  "atapi_packet E packet data data_len s =
     (let s = ide_out8 E ATAPI_DRIVE_SELECT 0xA0 s;
          data_len = data_len sdiv 2;
          s = ide_out8 E ATAPI_BYTE_CNT_L (word_of_int (data_len AND 0xFF)) s;
          s = ide_out8 E ATAPI_BYTE_CNT_H (word_of_int (drop_bit 8 data_len)) s;
          s = ide_out8 E ATAPI_FEATURES 0 s;
          s = ide_out8 E ATAPI_COMMAND 0xA0 s
      in do {
        (err, s) \<leftarrow> ide_waitready E s;
        if err \<noteq> 0 then Some (-2, s)
        else let (st, s) = ide_in8 E ATAPI_STATUS s
             in if st AND ATAPI_STATUS_DRQ \<noteq> 0
                then do {
                  let s = ide_out32 E ATAPI_DATA (packet_word packet 0) s;
                  let s = ide_out32 E ATAPI_DATA (packet_word packet 4) s;
                  let s = ide_out32 E ATAPI_DATA (packet_word packet 8) s;
                  (err, s) \<leftarrow> ide_waitready E s;
                  if err \<noteq> 0 then Some (-5, s)
                  else do {
                    s \<leftarrow> data_loop E data data_len s;
                    let (st, s) = ide_in8 E ATAPI_STATUS s;
                    Some (if st AND ATAPI_STATUS_ERR \<noteq> 0 then (-6, s) else (0, s))
                  }
                }
                else let (st, s) = ide_in8 E ATAPI_STATUS s
                     in if st AND ATAPI_STATUS_ERR \<noteq> 0 then Some (-3, s) else Some (-4, s)
      })"

definition request_sense :: "'d cd_env \<Rightarrow> 'd cd_state \<Rightarrow> (int \<times> 'd cd_state) option" where
  "request_sense E s = do {
     (err, s) \<leftarrow> atapi_packet E [0x03, 0, 0, 0, 24, 0, 0, 0, 0, 0, 0, 0] (sense_buf E) 24 s;
     if err \<noteq> 0 then Some (-1, s)
     else let sense = (\<lambda>i. uint (cmem s (sense_buf E + i)))
          in Some (push_bit 16 (sense 2) OR push_bit 8 (sense 12) OR sense 13, s)
   }"

definition read_cdb :: "u32 \<Rightarrow> int \<Rightarrow> u8 list" where
  "read_cdb lba num = [0x28, 0, ucast (drop_bit 24 lba), ucast (drop_bit 16 lba), ucast (drop_bit 8 lba), ucast lba,
     0, word_of_int (drop_bit 8 num), word_of_int num, 0, 0, 0]"

fun read_sector_retry :: "nat \<Rightarrow> 'd cd_env \<Rightarrow> addr \<Rightarrow> u32 \<Rightarrow> int \<Rightarrow> 'd cd_state \<Rightarrow> (int \<times> 'd cd_state) option" where
  "read_sector_retry 0 E sector lba num s = Some (-1, s)"
| "read_sector_retry (Suc maxretries) E sector lba num s = do {
     (err, s) \<leftarrow> atapi_packet E (read_cdb lba num) sector (0x800 * num) s;
     if err = 0 then Some (0, s)
     else do {
       (sense, s) \<leftarrow> request_sense E s;
       if drop_bit 16 sense = 6 then read_sector_retry maxretries E sector lba num s
       else if sense = 0x020401
       then do {
         (_, _, k) \<leftarrow> delay (cd_clock E) 1 (ticks s);
         read_sector_retry maxretries E sector lba num (s\<lparr>ticks := k\<rparr>)
       }
       else Some (-1, s)
     }
   }"

definition read_sector :: "'d cd_env \<Rightarrow> addr \<Rightarrow> u32 \<Rightarrow> int \<Rightarrow> 'd cd_state \<Rightarrow> (int \<times> 'd cd_state) option" where
  "read_sector E sector lba num s = read_sector_retry 10 E sector lba num s"

definition set_modeb :: "'d cd_env \<Rightarrow> 'd cd_state \<Rightarrow> (int \<times> 'd cd_state) option" where
  "set_modeb E s = atapi_packet E [0xE7, 0x48, 0x49, 0x54, 0x30, 0x90, 0x90, 0xd0, 0x01, 0, 0, 0] (modeb_res E) 0x30 s"

section \<open>Directories\<close>

fun memicmp :: "mem \<Rightarrow> addr \<Rightarrow> u8 list \<Rightarrow> nat \<Rightarrow> int" where
  "memicmp m a b 0 = 0"
| "memicmp m a b (Suc len) = (if ctoupper (m a) \<noteq> ctoupper (peek b) then 1 else memicmp m (a + 1) (tl b) len)"

definition dir_be32 :: "mem \<Rightarrow> addr \<Rightarrow> u32" where
  "dir_be32 m a = push_bit 24 (ucast (m a)) OR push_bit 16 (ucast (m (a + 1))) OR push_bit 8 (ucast (m (a + 2))) OR ucast (m (a + 3))"

text \<open>The result, the block number and the size; the name is compared with the zero byte when it is empty.\<close>

definition read_direntry :: "mem \<Rightarrow> addr \<Rightarrow> u8 list \<Rightarrow> nat \<times> u32 \<times> u32" where
  "read_direntry m direntry filename =
     (let nrb = unat (m direntry);
          lba = dir_be32 m (direntry + 6);
          size = dir_be32 m (direntry + 14);
          nl = unat (m (direntry + 32));
          fnl = (if length filename = 0 then 1 else length filename)
      in if nl \<noteq> fnl \<or> memicmp m (direntry + 33) filename nl \<noteq> 0 then (nrb, 0, 0) else (nrb, lba, size))"

partial_function (option) directory_loop ::
    "'d cd_env \<Rightarrow> u32 \<Rightarrow> int \<Rightarrow> u8 list \<Rightarrow> nat \<Rightarrow> u32 \<times> u32 \<Rightarrow> 'd cd_state \<Rightarrow> (int \<times> (u32 \<times> u32) \<times> 'd cd_state) option" where
  "directory_loop E sector len filename ptr found s =
     (if 0 < len
      then let (nrb, lba, size) = read_direntry (cmem s) (sector_buffer E + of_nat ptr) filename;
               ptr = ptr + nrb
           in if lba \<noteq> 0 \<or> size \<noteq> 0 then Some (0, (lba, size), s)
              else if cmem s (sector_buffer E + of_nat ptr) = 0
              then do {
                (_, s) \<leftarrow> read_sector E (sector_buffer E) (sector + 1) 1 s;
                directory_loop E (sector + 1) (len - 2048) filename 0 (lba, size) s
              }
              else directory_loop E sector len filename ptr (lba, size) s
      else Some (-2, found, s))"

definition read_directory ::
    "'d cd_env \<Rightarrow> u32 \<Rightarrow> int \<Rightarrow> u8 list \<Rightarrow> u32 \<times> u32 \<Rightarrow> 'd cd_state \<Rightarrow> (int \<times> (u32 \<times> u32) \<times> 'd cd_state) option" where
  "read_directory E sector len filename found s = do {
     (err, s) \<leftarrow> read_sector E (sector_buffer E) sector 1 s;
     if err \<noteq> 0 then Some (-1, found, s) else directory_loop E sector len filename 0 found s
   }"

section \<open>Loading a file\<close>

definition pvd_root_direntry :: addr where
  "pvd_root_direntry = 8 + 32 + 32 + 8 + 4 + 4 + 32 + 4 + 4 + 2 + 2 + 4 + 4 + 4 + 4 + 4 + 4"

partial_function (option) load_loop :: "'d cd_env \<Rightarrow> addr \<Rightarrow> u32 \<Rightarrow> int \<Rightarrow> 'd cd_state \<Rightarrow> (bool \<times> 'd cd_state) option" where
  "load_loop E addr file_sector left s =
     (let num = s32 (left + 0x7ff) sdiv 0x800;
          num = (if num > 64 then 64 else num)
      in do {
        (err, s) \<leftarrow> read_sector E addr file_sector num s;
        if err \<noteq> 0 then Some (False, s)
        else let left = left - num * 0x800
             in if left \<le> 0 then Some (True, s)
                else load_loop E (addr + word_of_int (num * 0x800)) (file_sector + word_of_int num) left s
      })"

text \<open>The variables for the block number and size of the file have no value at first; 0 stands for it.\<close>

definition iso9660_load_file :: "'d cd_env \<Rightarrow> u8 list \<Rightarrow> addr \<Rightarrow> 'd cd_state \<Rightarrow> (int \<times> 'd cd_state) option" where
  "iso9660_load_file E filename addr s = do {
     (err, s) \<leftarrow> read_sector E (sector_buffer E) 16 1 s;
     if err \<noteq> 0 then Some (-1, s)
     else if load_list (cmem s) (sector_buffer E) 8 \<noteq> [1] @ bytes ''CD001'' @ [1, 0] then Some (-1, s)
     else let (_, sector, size) = read_direntry (cmem s) (sector_buffer E + pvd_root_direntry) []
          in if sector = 0 then Some (-1, s)
             else do {
               (err, found, s) \<leftarrow> read_directory E sector (sint size) (filename @ bytes '';1'') (0, 0) s;
               (err, found, s) \<leftarrow> (if err = 0 then Some (err, found, s)
                                   else read_directory E sector (sint size) (filename @ bytes ''.;1'') found s);
               if err \<noteq> 0 then Some (-1, s)
               else do {
                 (done, s) \<leftarrow> load_loop E addr (fst found) (sint (snd found)) s;
                 Some (if done then sint (snd found) else -1, s)
               }
             }
   }"

text \<open>What \<^verbatim>\<open>execute_elf_at\<close> is called with, if it is, and the state.\<close>

definition try_boot_cdrom :: "'d cd_env \<Rightarrow> u8 list option \<Rightarrow> 'd cd_state \<Rightarrow> (addr option \<times> 'd cd_state) option" where
  "try_boot_cdrom E filename s = do {
     (_, s) \<leftarrow> set_modeb E s;
     let filename = (case filename of None \<Rightarrow> bytes ''vmlinux'' | Some f \<Rightarrow> f);
     (size, s) \<leftarrow> iso9660_load_file E filename LOADER_RAW s;
     Some (if size \<ge> 0 then Some LOADER_RAW else None, s)
   }"

section \<open>What a drive does\<close>

text \<open>
  The packet protocol of the ATAPI standard, as far as the loader relies on it. A drive collects the three words of a
  packet after the command \<^verbatim>\<open>0xA0\<close>, then hands out the words of its answer. It may be busy for a while at any time; when it
  is not, it is ready, reports no error and asks for data while there is some to transfer.
\<close>

datatype phase = Packet "u32 list" | Answer "u32 list"

definition ready_status :: "phase \<Rightarrow> u8 \<Rightarrow> bool" where
  "ready_status p st \<longleftrightarrow> st AND 0xC0 = 0x40 \<and> st AND 0x80 = 0 \<and> st AND 1 = 0 \<and>
     (st AND 8 \<noteq> 0 \<longleftrightarrow> (case p of Packet _ \<Rightarrow> True | Answer ws \<Rightarrow> ws \<noteq> []))"

definition status_law :: "'d cd_env \<Rightarrow> ('d \<Rightarrow> phase) \<Rightarrow> ('d \<Rightarrow> nat) \<Rightarrow> bool" where
  "status_law E ph busy \<longleftrightarrow> (\<forall>d st d'. in8 E 7 d = (st, d') \<longrightarrow> ph d' = ph d \<and>
     (if busy d = 0 then busy d' = 0 \<and> ready_status (ph d) st
      else busy d' < busy d \<and> st AND 0x80 \<noteq> 0 \<and> st AND 0xC0 \<noteq> 0x40 \<and> st \<noteq> 0xFF \<and> st AND 1 = 0))"

definition command_law :: "'d cd_env \<Rightarrow> ('d \<Rightarrow> phase) \<Rightarrow> (u32 list \<Rightarrow> u32 list) \<Rightarrow> bool" where
  "command_law E ph answer \<longleftrightarrow>
     (\<forall>d. ph (out8 E 7 0xA0 d) = Packet []) \<and>
     (\<forall>d ws w. ph d = Packet ws \<longrightarrow>
        ph (out32 E 0 w d) = (if length ws < 2 then Packet (ws @ [w]) else Answer (answer (ws @ [w])))) \<and>
     (\<forall>d ws w. ph d = Answer (w # ws) \<longrightarrow> fst (in32 E 0 d) = w \<and> ph (snd (in32 E 0 d)) = Answer ws)"

text \<open>The sectors of a disc from a block on, and the answer of a drive with that disc to a READ(10) packet.\<close>

definition sectors :: "(u32 \<Rightarrow> u8 list) \<Rightarrow> u32 \<Rightarrow> nat \<Rightarrow> u8 list" where
  "sectors disc lba n = concat (map (\<lambda>i. disc (lba + of_nat i)) [0..<n])"

definition packet_words :: "u8 list \<Rightarrow> u32 list" where
  "packet_words p = [packet_word p 0, packet_word p 4, packet_word p 8]"

definition holds_disc :: "(u32 list \<Rightarrow> u32 list) \<Rightarrow> (u32 \<Rightarrow> u8 list) \<Rightarrow> bool" where
  "holds_disc answer disc \<longleftrightarrow> (\<forall>lba. length (disc lba) = 0x800) \<and>
     (\<forall>lba num. num \<le> 64 \<longrightarrow> answer (packet_words (read_cdb lba (int num))) = words (sectors disc lba num))"

lemma length_sectors: "(\<And>l. length (disc l) = k) \<Longrightarrow> length (sectors disc lba n) = k * n"
  by (induction n) (auto simp: sectors_def)

lemma sectors_add: "sectors disc lba (n + k) = sectors disc lba n @ sectors disc (lba + of_nat n) k"
  by (induction k) (auto simp: sectors_def algebra_simps)

text \<open>Only memory is the concern of the loader: states with the same memory and clock position.\<close>

definition drive_only :: "'d cd_state \<Rightarrow> 'd cd_state \<Rightarrow> bool" where
  "drive_only s s' \<longleftrightarrow> cmem s' = cmem s \<and> ticks s' = ticks s"

lemma waitready_ready:
  assumes "status_law E ph busy"
  shows "\<exists>s'. ide_waitready E s = Some (0, s') \<and> drive_only s s' \<and> ph (drive s') = ph (drive s) \<and> busy (drive s') = 0"
proof (induction "busy (drive s)" arbitrary: s rule: less_induct)
  case less
  obtain st d where i: "in8 E 7 (drive s) = (st, d)" by fastforce
  then have law: "ph d = ph (drive s)" "if busy (drive s) = 0 then busy d = 0 \<and> ready_status (ph (drive s)) st
      else busy d < busy (drive s) \<and> st AND 0x80 \<noteq> 0 \<and> st AND 0xC0 \<noteq> 0x40 \<and> st \<noteq> 0xFF \<and> st AND 1 = 0"
    using assms unfolding status_law_def by blast+
  show ?case
  proof (cases "busy (drive s) = 0")
    case True
    with law i show ?thesis
      by (subst ide_waitready.simps) (auto simp: ide_in8_def ATAPI_STATUS_def ready_status_def drive_only_def)
  next
    case False
    with law have "busy (drive (s\<lparr>drive := d\<rparr>)) < busy (drive s)" by simp
    from less [OF this] False law i show ?thesis
      by (subst ide_waitready.simps) (auto simp: ide_in8_def ATAPI_STATUS_def drive_only_def)
  qed
qed

lemma data_loop_answer:
  assumes "status_law E ph busy" and "command_law E ph answer"
  shows "ph (drive s) = Answer ws \<Longrightarrow> \<exists>s'. data_loop E a (2 * int (length ws)) s = Some s' \<and> ticks s' = ticks s \<and>
    cmem s' = store_list (cmem s) a (concat (map be32_bytes ws)) \<and> ph (drive s') = Answer [] \<and> (ws = [] \<longrightarrow> s' = s)"
proof (induction ws arbitrary: a s)
  case Nil
  then show ?case by (subst data_loop.simps) simp
next
  case (Cons w ws)
  show ?case using Cons.prems
  proof (induction "busy (drive s)" arbitrary: s rule: less_induct)
    case less
    obtain st d where i: "in8 E 7 (drive s) = (st, d)" by fastforce
    then have law: "ph d = ph (drive s)" "if busy (drive s) = 0 then busy d = 0 \<and> ready_status (ph (drive s)) st
        else busy d < busy (drive s) \<and> st AND 0x80 \<noteq> 0 \<and> st AND 0xC0 \<noteq> 0x40 \<and> st \<noteq> 0xFF \<and> st AND 1 = 0"
      using assms(1) unfolding status_law_def by blast+
    show ?case
    proof (cases "busy (drive s) = 0")
      case False
      with law have "busy (drive (s\<lparr>drive := d\<rparr>)) < busy (drive s)" by simp
      from less.hyps [OF this] less.prems False law i show ?thesis
        by (subst data_loop.simps) (auto simp: ide_in8_def ATAPI_STATUS_def)
    next
      case True
      obtain x d' where i32: "in32 E 0 d = (x, d')" by fastforce
      then have x: "x = w" "ph d' = Answer ws"
        using assms(2) law(1) less.prems unfolding command_law_def by (metis fst_conv snd_conv)+
      let ?s = "s\<lparr>drive := d', cmem := store_list (cmem s) a (be32_bytes w)\<rparr>"
      obtain s' where s': "data_loop E (a + 4) (2 * int (length ws)) ?s = Some s'" "ticks s' = ticks s"
        "cmem s' = store_list (store_list (cmem s) a (be32_bytes w)) (a + 4) (concat (map be32_bytes ws))" "ph (drive s') = Answer []"
        using Cons.IH [of ?s "a + 4"] x by auto
      have eq: "store_list (cmem s) a (concat (map be32_bytes (w # ws)))
          = store_list (store_list (cmem s) a (be32_bytes w)) (a + 4) (concat (map be32_bytes ws))"
        by (simp add: store_list_append be32_bytes_def add.commute [of a])
      have "data_loop E a (2 * int (length (w # ws))) s = data_loop E (a + 4) (2 * int (length ws)) ?s"
        using True law i i32 x by (subst data_loop.simps)
          (simp add: ide_in8_def ide_in32_def ATAPI_STATUS_def ATAPI_DATA_def ready_status_def)
      then show ?thesis unfolding eq using s' by (intro exI [of _ s']) simp
    qed
  qed
qed

text \<open>A packet command with an answer of the length asked for.\<close>

lemma atapi_packet_answer:
  assumes law: "status_law E ph busy" "command_law E ph answer"
    and len: "length (answer (packet_words p)) * 4 = nat n" "0 \<le> n"
  shows "\<exists>s'. atapi_packet E p a n s = Some (0, s') \<and> ticks s' = ticks s \<and>
    cmem s' = store_list (cmem s) a (concat (map be32_bytes (answer (packet_words p))))"
proof -
  define k where "k = n sdiv 2"
  have k: "k = 2 * int (length (answer (packet_words p)))"
  proof -
    have "n = 4 * int (length (answer (packet_words p)))" using len by linarith
    then show ?thesis unfolding k_def by (simp add: signed_divide_int_def sgn_if)
  qed
  define s1 where "s1 = ide_out8 E ATAPI_COMMAND 0xA0 (ide_out8 E ATAPI_FEATURES 0 (ide_out8 E ATAPI_BYTE_CNT_H (word_of_int (drop_bit 8 k))
      (ide_out8 E ATAPI_BYTE_CNT_L (word_of_int (k AND 0xFF)) (ide_out8 E ATAPI_DRIVE_SELECT 0xA0 s))))"
  have s1: "drive_only s s1" "ph (drive s1) = Packet []"
    using law(2) by (auto simp: s1_def drive_only_def ide_out8_def command_law_def ATAPI_COMMAND_def)
  obtain s2 where s2: "ide_waitready E s1 = Some (0, s2)" "drive_only s1 s2" "ph (drive s2) = Packet []" "busy (drive s2) = 0"
    using waitready_ready [OF law(1), of s1] s1 by auto
  obtain st d3 where i3: "in8 E 7 (drive s2) = (st, d3)" by fastforce
  have d3: "ph d3 = Packet []" "st AND 8 \<noteq> 0"
    using law(1) i3 s2(3,4) unfolding status_law_def ready_status_def by fastforce+
  define s4 where "s4 = ide_out32 E ATAPI_DATA (packet_word p 8) (ide_out32 E ATAPI_DATA (packet_word p 4)
      (ide_out32 E ATAPI_DATA (packet_word p 0) (s2\<lparr>drive := d3\<rparr>)))"
  have s4: "drive_only s2 s4" "ph (drive s4) = Answer (answer (packet_words p))"
    using law(2) d3 by (auto simp: s4_def drive_only_def ide_out32_def command_law_def ATAPI_DATA_def packet_words_def)
  obtain s5 where s5: "ide_waitready E s4 = Some (0, s5)" "drive_only s4 s5" "ph (drive s5) = Answer (answer (packet_words p))"
    "busy (drive s5) = 0"
    using waitready_ready [OF law(1), of s4] s4 by auto
  obtain s6 where s6: "data_loop E a k s5 = Some s6" "ticks s6 = ticks s5" "ph (drive s6) = Answer []"
    "cmem s6 = store_list (cmem s5) a (concat (map be32_bytes (answer (packet_words p))))"
    using data_loop_answer [OF law s5(3), of a] unfolding k by auto
  obtain st7 d7 where i7: "in8 E 7 (drive s6) = (st7, d7)" by fastforce
  have st7: "st7 AND 1 = 0"
    using law(1) i7 unfolding status_law_def ready_status_def by (metis (full_types))
  have "atapi_packet E p a n s = Some (0, s6\<lparr>drive := d7\<rparr>)"
    using s2(1) i3 d3(2) s5(1) s6(1) i7 st7 unfolding atapi_packet_def Let_def k_def [symmetric] s1_def [symmetric]
    by (simp add: ide_in8_def ATAPI_STATUS_def ATAPI_STATUS_DRQ_def ATAPI_STATUS_ERR_def s4_def [symmetric])
  then show ?thesis using s1 s2 s4 s5 s6 by (simp add: drive_only_def)
qed

definition cd_drive :: "'d cd_env \<Rightarrow> ('d \<Rightarrow> phase) \<Rightarrow> ('d \<Rightarrow> nat) \<Rightarrow> (u32 list \<Rightarrow> u32 list) \<Rightarrow> (u32 \<Rightarrow> u8 list) \<Rightarrow> bool" where
  "cd_drive E ph busy answer disc \<longleftrightarrow> status_law E ph busy \<and> command_law E ph answer \<and> holds_disc answer disc"

lemma cd_drive_disc: "cd_drive E ph busy answer disc \<Longrightarrow> length (disc l) = 0x800"
  by (simp add: cd_drive_def holds_disc_def)

lemma cd_drive_sectors: "cd_drive E ph busy answer disc \<Longrightarrow> length (sectors disc lba n) = 0x800 * n"
  by (rule length_sectors) (rule cd_drive_disc)

lemma read_sector_reads:
  assumes cd: "cd_drive E ph busy answer disc" and n: "n \<le> 64"
  shows "\<exists>s'. read_sector E a lba (int n) s = Some (0, s') \<and> ticks s' = ticks s \<and>
    cmem s' = store_list (cmem s) a (sectors disc lba n)"
proof -
  let ?w = "answer (packet_words (read_cdb lba (int n)))"
  have w: "?w = words (sectors disc lba n)" using cd n by (simp add: cd_drive_def holds_disc_def)
  have len: "length (sectors disc lba n) = 0x800 * n" by (rule cd_drive_sectors [OF cd])
  then have "length ?w * 4 = nat (0x800 * int n)" unfolding w by (simp add: length_words nat_mult_distrib)
  then obtain s' where "atapi_packet E (read_cdb lba (int n)) a (0x800 * int n) s = Some (0, s')" "ticks s' = ticks s"
    "cmem s' = store_list (cmem s) a (concat (map be32_bytes ?w))"
    using atapi_packet_answer [of E ph busy answer "read_cdb lba (int n)" "0x800 * int n" a s] cd by (auto simp: cd_drive_def)
  moreover have "concat (map be32_bytes ?w) = sectors disc lba n" unfolding w by (rule words_bytes) (simp add: len)
  ultimately show ?thesis by (simp add: read_sector_def numeral_eq_Suc)
qed

lemma read_one_sector:
  assumes cd: "cd_drive E ph busy answer disc"
  shows "\<exists>s'. read_sector E a lba 1 s = Some (0, s') \<and> ticks s' = ticks s \<and> cmem s' = store_list (cmem s) a (disc lba) \<and>
    load_list (cmem s') a 0x800 = disc lba"
  using read_sector_reads [OF cd, of 1 a lba s] load_store_list [of "disc lba" "cmem s" a] cd_drive_disc [OF cd, of lba]
  by (auto simp: sectors_def)

section \<open>Directory records\<close>

definition rec_be32 :: "u8 list \<Rightarrow> nat \<Rightarrow> u32" where
  "rec_be32 r i = be32 (r ! i) (r ! (i + 1)) (r ! (i + 2)) (r ! (i + 3))"

abbreviation rec_lba :: "u8 list \<Rightarrow> u32" where "rec_lba r \<equiv> rec_be32 r 6"
abbreviation rec_size :: "u8 list \<Rightarrow> u32" where "rec_size r \<equiv> rec_be32 r 14"

definition rec_name :: "u8 list \<Rightarrow> u8 list" where
  "rec_name r = take (unat (r ! 32)) (drop 33 r)"

text \<open>A directory record: its first byte is its length, and its name lies in it.\<close>

definition rec_ok :: "u8 list \<Rightarrow> bool" where
  "rec_ok r \<longleftrightarrow> 33 + unat (r ! 32) \<le> length r \<and> length r = unat (r ! 0)"

definition names :: "u8 list \<Rightarrow> u8 list \<Rightarrow> bool" where
  "names r fname \<longleftrightarrow> map ctoupper (rec_name r) = map ctoupper (if fname = [] then [0] else fname)"

lemma memicmp_0: "n \<le> length b \<Longrightarrow> memicmp m a b n = 0 \<longleftrightarrow> map ctoupper (load_list m a n) = map ctoupper (take n b)"
proof (induction n arbitrary: a b)
  case (Suc n)
  then obtain c b' where "b = c # b'" by (cases b) auto
  with Suc show ?case by auto
qed simp

lemma read_direntry_rec:
  assumes at: "load_list m a (length r) = r" and ok: "rec_ok r"
  shows "read_direntry m a fname = (length r, if names r fname then (rec_lba r, rec_size r) else (0, 0))"
proof -
  have len: "33 + unat (r ! 32) \<le> length r" and r0: "length r = unat (r ! 0)" using ok by (auto simp: rec_ok_def)
  have nth: "m (a + of_nat i) = r ! i" if "i < length r" for i using load_list_nth [OF that, of m a] at by simp
  have be: "dir_be32 m (a + of_nat i) = rec_be32 r i" if "i + 3 < length r" for i
    using that nth [of i] nth [of "i + 1"] nth [of "i + 2"] nth [of "i + 3"]
    by (simp add: dir_be32_def rec_be32_def be32_def algebra_simps)
  have nm: "load_list m (a + 33) (unat (r ! 32)) = rec_name r"
    using drop_load_list [of 33 "length r" m a] take_load_list [of "unat (r ! 32)" "length r - 33" m "a + 33"] len
    by (simp add: at rec_name_def)
  have lnm: "length (rec_name r) = unat (r ! 32)" using len by (simp add: rec_name_def)
  let ?f = "if fname = [] then [0] else fname"
  have "memicmp m (a + 33) fname (unat (r ! 32)) = memicmp m (a + 33) ?f (unat (r ! 32))" if "unat (r ! 32) = length ?f"
    using that by auto
  then have c: "(unat (r ! 32) \<noteq> (if length fname = 0 then 1 else length fname) \<or> memicmp m (a + 33) fname (unat (r ! 32)) \<noteq> 0)
      \<longleftrightarrow> \<not> names r fname"
    using memicmp_0 [of "unat (r ! 32)" ?f m "a + 33"] map_eq_imp_length_eq [of ctoupper "rec_name r" ctoupper ?f]
    by (auto simp: names_def nm lnm)
  show ?thesis
    unfolding read_direntry_def Let_def
    using c nth [of 0] nth [of 32] be [of 6] be [of 14] len r0 by auto
qed

definition rec_found :: "u8 list \<Rightarrow> u8 list \<Rightarrow> bool" where
  "rec_found fname r \<longleftrightarrow> names r fname \<and> (rec_lba r \<noteq> 0 \<or> rec_size r \<noteq> 0)"

lemma directory_loop_sector:
  assumes "0 < len" and "rs \<noteq> []" and "\<forall>r\<in>set rs. rec_ok r"
    and "load_list (cmem s) (sector_buffer E + of_nat p) (Suc (length (concat rs))) = concat rs @ [0]"
  shows "directory_loop E sector len fname p found s =
    (case find (rec_found fname) rs of Some r \<Rightarrow> Some (0, (rec_lba r, rec_size r), s)
     | None \<Rightarrow> do {
         (_, s) \<leftarrow> read_sector E (sector_buffer E) (sector + 1) 1 s;
         directory_loop E (sector + 1) (len - 2048) fname 0 (0, 0) s
       })"
  using assms(2-)
proof (induction rs arbitrary: p found)
  case (Cons r rs)
  let ?b = "sector_buffer E" and ?n = "length (concat rs)"
  have ok: "rec_ok r" using Cons.prems by simp
  have "load_list (cmem s) (?b + of_nat p) (length r + Suc ?n) = r @ concat rs @ [0]" using Cons.prems by simp
  then have l: "load_list (cmem s) (?b + of_nat p) (length r) = r"
    "load_list (cmem s) (?b + of_nat (p + length r)) (Suc ?n) = concat rs @ [0]"
    unfolding load_list_add by (simp_all add: add.assoc del: load_list.simps)
  note de = read_direntry_rec [OF l(1) ok, of fname]
  have at: "cmem s (?b + of_nat (p + length r)) = hd (concat rs @ [0])" using arg_cong [OF l(2), of hd] by simp
  show ?case
  proof (cases "rec_found fname r")
    case True
    then show ?thesis using assms(1) de by (subst directory_loop.simps) (auto simp: rec_found_def)
  next
    case nf: False
    then have nf': "read_direntry (cmem s) (?b + of_nat p) fname = (length r, 0, 0)" using de by (auto simp: rec_found_def)
    show ?thesis
    proof (cases rs)
      case Nil
      then show ?thesis using assms(1) nf' nf at by (subst directory_loop.simps) simp
    next
      case (Cons r' rs')
      then have ok': "rec_ok r'" using Cons.prems by simp
      then have ne: "r' \<noteq> []" by (auto simp: rec_ok_def)
      then have "hd r' \<noteq> 0" using ok' by (auto simp: rec_ok_def hd_conv_nth)
      then have "cmem s (?b + of_nat (p + length r)) \<noteq> 0" unfolding at Cons using ne by simp
      then have "directory_loop E sector len fname p found s = directory_loop E sector len fname (p + length r) (0, 0) s"
        using assms(1) nf' by (subst directory_loop.simps) simp
      also have "\<dots> = (case find (rec_found fname) rs of Some r \<Rightarrow> Some (0, (rec_lba r, rec_size r), s)
         | None \<Rightarrow> do {
             (_, s) \<leftarrow> read_sector E (sector_buffer E) (sector + 1) 1 s;
             directory_loop E (sector + 1) (len - 2048) fname 0 (0, 0) s
           })"
        using Cons Cons.prems l(2) by (intro Cons.IH) auto
      finally show ?thesis using nf by simp
    qed
  qed
qed simp

text \<open>The records of a directory, sector by sector; in each a zero byte follows the last record.\<close>

fun dir_on_disc :: "(u32 \<Rightarrow> u8 list) \<Rightarrow> u32 \<Rightarrow> u8 list list list \<Rightarrow> bool" where
  "dir_on_disc disc sector [] \<longleftrightarrow> True"
| "dir_on_disc disc sector (rs # rss) \<longleftrightarrow> rs \<noteq> [] \<and> (\<forall>r\<in>set rs. rec_ok r) \<and>
     take (Suc (length (concat rs))) (disc sector) = concat rs @ [0] \<and> dir_on_disc disc (sector + 1) rss"

lemma first_sector:
  assumes "dir_on_disc disc sector (rs # rss)" and at: "load_list m a 0x800 = disc sector"
  shows "load_list m a (Suc (length (concat rs))) = concat rs @ [0]"
proof -
  have t: "take (Suc (length (concat rs))) (disc sector) = concat rs @ [0]" using assms by simp
  then have "Suc (length (concat rs)) \<le> 0x800"
    using arg_cong [OF t, of length] at by (metis length_append_singleton length_load_list length_take min.cobounded1)
  then show ?thesis using take_load_list [of "Suc (length (concat rs))" "0x800" m a] at t by simp
qed

lemma directory_loop_finds:
  assumes cd: "cd_drive E ph busy answer disc"
  shows "dir_on_disc disc sector (rs # rss) \<Longrightarrow> load_list (cmem s) (sector_buffer E) 0x800 = disc sector \<Longrightarrow>
    2048 * int (length rss) < len \<Longrightarrow> len \<le> 2048 * int (Suc (length rss)) \<Longrightarrow>
    \<exists>s'. directory_loop E sector len fname 0 found s = Some (case find (rec_found fname) (concat (rs # rss)) of
        None \<Rightarrow> (-2, (0, 0), s') | Some r \<Rightarrow> (0, (rec_lba r, rec_size r), s')) \<and>
      ticks s' = ticks s \<and> (\<forall>x. x \<notin> region (sector_buffer E) 0x800 \<longrightarrow> cmem s' x = cmem s x)"
proof (induction rss arbitrary: rs sector len found s)
  case Nil
  let ?b = "sector_buffer E"
  have buf: "load_list (cmem s) (?b + of_nat 0) (Suc (length (concat rs))) = concat rs @ [0]"
    using first_sector [OF Nil.prems(1,2)] by simp
  obtain s' where s': "read_sector E ?b (sector + 1) 1 s = Some (0, s')" "ticks s' = ticks s"
    "cmem s' = store_list (cmem s) ?b (disc (sector + 1))"
    using read_one_sector [OF cd, of ?b "sector + 1" s] by auto
  have "directory_loop E (sector + 1) (len - 2048) fname 0 (0, 0) s' = Some (-2, (0, 0), s')"
    using Nil.prems by (subst directory_loop.simps) simp
  with Nil.prems s' show ?case
    by (subst directory_loop_sector [OF _ _ _ buf])
      (auto simp: mem_simps cd_drive_disc [OF cd] split: option.splits)
next
  case (Cons rs' rss)
  let ?b = "sector_buffer E"
  have buf: "load_list (cmem s) (?b + of_nat 0) (Suc (length (concat rs))) = concat rs @ [0]"
    using first_sector [OF Cons.prems(1,2)] by simp
  obtain s1 where s1: "read_sector E ?b (sector + 1) 1 s = Some (0, s1)" "ticks s1 = ticks s"
    "cmem s1 = store_list (cmem s) ?b (disc (sector + 1))" "load_list (cmem s1) ?b 0x800 = disc (sector + 1)"
    using read_one_sector [OF cd, of ?b "sector + 1" s] by auto
  obtain s' where s': "directory_loop E (sector + 1) (len - 2048) fname 0 (0, 0) s1 = Some (case find (rec_found fname) (concat (rs' # rss)) of
        None \<Rightarrow> (-2, (0, 0), s') | Some r \<Rightarrow> (0, (rec_lba r, rec_size r), s'))" "ticks s' = ticks s1"
      "\<forall>x. x \<notin> region ?b 0x800 \<longrightarrow> cmem s' x = cmem s1 x"
    using Cons.IH [where sector = "sector + 1" and rs = rs' and s = s1 and len = "len - 2048" and found = "(0, 0)"] Cons.prems s1(4) by auto
  have fr: "\<forall>x. x \<notin> region ?b 0x800 \<longrightarrow> cmem s' x = cmem s x"
    using s'(3) s1(3) by (auto simp: mem_simps cd_drive_disc [OF cd])
  have eq: "directory_loop E sector len fname 0 found s = (case find (rec_found fname) rs of
      Some r \<Rightarrow> Some (0, (rec_lba r, rec_size r), s)
    | None \<Rightarrow> Some (case find (rec_found fname) (concat (rs' # rss)) of
        None \<Rightarrow> (-2, (0, 0), s') | Some r \<Rightarrow> (0, (rec_lba r, rec_size r), s')))"
    using Cons.prems s1(1) s'(1) by (subst directory_loop_sector [OF _ _ _ buf]) (auto split: option.splits)
  have find: "find P (concat (rs # rss)) = (case find P rs of None \<Rightarrow> find P (concat rss) | Some r \<Rightarrow> Some r)" for P :: "u8 list \<Rightarrow> bool" and rs rss
    by (induction rs) auto
  show ?case
  proof (cases "find (rec_found fname) rs")
    case None
    then show ?thesis unfolding eq find [of _ rs] using fr s'(2) s1(2) by (intro exI [of _ s']) simp
  next
    case (Some r)
    then show ?thesis unfolding eq find [of _ rs] by (intro exI [of _ s]) simp
  qed
qed

section \<open>Loading\<close>

text \<open>The sectors that hold a number of bytes.\<close>

definition n_sectors :: "int \<Rightarrow> nat" where
  "n_sectors n = nat (n + 0x7ff) div 0x800"

lemma load_num:
  assumes "0 \<le> n" and "n < 2 ^ 31 - 0x800"
  shows "(if s32 (n + 0x7ff) sdiv 0x800 > 64 then 64 else s32 (n + 0x7ff) sdiv 0x800) = int (min 64 (n_sectors n))"
proof -
  have "s32 (n + 0x7ff) = n + 0x7ff" using assms by (intro s32_id) auto
  then have "s32 (n + 0x7ff) sdiv 0x800 = (n + 0x7ff) div 0x800"
    using assms by (simp add: signed_divide_int_def sgn_if)
  moreover have "int (n_sectors n) = (n + 0x7ff) div 0x800" using assms by (simp add: n_sectors_def zdiv_int)
  ultimately show ?thesis by (simp add: of_nat_min)
qed

lemma load_loop_loads:
  assumes cd: "cd_drive E ph busy answer disc"
  shows "0 \<le> n \<Longrightarrow> n < 2 ^ 31 - 0x800 \<Longrightarrow> \<exists>s'. load_loop E a sec n s = Some (True, s') \<and> ticks s' = ticks s \<and>
    cmem s' = store_list (cmem s) a (sectors disc sec (n_sectors n))"
proof (induction "nat n" arbitrary: n a sec s rule: less_induct)
  case less
  define k where "k = min 64 (n_sectors n)"
  have num: "(if s32 (n + 0x7ff) sdiv 0x800 > 64 then 64 else s32 (n + 0x7ff) sdiv 0x800) = int k"
    unfolding k_def using less.prems by (rule load_num)
  have k: "k \<le> 64" by (simp add: k_def)
  obtain s1 where s1: "read_sector E a sec (int k) s = Some (0, s1)" "ticks s1 = ticks s"
    "cmem s1 = store_list (cmem s) a (sectors disc sec k)"
    using read_sector_reads [OF cd k, of a sec s] by auto
  have eq: "load_loop E a sec n s = (if n - int k * 0x800 \<le> 0 then Some (True, s1)
      else load_loop E (a + word_of_int (int k * 0x800)) (sec + word_of_int (int k)) (n - int k * 0x800) s1)"
    using s1(1) by (subst load_loop.simps) (simp add: num Let_def)
  have ns: "int (n_sectors n) = (n + 0x7ff) div 0x800" using less.prems by (simp add: n_sectors_def zdiv_int)
  have bounds: "n \<le> 0x800 * int (n_sectors n)" "0x800 * int (n_sectors n) < n + 0x800"
    using int_ceil_bounds [of "0x800" "int (n_sectors n)" n] ns by simp_all
  show ?case
  proof (cases "n_sectors n \<le> 64")
    case True
    then have "k = n_sectors n" by (simp add: k_def)
    moreover have "n - int (n_sectors n) * 0x800 \<le> 0" using bounds by simp
    ultimately show ?thesis unfolding eq using s1 by auto
  next
    case False
    then have k64: "k = 64" by (simp add: k_def)
    have left: "0 < n - int k * 0x800" using False bounds unfolding k64 by simp
    have "nat (n - int k * 0x800) < nat n" using left k64 by simp
    from less.hyps [OF this, of "a + word_of_int (int k * 0x800)" "sec + word_of_int (int k)" s1] left less.prems
    obtain s' where s': "load_loop E (a + word_of_int (int k * 0x800)) (sec + word_of_int (int k)) (n - int k * 0x800) s1 = Some (True, s')"
      "ticks s' = ticks s1"
      "cmem s' = store_list (cmem s1) (a + word_of_int (int k * 0x800)) (sectors disc (sec + word_of_int (int k)) (n_sectors (n - int k * 0x800)))"
      using k64 by auto
    have "int (n_sectors (n - int k * 0x800)) = (n - int k * 0x800 + 0x7ff) div 0x800"
      using left by (simp add: n_sectors_def zdiv_int)
    then have "int (n_sectors n) = int (64 + n_sectors (n - int k * 0x800))"
      unfolding ns k64 by simp
    then have "n_sectors n = k + n_sectors (n - int k * 0x800)" unfolding k64 by linarith
    then have "sectors disc sec (n_sectors n) = sectors disc sec k @ sectors disc (sec + word_of_int (int k)) (n_sectors (n - int k * 0x800))"
      using sectors_add [of disc sec k "n_sectors (n - int k * 0x800)"] by (simp only: of_int_of_nat_eq)
    moreover have "a + of_nat (length (sectors disc sec k)) = a + word_of_int (int k * 0x800)"
      using cd_drive_sectors [OF cd, of sec k] k64 by simp
    ultimately have "cmem s' = store_list (cmem s) a (sectors disc sec (n_sectors n))"
      using s'(3) s1(3) by (simp add: store_list_append)
    with s' s1(2) left show ?thesis unfolding eq by auto
  qed
qed

text \<open>The record of a file in the root directory: \<^verbatim>\<open>name;1\<close>, or else \<^verbatim>\<open>name.;1\<close>.\<close>

definition iso_lookup :: "u8 list list list \<Rightarrow> u8 list \<Rightarrow> u8 list option" where
  "iso_lookup rss fname = (case find (rec_found (fname @ bytes '';1'')) (concat rss) of Some r \<Rightarrow> Some r
     | None \<Rightarrow> find (rec_found (fname @ bytes ''.;1'')) (concat rss))"

text \<open>A disc with a primary volume descriptor and the records of its root directory.\<close>

definition iso_disc :: "(u32 \<Rightarrow> u8 list) \<Rightarrow> u8 list list list \<Rightarrow> bool" where
  "iso_disc disc rss \<longleftrightarrow> take 8 (disc 16) = [1, 0x43, 0x44, 0x30, 0x30, 0x31, 1, 0] \<and>
     (let root = take (unat (disc 16 ! 156)) (drop 156 (disc 16))
      in rec_ok root \<and> names root [] \<and> rec_lba root \<noteq> 0 \<and> 0 < sint (rec_size root) \<and>
         dir_on_disc disc (rec_lba root) rss \<and> int (length rss) = (sint (rec_size root) + 0x7ff) div 0x800)"

lemma read_directory_finds:
  assumes cd: "cd_drive E ph busy answer disc" and dir: "dir_on_disc disc sector rss"
    and len: "0 < len" "int (length rss) = (len + 0x7ff) div 0x800"
  shows "\<exists>s'. read_directory E sector len fname found s = Some (case find (rec_found fname) (concat rss) of
      None \<Rightarrow> (-2, (0, 0), s') | Some r \<Rightarrow> (0, (rec_lba r, rec_size r), s')) \<and>
    (\<forall>x. x \<notin> region (sector_buffer E) 0x800 \<longrightarrow> cmem s' x = cmem s x)"
proof -
  obtain rs rss' where rss: "rss = rs # rss'" using len by (cases rss) auto
  obtain s1 where s1: "read_sector E (sector_buffer E) sector 1 s = Some (0, s1)"
    "cmem s1 = store_list (cmem s) (sector_buffer E) (disc sector)" "load_list (cmem s1) (sector_buffer E) 0x800 = disc sector"
    using read_one_sector [OF cd, of "sector_buffer E" sector s] by auto
  have "int (length rss') + 1 = (len + 0x7ff) div 0x800" using len(2) rss by simp
  then have "2048 * int (length rss') < len" "len \<le> 2048 * int (Suc (length rss'))"
    using int_ceil_bounds [of "0x800" "int (length rss') + 1" len] by simp_all
  with directory_loop_finds [OF cd dir [unfolded rss] s1(3), of len fname found]
  obtain s' where "directory_loop E sector len fname 0 found s1 = Some (case find (rec_found fname) (concat rss) of
      None \<Rightarrow> (-2, (0, 0), s') | Some r \<Rightarrow> (0, (rec_lba r, rec_size r), s'))"
    "\<forall>x. x \<notin> region (sector_buffer E) 0x800 \<longrightarrow> cmem s' x = cmem s1 x"
    unfolding rss by blast
  with s1 show ?thesis
    by (intro exI [of _ s']) (simp add: read_directory_def mem_simps cd_drive_disc [OF cd])
qed

lemma lookup_found:
  assumes cd: "cd_drive E ph busy answer disc" and dir: "dir_on_disc disc sector rss"
    and len: "0 < len" "int (length rss) = (len + 0x7ff) div 0x800"
  shows "\<exists>s' e f. do {
      (err, found, s) \<leftarrow> read_directory E sector len (fname @ bytes '';1'') (0, 0) s;
      if err = 0 then Some (err, found, s) else read_directory E sector len (fname @ bytes ''.;1'') found s
    } = Some (e, f, s') \<and> (case iso_lookup rss fname of None \<Rightarrow> e \<noteq> 0 | Some r \<Rightarrow> e = 0 \<and> f = (rec_lba r, rec_size r)) \<and>
    (\<forall>x. x \<notin> region (sector_buffer E) 0x800 \<longrightarrow> cmem s' x = cmem s x)"
proof -
  note rd = read_directory_finds [OF cd dir len]
  obtain s1 where s1: "read_directory E sector len (fname @ bytes '';1'') (0, 0) s = Some (case find (rec_found (fname @ bytes '';1'')) (concat rss) of
      None \<Rightarrow> (-2, (0, 0), s1) | Some r \<Rightarrow> (0, (rec_lba r, rec_size r), s1))"
    "\<forall>x. x \<notin> region (sector_buffer E) 0x800 \<longrightarrow> cmem s1 x = cmem s x"
    using rd [of "fname @ bytes '';1''" "(0, 0)" s] by blast
  obtain s2 where s2: "read_directory E sector len (fname @ bytes ''.;1'') (0, 0) s1 = Some (case find (rec_found (fname @ bytes ''.;1'')) (concat rss) of
      None \<Rightarrow> (-2, (0, 0), s2) | Some r \<Rightarrow> (0, (rec_lba r, rec_size r), s2))"
    "\<forall>x. x \<notin> region (sector_buffer E) 0x800 \<longrightarrow> cmem s2 x = cmem s1 x"
    using rd [of "fname @ bytes ''.;1''" "(0, 0)" s1] by blast
  show ?thesis
  proof (cases "find (rec_found (fname @ bytes '';1'')) (concat rss)")
    case (Some r)
    then show ?thesis using s1 by (simp add: iso_lookup_def)
  next
    case None
    then show ?thesis using s1 s2
      by (cases "find (rec_found (fname @ bytes ''.;1'')) (concat rss)") (simp_all add: iso_lookup_def)
  qed
qed

lemma root_record:
  assumes "load_list m a 0x800 = d"
  shows "load_list m (a + 156) (length (take k (drop 156 d))) = take k (drop 156 d)"
proof -
  have d: "drop 156 d = load_list m (a + 156) (0x800 - 156)"
    using drop_load_list [of 156 "0x800" m a] assms by simp
  have "take k (load_list m b n) = load_list m b (min k n)" for b n
    using take_load_list [of "min k n" n m b] by (cases "k \<le> n") simp_all
  then show ?thesis unfolding d by simp
qed

lemma iso9660_loads_facts:
  assumes cd: "cd_drive E ph busy answer disc" and iso: "iso_disc disc rss"
    and size: "\<forall>r. iso_lookup rss fname = Some r \<longrightarrow> 0 \<le> sint (rec_size r) \<and> sint (rec_size r) < 2 ^ 31 - 0x800"
  shows "\<exists>s'. iso9660_load_file E fname a s = Some (case iso_lookup rss fname of None \<Rightarrow> -1 | Some r \<Rightarrow> sint (rec_size r), s') \<and>
    (\<forall>r. iso_lookup rss fname = Some r \<longrightarrow> load_list (cmem s') a (nat (sint (rec_size r)))
       = take (nat (sint (rec_size r))) (sectors disc (rec_lba r) (n_sectors (sint (rec_size r))))) \<and>
    (\<forall>x. x \<notin> region (sector_buffer E) 0x800 \<longrightarrow>
       (\<forall>r. iso_lookup rss fname = Some r \<longrightarrow> x \<notin> region a (0x800 * n_sectors (sint (rec_size r)))) \<longrightarrow> cmem s' x = cmem s x)"
proof -
  define root where "root = take (unat (disc 16 ! 156)) (drop 156 (disc 16))"
  have root: "take 8 (disc 16) = [1, 0x43, 0x44, 0x30, 0x30, 0x31, 1, 0]" "rec_ok root" "names root []" "rec_lba root \<noteq> 0"
    "0 < sint (rec_size root)" "dir_on_disc disc (rec_lba root) rss"
    "int (length rss) = (sint (rec_size root) + 0x7ff) div 0x800"
    using iso unfolding iso_disc_def Let_def root_def by blast+
  let ?b = "sector_buffer E"
  obtain s1 where s1: "read_sector E ?b 16 1 s = Some (0, s1)" "cmem s1 = store_list (cmem s) ?b (disc 16)"
    "load_list (cmem s1) ?b 0x800 = disc 16"
    using read_one_sector [OF cd, of ?b 16 s] by auto
  have sig: "load_list (cmem s1) ?b 8 = [1] @ bytes ''CD001'' @ [1, 0]"
    using take_load_list [of 8 "0x800" "cmem s1" ?b] s1(3) root(1) by (simp add: bytes_def)
  have de: "read_direntry (cmem s1) (?b + pvd_root_direntry) [] = (length root, rec_lba root, rec_size root)"
    using read_direntry_rec [OF root_record [OF s1(3), of "unat (disc 16 ! 156)", folded root_def] root(2), of "[]"] root(2,3) by (simp add: pvd_root_direntry_def)
  obtain s2 e f where s2: "do {
      (err, found, s) \<leftarrow> read_directory E (rec_lba root) (sint (rec_size root)) (fname @ bytes '';1'') (0, 0) s1;
      if err = 0 then Some (err, found, s) else read_directory E (rec_lba root) (sint (rec_size root)) (fname @ bytes ''.;1'') found s
    } = Some (e, f, s2)" "case iso_lookup rss fname of None \<Rightarrow> e \<noteq> 0 | Some r \<Rightarrow> e = 0 \<and> f = (rec_lba r, rec_size r)"
    "\<forall>x. x \<notin> region ?b 0x800 \<longrightarrow> cmem s2 x = cmem s1 x"
    using lookup_found [OF cd root(6,5,7), of fname s1] by blast
  have fr: "cmem s2 x = cmem s x" if "x \<notin> region ?b 0x800" for x
    using s2(3) s1(2) that by (simp add: mem_simps cd_drive_disc [OF cd])
  have eq: "iso9660_load_file E fname a s = (if e \<noteq> 0 then Some (-1, s2)
      else do { (ok, s) \<leftarrow> load_loop E a (fst f) (sint (snd f)) s2; Some (if ok then sint (snd f) else -1, s) })"
    using s1(1) sig de root(4) s2(1)
    by (cases "read_directory E (rec_lba root) (sint (rec_size root)) (fname @ bytes '';1'') (0, 0) s1")
      (auto simp: iso9660_load_file_def split: if_splits)
  show ?thesis
  proof (cases "iso_lookup rss fname")
    case None
    then show ?thesis unfolding eq using s2(2) fr by simp
  next
    case (Some r)
    then have sz: "0 \<le> sint (rec_size r)" "sint (rec_size r) < 2 ^ 31 - 0x800" and ef: "e = 0" "f = (rec_lba r, rec_size r)"
      using size s2(2) by auto
    let ?n = "n_sectors (sint (rec_size r))"
    obtain s3 where s3: "load_loop E a (rec_lba r) (sint (rec_size r)) s2 = Some (True, s3)"
      "cmem s3 = store_list (cmem s2) a (sectors disc (rec_lba r) ?n)"
      using load_loop_loads [OF cd sz, of a "rec_lba r" s2] by blast
    have len: "length (sectors disc (rec_lba r) ?n) = 0x800 * ?n" by (rule cd_drive_sectors [OF cd])
    have "int ?n * 0x800 \<ge> sint (rec_size r)" "int ?n * 0x800 \<le> 2 ^ 32" using sz by (simp_all add: n_sectors_def zdiv_int) 
    then have n: "nat (sint (rec_size r)) \<le> 0x800 * ?n" "0x800 * ?n \<le> 2 ^ 64" by auto
    then have "load_list (cmem s3) a (nat (sint (rec_size r))) = take (nat (sint (rec_size r))) (sectors disc (rec_lba r) ?n)"
      using take_load_list [OF n(1), of "cmem s3" a] load_store_list [of "sectors disc (rec_lba r) ?n" "cmem s2" a] s3(2) len by simp
    moreover have "cmem s3 x = cmem s x" if "x \<notin> region ?b 0x800" "x \<notin> region a (0x800 * ?n)" for x
      using that fr s3(2) len by (simp add: mem_simps)
    ultimately show ?thesis unfolding eq using ef s3(1) Some by simp
  qed
qed

text \<open>C14: With a drive that follows the packet protocol and a disc with a volume descriptor and a root directory,
  \<^verbatim>\<open>iso9660_load_file\<close> returns. If the root directory has a record for \<^verbatim>\<open>name;1\<close> or, failing that, for \<^verbatim>\<open>name.;1\<close> (upper and lower
  case being the same), the result is the size of the file and its bytes are at the address; if not, the result is -1.
  No memory is changed but the sector buffer and the whole sectors behind the address.\<close>

theorem iso9660_loads:
  assumes cd: "cd_drive E ph busy answer disc" and iso: "iso_disc disc rss"
    and size: "\<forall>r. iso_lookup rss fname = Some r \<longrightarrow> 0 \<le> sint (rec_size r) \<and> sint (rec_size r) < 2 ^ 31 - 0x800"
  shows "\<exists>s'. iso9660_load_file E fname a s = Some (case iso_lookup rss fname of None \<Rightarrow> -1 | Some r \<Rightarrow> sint (rec_size r), s') \<and>
    (\<forall>r. iso_lookup rss fname = Some r \<longrightarrow> load_list (cmem s') a (nat (sint (rec_size r)))
       = take (nat (sint (rec_size r))) (sectors disc (rec_lba r) (n_sectors (sint (rec_size r))))) \<and>
    (\<forall>x. x \<notin> region (sector_buffer E) 0x800 \<longrightarrow>
       (\<forall>r. iso_lookup rss fname = Some r \<longrightarrow> x \<notin> region a (0x800 * n_sectors (sint (rec_size r)))) \<longrightarrow> cmem s' x = cmem s x)"
  by (rule iso9660_loads_facts [OF assms])

section \<open>A drive and a disc\<close>

definition cdb_answer :: "(u32 \<Rightarrow> u8 list) \<Rightarrow> u32 list \<Rightarrow> u32 list" where
  "cdb_answer disc ws = (let b = concat (map be32_bytes ws)
     in if hd b = 0xE7 then replicate 12 0
        else words (sectors disc (be32 (b ! 2) (b ! 3) (b ! 4) (b ! 5)) (unat (b ! 7) * 256 + unat (b ! 8))))"

definition small_drive :: "(u32 \<Rightarrow> u8 list) \<Rightarrow> (phase \<times> nat) cd_env" where
  "small_drive disc = \<lparr>
     in8 = (\<lambda>r (p, b). if b > 0 then (0x80, p, b - 1)
        else (case p of Packet _ \<Rightarrow> 0x48 | Answer ws \<Rightarrow> if ws = [] then 0x40 else 0x48, p, 0)),
     in32 = (\<lambda>r (p, b). case p of Answer (w # ws) \<Rightarrow> (w, Answer ws, b) | _ \<Rightarrow> (0, p, b)),
     out8 = (\<lambda>r v (p, b). if r = 7 then (Packet [], 3) else (p, b)),
     out16 = (\<lambda>r v d. d),
     out32 = (\<lambda>r w (p, b). case p of Packet ws \<Rightarrow> (if length ws < 2 then Packet (ws @ [w]) else Answer (cdb_answer disc (ws @ [w])), 2)
        | _ \<Rightarrow> (p, b)),
     sector_buffer = 0x1000, sense_buf = 0x2000, modeb_res = 0x3000, cd_clock = (\<lambda>k. of_nat k)\<rparr>"

lemma cdb_answer_read:
  assumes "num \<le> 64"
  shows "cdb_answer disc (packet_words (read_cdb lba (int num))) = words (sectors disc lba num)"
proof -
  have b: "concat (map be32_bytes (packet_words (read_cdb lba (int num)))) = read_cdb lba (int num)"
    by (simp add: packet_words_def packet_word_def read_cdb_def be32_bytes_be32)
  have "drop_bit 8 (int num) = 0" using assms by (simp add: drop_bit_int_def)
  moreover have "unat (word_of_nat num :: u8) = num" using assms by (simp add: unsigned_of_nat take_bit_nat_eq_self)
  ultimately show ?thesis unfolding cdb_answer_def b Let_def
    by (simp add: read_cdb_def be32_be32_bytes)
qed

lemma small_drive_ok:
  assumes "\<And>l. length (disc l) = 0x800"
  shows "cd_drive (small_drive disc) fst snd (cdb_answer disc) disc"
  unfolding cd_drive_def
proof (intro conjI)
  show "status_law (small_drive disc) fst snd"
    by (auto simp: status_law_def small_drive_def ready_status_def split: if_splits phase.splits)
  show "command_law (small_drive disc) fst (cdb_answer disc)"
    by (auto simp: command_law_def small_drive_def)
  show "holds_disc (cdb_answer disc) disc"
    using assms by (auto simp: holds_disc_def cdb_answer_read)
qed

definition dir_record :: "u32 \<Rightarrow> u32 \<Rightarrow> u8 list \<Rightarrow> u8 list" where
  "dir_record lba sz name = (let n = of_nat (33 + length name)
     in [n, 0, 0, 0, 0, 0] @ be32_bytes lba @ [0, 0, 0, 0] @ be32_bytes sz @ [0, 0, 0, 0, 0, 0, 0, 0, 0, 0, 0, 0, 0, 0]
        @ [of_nat (length name)] @ name)"

definition padded :: "u8 list \<Rightarrow> u8 list" where
  "padded xs = xs @ replicate (0x800 - length xs) 0"

definition small_records :: "u8 list list" where
  "small_records = [dir_record 20 2048 [0], dir_record 30 5 (bytes ''README;1''), dir_record 21 3000 (bytes ''VMLINUX.;1'')]"

definition small_disc :: "u32 \<Rightarrow> u8 list" where
  "small_disc l = (if l = 16 then padded ([1, 0x43, 0x44, 0x30, 0x30, 0x31, 1, 0] @ replicate 148 0 @ dir_record 20 2048 [0])
     else if l = 20 then padded (concat small_records)
     else replicate 0x800 (ucast l))"

lemma small_disc_length: "length (small_disc l) = 0x800"
  by (simp add: small_disc_def padded_def small_records_def dir_record_def Let_def be32_bytes_def bytes_def)

lemma small_disc_iso: "iso_disc small_disc [small_records]"
proof -
  have d16: "drop 156 (small_disc 16) = dir_record 20 2048 [0] @ replicate 1858 0"
    by (simp add: small_disc_def padded_def dir_record_def Let_def be32_bytes_def)
  have n156: "small_disc 16 ! 156 = 34"
    using d16 nth_drop [of 156 "small_disc 16" 0] small_disc_length [of 16]
    by (simp add: dir_record_def Let_def be32_bytes_def)
  have root: "take (unat (small_disc 16 ! 156)) (drop 156 (small_disc 16)) = dir_record 20 2048 [0]"
    unfolding n156 d16 by (simp add: dir_record_def Let_def be32_bytes_def)
  have "take (Suc (length (concat small_records))) (small_disc 20) = concat small_records @ [0]"
    by (simp add: small_disc_def padded_def small_records_def dir_record_def Let_def be32_bytes_def bytes_def)
  moreover have "\<forall>r\<in>set small_records. rec_ok r"
    by (simp add: small_records_def rec_ok_def dir_record_def Let_def be32_bytes_def bytes_def)
  moreover have "names (dir_record 20 2048 [0]) []"
    by (simp add: names_def rec_name_def dir_record_def Let_def be32_bytes_def)
  moreover have "rec_lba (dir_record 20 2048 [0]) = 20" "rec_size (dir_record 20 2048 [0]) = 2048"
    by (simp_all add: rec_be32_def dir_record_def be32_bytes_def be32_def)
  moreover have "take 8 (small_disc 16) = [1, 0x43, 0x44, 0x30, 0x30, 0x31, 1, 0]"
    by (simp add: small_disc_def padded_def)
  moreover have "rec_ok (dir_record 20 2048 [0])"
    by (simp add: rec_ok_def dir_record_def Let_def be32_bytes_def)
  moreover have "small_records \<noteq> []" by (simp add: small_records_def)
  ultimately show ?thesis unfolding iso_disc_def root Let_def by simp
qed

lemma dir_record_fields:
  "length n < 200 \<Longrightarrow> rec_name (dir_record l z n) = n" "rec_lba (dir_record l z n) = l" "rec_size (dir_record l z n) = z"
  by (simp_all add: rec_name_def rec_be32_def dir_record_def Let_def be32_bytes_def be32_be32_bytes unsigned_of_nat take_bit_nat_eq_self)

lemma small_lookup:
  "iso_lookup [small_records] (bytes ''vmlinux'') = Some (dir_record 21 3000 (bytes ''VMLINUX.;1''))"
  by (simp add: iso_lookup_def small_records_def rec_found_def names_def dir_record_fields bytes_def ctoupper_lower ctoupper_other)

theorem iso9660_loads_witness:
  "\<exists>s'. iso9660_load_file (small_drive small_disc) (bytes ''vmlinux'') 0x10000 \<lparr>cmem = \<lambda>_. 7, drive = (Answer [], 0), ticks = 0\<rparr> = Some (3000, s') \<and>
    load_list (cmem s') 0x10000 3000 = take 3000 (small_disc 21 @ small_disc 22)"
proof -
  let ?s = "\<lparr>cmem = \<lambda>_. 7, drive = (Answer [], 0), ticks = 0\<rparr>" and ?f = "bytes ''vmlinux''" and ?E = "small_drive small_disc"
  let ?r = "dir_record 21 3000 (bytes ''VMLINUX.;1'')"
  have c: "cd_drive ?E fst snd (cdb_answer small_disc) small_disc"
    by (rule small_drive_ok) (rule small_disc_length)
  have fields: "rec_lba ?r = 21" "sint (rec_size ?r) = 3000" by (simp_all only: dir_record_fields) simp
  have "\<forall>r. iso_lookup [small_records] ?f = Some r \<longrightarrow> 0 \<le> sint (rec_size r) \<and> sint (rec_size r) < 2 ^ 31 - 0x800"
    unfolding small_lookup by (auto simp: fields)
  note t = iso9660_loads [OF c small_disc_iso this, of "0x10000" ?s, unfolded small_lookup option.case fields]
  then obtain s' where s': "iso9660_load_file ?E ?f 0x10000 ?s = Some (3000, s')"
    "\<forall>r. Some ?r = Some r \<longrightarrow> load_list (cmem s') 0x10000 (nat (sint (rec_size r)))
       = take (nat (sint (rec_size r))) (sectors small_disc (rec_lba r) (n_sectors (sint (rec_size r))))"
    by blast
  have n: "n_sectors 3000 = 2" by (simp add: n_sectors_def)
  have sec: "sectors small_disc 21 2 = small_disc 21 @ small_disc 22"
    by (simp add: sectors_def numeral_2_eq_2)
  have "nat 3000 = 3000" by simp
  with s'(2) have "load_list (cmem s') 0x10000 3000 = take 3000 (small_disc 21 @ small_disc 22)"
    unfolding sec [symmetric] by (metis fields n)
  with s'(1) show ?thesis by blast
qed

end
