(* ===== verification/Xell_Flash.thy ===== *)
theory Xell_Flash
  imports Xell_String "HOL-Library.Monad_Syntax"
begin
unbundle bit_operations_syntax

text \<open>
  The NAND flash driver of \<^verbatim>\<open>src/flash.c\<close>. The controller is a parameter: a state of any type and what a load from and
  a store to its registers does. The state of the code is the byte memory, the controller and the stores made so far, as
  pairs of a register number and the value given to \<^verbatim>\<open>sfcx_writereg\<close>. Waiting for a controller that stays busy is \<^term>\<open>None\<close>.
  The messages about the status of a page are left out; they change nothing.
\<close>

section \<open>Registers\<close>

record 'd sfcx =
  sfcx_load :: "addr \<Rightarrow> 'd \<Rightarrow> u32 \<times> 'd"
  sfcx_store :: "addr \<Rightarrow> u32 \<Rightarrow> 'd \<Rightarrow> 'd"

record 'd flash_state =
  flmem :: mem
  sfc :: 'd
  stores :: "(nat \<times> u32) list"

definition STATUS :: nat where "STATUS = 1"
definition COMMAND :: nat where "COMMAND = 2"
definition ADDRESS :: nat where "ADDRESS = 3"
definition DATA :: nat where "DATA = 4"

lemmas sfcx_regs = STATUS_def COMMAND_def ADDRESS_def DATA_def

definition bswap_32 :: "u32 \<Rightarrow> u32" where
  "bswap_32 t = push_bit 24 (t AND 0xFF) OR push_bit 8 (t AND 0xFF00) OR drop_bit 8 (t AND 0xFF0000) OR drop_bit 24 (t AND 0xFF000000)"

definition sfcx_writereg :: "'d sfcx \<Rightarrow> nat \<Rightarrow> u32 \<Rightarrow> 'd flash_state \<Rightarrow> 'd flash_state" where
  "sfcx_writereg E a data s = s\<lparr>sfc := sfcx_store E (0x200ea00c000 OR of_nat (a * 4)) (bswap_32 data) (sfc s),
     stores := stores s @ [(a, data)]\<rparr>"

definition sfcx_readreg :: "'d sfcx \<Rightarrow> nat \<Rightarrow> 'd flash_state \<Rightarrow> u32 \<times> 'd flash_state" where
  "sfcx_readreg E a s = (case sfcx_load E (0x200ea00c000 OR of_nat (a * 4)) (sfc s) of (v, d) \<Rightarrow> (bswap_32 v, s\<lparr>sfc := d\<rparr>))"

text \<open>Read, change and write back a register.\<close>

definition sfcx_modify :: "'d sfcx \<Rightarrow> nat \<Rightarrow> (u32 \<Rightarrow> u32) \<Rightarrow> 'd flash_state \<Rightarrow> 'd flash_state" where
  "sfcx_modify E a f s = (case sfcx_readreg E a s of (v, s) \<Rightarrow> sfcx_writereg E a (f v) s)"

partial_function (option) sfcx_wait :: "'d sfcx \<Rightarrow> 'd flash_state \<Rightarrow> (u32 \<times> 'd flash_state) option" where
  "sfcx_wait E s = (case sfcx_readreg E STATUS s of (status, s) \<Rightarrow>
     if status AND 1 \<noteq> 0 then sfcx_wait E s else Some (status, s))"

section \<open>Pages\<close>

definition load_be32 :: "mem \<Rightarrow> addr \<Rightarrow> u32" where
  "load_be32 m a = be32 (m a) (m (a + 1)) (m (a + 2)) (m (a + 3))"

fun read_words :: "nat \<Rightarrow> 'd sfcx \<Rightarrow> addr \<Rightarrow> 'd flash_state \<Rightarrow> 'd flash_state" where
  "read_words 0 E data s = s"
| "read_words (Suc n) E data s =
     (let s = sfcx_writereg E COMMAND 0 s;
          (v, s) = sfcx_readreg E DATA s
      in read_words n E (data + 4) (s\<lparr>flmem := store_list (flmem s) data (be32_bytes (bswap_32 v))\<rparr>))"

definition readsector :: "'d sfcx \<Rightarrow> addr \<Rightarrow> u32 \<Rightarrow> bool \<Rightarrow> 'd flash_state \<Rightarrow> 'd flash_state option" where
  "readsector E data sector raw s =
     (let s = sfcx_modify E STATUS (\<lambda>v. v) s;
          s = sfcx_writereg E ADDRESS sector s;
          s = sfcx_writereg E COMMAND (if raw then 3 else 2) s
      in do {
        (status, s) \<leftarrow> sfcx_wait E s;
        let s = sfcx_writereg E ADDRESS 0 s;
        Some (read_words (0x210 div 4) E data s)
      })"

definition flash_erase :: "'d sfcx \<Rightarrow> u32 \<Rightarrow> 'd flash_state \<Rightarrow> 'd flash_state option" where
  "flash_erase E address s =
     (let s = sfcx_modify E 0 (\<lambda>v. v OR 8) s;
          s = sfcx_writereg E STATUS 0xFF s;
          s = sfcx_writereg E ADDRESS address s
      in do {
        (_, s) \<leftarrow> sfcx_wait E s;
        let s = sfcx_writereg E COMMAND 0xAA s;
        let s = sfcx_writereg E COMMAND 0x55 s;
        (_, s) \<leftarrow> sfcx_wait E s;
        let s = sfcx_writereg E COMMAND 0x5 s;
        (_, s) \<leftarrow> sfcx_wait E s;
        let (status, s) = sfcx_readreg E STATUS s;
        let s = sfcx_writereg E STATUS 0xFF s;
        Some (sfcx_modify E 0 (\<lambda>v. v AND NOT 8) s)
      })"

fun write_words :: "nat \<Rightarrow> 'd sfcx \<Rightarrow> addr \<Rightarrow> 'd flash_state \<Rightarrow> 'd flash_state" where
  "write_words 0 E data s = s"
| "write_words (Suc n) E data s =
     write_words n E (data + 4) (sfcx_writereg E COMMAND 1 (sfcx_writereg E DATA (bswap_32 (load_be32 (flmem s) data)) s))"

definition write_page :: "'d sfcx \<Rightarrow> u32 \<Rightarrow> addr \<Rightarrow> 'd flash_state \<Rightarrow> 'd flash_state option" where
  "write_page E address data s =
     (let s = sfcx_writereg E STATUS 0xFF s;
          s = sfcx_modify E 0 (\<lambda>v. v OR 8) s;
          s = sfcx_writereg E ADDRESS 0 s;
          s = write_words (0x210 div 4) E data s;
          s = sfcx_writereg E ADDRESS address s;
          s = sfcx_writereg E COMMAND 0x55 s
      in do {
        (_, s) \<leftarrow> sfcx_wait E s;
        let s = sfcx_writereg E COMMAND 0xAA s;
        (_, s) \<leftarrow> sfcx_wait E s;
        let s = sfcx_writereg E COMMAND 0x4 s;
        (_, s) \<leftarrow> sfcx_wait E s;
        let (status, s) = sfcx_readreg E STATUS s;
        Some (sfcx_modify E 0 (\<lambda>v. v AND NOT 8) s)
      })"

section \<open>The error correction code\<close>

text \<open>\<open>v\<close> has no value before the first word is loaded; 0 stands for it.\<close>

fun calcecc_loop :: "nat \<Rightarrow> nat \<Rightarrow> u32 \<Rightarrow> u32 \<Rightarrow> addr \<Rightarrow> mem \<Rightarrow> u32" where
  "calcecc_loop 0 i v val data m = val"
| "calcecc_loop (Suc n) i v val data m =
     (let (v, data) = (if i AND 31 = 0 then (NOT (bswap_32 (load_be32 m data)), data + 4) else (v, data));
          val = val XOR (v AND 1);
          v = drop_bit 1 v;
          val = (if val AND 1 \<noteq> 0 then val XOR 0x6954559 else val)
      in calcecc_loop n (i + 1) v (drop_bit 1 val) data m)"

definition calcecc :: "addr \<Rightarrow> mem \<Rightarrow> mem" where
  "calcecc data m =
     (let edc = data + 0x200;
          val = NOT (calcecc_loop 0x1066 0 0 0 data m);
          m = m(edc + 0xC := m (edc + 0xC) OR ucast (push_bit 6 val AND 0xC0));
          m = m(edc + 0xD := ucast (drop_bit 2 val AND 0xFF));
          m = m(edc + 0xE := ucast (drop_bit 10 val AND 0xFF))
      in m(edc + 0xF := ucast (drop_bit 18 val AND 0xFF)))"

section \<open>What the code detects\<close>

text \<open>The bits of a page that the code covers, and the register of the code after each.\<close>

definition page_bit :: "mem \<Rightarrow> addr \<Rightarrow> nat \<Rightarrow> bool" where
  "page_bit m a i \<longleftrightarrow> bit (m (a + of_nat (i div 8))) (i mod 8)"

definition ecc_poly :: u32 where "ecc_poly = 0x6954559"

definition ecc_shift :: "u32 \<Rightarrow> u32" where
  "ecc_shift x = drop_bit 1 (if bit x 0 then x XOR ecc_poly else x)"

definition ecc_step :: "bool \<Rightarrow> u32 \<Rightarrow> u32" where
  "ecc_step b x = ecc_shift (x XOR of_bool b)"

definition ecc_field :: "mem \<Rightarrow> addr \<Rightarrow> u32" where
  "ecc_field m a = ucast (drop_bit 6 (m (a + 0x20C))) OR push_bit 2 (ucast (m (a + 0x20D)))
     OR push_bit 10 (ucast (m (a + 0x20E))) OR push_bit 18 (ucast (m (a + 0x20F)))"

lemma byte_masks: "(0xFF :: u32) = mask 8" "(0xFF00 :: u32) = push_bit 8 (mask 8)" "(0xFF0000 :: u32) = push_bit 16 (mask 8)"
    "(0xFF000000 :: u32) = push_bit 24 (mask 8)"
  by (simp_all add: mask_eq_exp_minus_1 push_bit_eq_mult)

lemma bswap_be32: "bswap_32 (be32 a b c d) = be32 d c b a"
proof (rule bit_word_eqI)
  fix n assume "n < LENGTH(32)"
  then consider "n < 8" | "8 \<le> n \<and> n < 16" | "16 \<le> n \<and> n < 24" | "24 \<le> n \<and> n < 32"
    by fastforce
  then show "bit (bswap_32 (be32 a b c d)) n = bit (be32 d c b a) n"
    unfolding bswap_32_def byte_masks by cases (auto simp: be32_def bit_simps u8_bit_high)
qed

lemma bswap_load_bit:
  assumes "j < 32"
  shows "bit (bswap_32 (load_be32 m a)) j = page_bit m a j"
proof -
  have "j < 8 \<or> (8 \<le> j \<and> j < 16) \<or> (16 \<le> j \<and> j < 24) \<or> (24 \<le> j \<and> j < 32)" using assms by linarith
  then consider "j < 8" | "8 \<le> j" "j < 16" | "16 \<le> j" "j < 24" | "24 \<le> j" "j < 32" by blast
  then show ?thesis
  proof cases
    case 1
    then show ?thesis unfolding load_be32_def bswap_be32 by (auto simp: be32_def page_bit_def bit_simps u8_bit_high)
  next
    case 2
    then have "j div 8 = 1" "j mod 8 = j - 8" by (auto simp: le_div_geq le_mod_geq)
    with 2 show ?thesis unfolding load_be32_def bswap_be32 by (auto simp: be32_def page_bit_def bit_simps u8_bit_high)
  next
    case 3
    then have "j div 8 = 2" "j mod 8 = j - 16" by (auto simp: le_div_geq le_mod_geq)
    with 3 show ?thesis unfolding load_be32_def bswap_be32 by (auto simp: be32_def page_bit_def bit_simps u8_bit_high)
  next
    case 4
    then have "j div 8 = 3" "j mod 8 = j - 24" by (auto simp: le_div_geq le_mod_geq)
    with 4 show ?thesis unfolding load_be32_def bswap_be32 by (auto simp: be32_def page_bit_def bit_simps u8_bit_high)
  qed
qed

lemma bswap_32_bswap_32 [simp]: "bswap_32 (bswap_32 w) = w"
  using be32_be32_bytes [of w] by (metis bswap_be32)

lemma calcecc_loop_step:
  assumes "v' = (if i AND 31 = 0 then NOT (bswap_32 (load_be32 m data)) else v)"
  shows "calcecc_loop (Suc n) i v val data m = calcecc_loop n (i + 1) (drop_bit 1 v')
    (drop_bit 1 (if (val XOR (v' AND 1)) AND 1 \<noteq> 0 then (val XOR (v' AND 1)) XOR 0x6954559 else val XOR (v' AND 1)))
    (if i AND 31 = 0 then data + 4 else data) m"
  unfolding assms by (cases "i AND 31 = 0") (simp_all only: calcecc_loop.simps Let_def if_True if_False prod.case simp_thms)

text \<open>The loop is a fold of the step over the complemented bits, in the order of the bytes and from the least bit on.\<close>

lemma calcecc_loop_fold:
  assumes "v = drop_bit (i mod 32) (NOT (bswap_32 (load_be32 m (a + of_nat (4 * (i div 32)))))) \<or> i mod 32 = 0"
  shows "calcecc_loop n i v x (a + of_nat (4 * ((i + 31) div 32))) m = fold (\<lambda>j. ecc_step (\<not> page_bit m a j)) [i..<i + n] x"
  using assms
proof (induction n arbitrary: i v x)
  case (Suc n)
  let ?w = "NOT (bswap_32 (load_be32 m (a + of_nat (4 * (i div 32)))))"
  define v' where "v' = (if i AND 31 = 0 then ?w else v)"
  have and31: "i AND 31 = i mod 32" using take_bit_eq_mask [of 5 i] by (simp add: take_bit_nat_def mask_eq_exp_minus_1)
  have v': "v' = drop_bit (i mod 32) ?w" using Suc.prems by (auto simp: v'_def and31)
  have pb: "page_bit m (a + of_nat (4 * (i div 32))) (i mod 32) = page_bit m a i"
  proof -
    have "(i mod 32 + 8 * k) div 8 = k + i mod 32 div 8" "(i mod 32 + 8 * k) mod 8 = i mod 32 mod 8" for k by simp_all
    moreover have "i = i mod 32 + 8 * (4 * (i div 32))" by simp
    ultimately have "4 * (i div 32) + i mod 32 div 8 = i div 8" "i mod 32 mod 8 = i mod 8" by metis+
    then show ?thesis unfolding page_bit_def by (simp only: add.assoc of_nat_add [symmetric])
  qed
  have b0: "bit v' 0 = (\<not> page_bit m a i)"
    using bswap_load_bit [of "i mod 32" m "a + of_nat (4 * (i div 32))"] pb unfolding v'
    by (simp add: bit_drop_bit_eq bit_not_iff_eq not_le)
  then have low: "v' AND 1 = of_bool (\<not> page_bit m a i)" by (simp add: and_one_eq mod_2_eq_odd bit_0)
  have step: "drop_bit 1 (if (x XOR (v' AND 1)) AND 1 \<noteq> 0 then (x XOR (v' AND 1)) XOR 0x6954559 else x XOR (v' AND 1))
      = ecc_step (\<not> page_bit m a i) x"
    unfolding low ecc_step_def ecc_shift_def ecc_poly_def by (simp add: and_one_eq mod_2_eq_odd bit_0)
  have dp: "(if i AND 31 = 0 then a + of_nat (4 * ((i + 31) div 32)) + 4 else a + of_nat (4 * ((i + 31) div 32)))
      = a + of_nat (4 * ((Suc i + 31) div 32))"
  proof (cases "i mod 32 = 0")
    case True
    then obtain q where "i = 32 * q" by auto
    then have "(Suc i + 31) div 32 = (i + 31) div 32 + 1" by simp
    then show ?thesis using True unfolding and31 by (simp add: algebra_simps)
  next
    case False
    have "(32 * q + r + 31) div 32 = q + 1 \<and> (Suc (32 * q + r) + 31) div 32 = q + 1" if "0 < r" "r < 32" for q r :: nat
      using that by (auto intro!: div_nat_eqI)
    from this [of "i mod 32" "i div 32"] False have "(i + 31) div 32 = i div 32 + 1 \<and> (Suc i + 31) div 32 = i div 32 + 1"
      by simp
    then have "(Suc i + 31) div 32 = (i + 31) div 32" by simp
    then show ?thesis using False unfolding and31 by simp
  qed
  have ld: "i AND 31 = 0 \<Longrightarrow> (i + 31) div 32 = i div 32" unfolding and31 by auto
  have vl: "v' = (if i AND 31 = 0 then NOT (bswap_32 (load_be32 m (a + of_nat (4 * ((i + 31) div 32))))) else v)"
    unfolding v'_def using ld by simp
  have "calcecc_loop (Suc n) i v x (a + of_nat (4 * ((i + 31) div 32))) m =
      calcecc_loop n (Suc i) (drop_bit 1 v') (ecc_step (\<not> page_bit m a i) x) (a + of_nat (4 * ((Suc i + 31) div 32))) m"
    using calcecc_loop_step [OF vl, of n x] by (simp only: step dp Suc_eq_plus1 [symmetric])
  also have "\<dots> = fold (\<lambda>j. ecc_step (\<not> page_bit m a j)) [Suc i..<Suc i + n] (ecc_step (\<not> page_bit m a i) x)"
  proof (rule Suc.IH)
    show "drop_bit 1 v' = drop_bit (Suc i mod 32) (NOT (bswap_32 (load_be32 m (a + of_nat (4 * (Suc i div 32)))))) \<or> Suc i mod 32 = 0"
    proof (cases "Suc i mod 32 = 0")
      case False
      then have "Suc i mod 32 = Suc (i mod 32)" "Suc i div 32 = i div 32" by (auto simp: mod_Suc div_Suc)
      then show ?thesis unfolding v' by (simp add: drop_bit_drop_bit)
    qed simp
  qed
  also have "\<dots> = fold (\<lambda>j. ecc_step (\<not> page_bit m a j)) [i..<i + Suc n] x"
    by (simp add: upt_conv_Cons del: upt_Suc)
  finally show ?case .
qed simp

lemma ecc_poly_bits: "bit ecc_poly 26" "bit ecc_poly 0" "n > 26 \<Longrightarrow> \<not> bit ecc_poly n"
proof -
  show "bit ecc_poly 26" "bit ecc_poly 0" by (simp_all add: ecc_poly_def)
  show "\<not> bit ecc_poly n" if "n > 26"
  proof -
    have "ecc_poly = take_bit 27 ecc_poly" by (simp add: ecc_poly_def)
    then have "bit ecc_poly n = (n < 27 \<and> bit ecc_poly n)" by (metis bit_take_bit_iff)
    with that show ?thesis by simp
  qed
qed

lemma ecc_shift_xor: "ecc_shift (x XOR y) = ecc_shift x XOR ecc_shift y"
  by (rule bit_word_eqI) (auto simp: ecc_shift_def bit_xor_iff bit_drop_bit_eq)

lemma ecc_shift_0 [simp]: "ecc_shift 0 = 0"
  by (simp add: ecc_shift_def)

text \<open>On 26 bits the shift is injective: nothing but 0 becomes 0.\<close>

definition low26 :: "u32 \<Rightarrow> bool" where
  "low26 x \<longleftrightarrow> (\<forall>n\<ge>26. \<not> bit x n)"

lemma ecc_shift_nonzero:
  assumes "low26 x"
  shows "low26 (ecc_shift x)" and "x \<noteq> 0 \<Longrightarrow> ecc_shift x \<noteq> 0"
proof -
  show "low26 (ecc_shift x)"
    using assms ecc_poly_bits(3) by (auto simp: low26_def ecc_shift_def bit_drop_bit_eq bit_xor_iff)
  show "ecc_shift x \<noteq> 0" if "x \<noteq> 0"
  proof (cases "bit x 0")
    case True
    then have "bit (ecc_shift x) 25"
      using assms ecc_poly_bits(1) by (simp add: ecc_shift_def bit_drop_bit_eq bit_xor_iff low26_def)
    then show ?thesis by force
  next
    case False
    from that obtain n where n: "bit x n" by (auto simp: bit_eq_iff)
    with False have "n > 0" by (cases n) auto
    with n have "bit (ecc_shift x) (n - 1)" using False by (simp add: ecc_shift_def bit_drop_bit_eq)
    then show ?thesis by force
  qed
qed

lemma ecc_shift_push: "bit p 31 = False \<Longrightarrow> ecc_shift (x XOR 2 * p) = ecc_shift x XOR p"
proof -
  assume p: "bit p 31 = False"
  have "drop_bit 1 (2 * p) = p"
  proof (rule bit_word_eqI)
    fix n assume "n < LENGTH(32)"
    then have "n < 31 \<or> n = 31" by auto
    then show "bit (drop_bit 1 (2 * p)) n = bit p n" using p by (auto simp: bit_drop_bit_eq bit_double_iff)
  qed
  then have "ecc_shift (2 * p) = p" by (simp add: ecc_shift_def bit_double_iff)
  then show ?thesis by (simp add: ecc_shift_xor)
qed

fun pack :: "bool list \<Rightarrow> u32" where
  "pack [] = 0"
| "pack (b # bs) = of_bool b XOR 2 * pack bs"

lemma pack_bits: "bit (pack bs) n \<Longrightarrow> n < length bs \<and> bs ! n"
proof (induction bs arbitrary: n)
  case (Cons b bs)
  then show ?case by (cases n) (auto simp: bit_xor_iff bit_double_iff bit_of_bool_iff)
qed simp

lemma ecc_fold_pack:
  "length bs \<le> 26 \<Longrightarrow> fold ecc_step bs x = (ecc_shift ^^ length bs) (x XOR pack bs)"
proof (induction bs arbitrary: x)
  case (Cons b bs)
  have "bit (pack bs) 31 = False" using pack_bits [of bs 31] Cons.prems by auto
  then have "ecc_shift (x XOR of_bool b) XOR pack bs = ecc_shift ((x XOR of_bool b) XOR 2 * pack bs)"
    by (simp only: ecc_shift_push)
  then show ?case using Cons by (simp add: ecc_step_def funpow_swap1 xor.assoc)
qed simp

lemma ecc_shift_pow: "low26 x \<Longrightarrow> x \<noteq> 0 \<Longrightarrow> low26 ((ecc_shift ^^ n) x) \<and> (ecc_shift ^^ n) x \<noteq> 0"
  by (induction n) (simp_all add: ecc_shift_nonzero)

lemma low26_step: "low26 x \<Longrightarrow> low26 (ecc_step b x)"
  unfolding ecc_step_def by (rule ecc_shift_nonzero) (auto simp: low26_def bit_xor_iff bit_of_bool_iff)

lemma low26_fold: "low26 x \<Longrightarrow> low26 (fold (\<lambda>j. ecc_step (f j)) js x)"
  by (induction js arbitrary: x) (auto intro: low26_step)

lemma ecc_fold_xor:
  "fold (\<lambda>j. ecc_step (f j)) js x XOR fold (\<lambda>j. ecc_step (g j)) js y = fold (\<lambda>j. ecc_step (f j \<noteq> g j)) js (x XOR y)"
proof (induction js arbitrary: x y)
  case (Cons j js)
  have "ecc_step (f j) x XOR ecc_step (g j) y = ecc_step (f j \<noteq> g j) (x XOR y)"
    unfolding ecc_step_def ecc_shift_xor [symmetric]
    by (rule arg_cong [where f = ecc_shift]) (auto simp: bit_eq_iff bit_xor_iff bit_of_bool_iff)
  with Cons show ?case by simp
qed simp

lemma ecc_fold_quiet:
  assumes "\<forall>j\<in>set js. \<not> d j"
  shows "fold (\<lambda>j. ecc_step (d j)) js x = (ecc_shift ^^ length js) x"
  using assms by (induction js arbitrary: x) (simp_all add: ecc_step_def funpow_swap1)

text \<open>A burst of differences in at most 26 consecutive bits leaves a difference in the register.\<close>

lemma ecc_burst:
  assumes "i < n" and "d i" and burst: "\<forall>j<n. d j \<longrightarrow> i \<le> j \<and> j < i + 26"
  shows "fold (\<lambda>j. ecc_step (d j)) [0..<n] 0 \<noteq> 0"
proof -
  define k where "k = min n (i + 26)"
  have k: "i < k" "k \<le> n" "k \<le> i + 26" using assms(1) by (auto simp: k_def)
  have split: "[0..<n] = [0..<i] @ [i..<k] @ [k..<n]"
    using k upt_add_eq_append [of 0 i "n - i"] upt_add_eq_append [of i k "n - k"] by simp
  have z: "(ecc_shift ^^ p) 0 = 0" for p by (induction p) auto
  have first: "fold (\<lambda>j. ecc_step (d j)) [0..<i] 0 = 0"
  proof -
    have "\<forall>j\<in>set [0..<i]. \<not> d j"
    proof
      fix j assume "j \<in> set [0..<i]"
      then have "j < i" "j < n" using k by auto
      with burst show "\<not> d j" by force
    qed
    from ecc_fold_quiet [OF this, of 0] show ?thesis by (simp add: z)
  qed
  let ?bs = "map d [i..<k]"
  have mid: "fold (\<lambda>j. ecc_step (d j)) [i..<k] 0 = (ecc_shift ^^ length ?bs) (pack ?bs)"
    using ecc_fold_pack [of ?bs 0] k by (simp add: fold_map comp_def)
  have "[i..<k] = i # [Suc i..<k]" using k by (simp add: upt_conv_Cons)
  then have "bit (pack ?bs) 0" using assms(2) by (simp add: bit_xor_iff bit_double_iff)
  then have nz: "pack ?bs \<noteq> 0" by force
  have "low26 (pack ?bs)" unfolding low26_def using pack_bits [of ?bs] k by fastforce
  then have m: "low26 (fold (\<lambda>j. ecc_step (d j)) [i..<k] 0)" "fold (\<lambda>j. ecc_step (d j)) [i..<k] 0 \<noteq> 0"
    unfolding mid using ecc_shift_pow nz by blast+
  have "\<forall>j\<in>set [k..<n]. \<not> d j" using burst k by (fastforce simp: k_def)
  then have "fold (\<lambda>j. ecc_step (d j)) [k..<n] (fold (\<lambda>j. ecc_step (d j)) [i..<k] 0) \<noteq> 0"
    using ecc_fold_quiet [of "[k..<n]" d] ecc_shift_pow [OF m] by simp
  then show ?thesis unfolding split by (simp add: first)
qed

lemma calcecc_loop_ecc: "calcecc_loop n 0 0 0 a m = fold (\<lambda>j. ecc_step (\<not> page_bit m a j)) [0..<n] 0"
  using calcecc_loop_fold [of 0 0 m a n 0] by simp

lemma calcecc_field:
  assumes "m (a + 0x20C) AND 0xC0 = 0"
  shows "ecc_field (calcecc a m) a = take_bit 26 (NOT (calcecc_loop 0x1066 0 0 0 a m))"
proof -
  define val where "val = NOT (calcecc_loop 0x1066 0 0 0 a m)"
  have c0: "(0xC0 :: u8) = push_bit 6 (mask 2)" "(0xC0 :: u32) = push_bit 6 (mask 2)"
    by (simp_all add: mask_eq_exp_minus_1 push_bit_eq_mult)
  have top: "\<not> bit (m (a + 0x20C)) n" if "n = 6 \<or> n = 7" for n
  proof -
    have "\<not> bit (m (a + 0x20C) AND push_bit 6 (mask 2)) n" using assms unfolding c0 by simp
    with that show ?thesis by (auto simp: bit_and_iff bit_push_bit_iff bit_mask_iff)
  qed
  have v0: "drop_bit 6 (m (a + 0x20C) OR ucast (push_bit 6 val AND 0xC0)) = (ucast (take_bit 2 val) :: u8)"
    unfolding c0
  proof (rule bit_word_eqI)
    fix n assume "n < LENGTH(8)"
    then have "n < 2 \<or> n \<ge> 2" by auto
    then show "bit (drop_bit 6 (m (a + 0x20C) OR ucast (push_bit 6 val AND push_bit 6 (mask 2)))) n = bit (ucast (take_bit 2 val) :: u8) n"
      using top [of 6] top [of 7] u8_bit_high [of "6 + n" "m (a + 0x20C)"]
      by (auto simp: bit_simps less_2_cases_iff)
  qed
  have bytes: "calcecc a m (a + 0x20C) = m (a + 0x20C) OR ucast (push_bit 6 val AND 0xC0)"
    "calcecc a m (a + 0x20D) = ucast (drop_bit 2 val AND 0xFF)"
    "calcecc a m (a + 0x20E) = ucast (drop_bit 10 val AND 0xFF)"
    "calcecc a m (a + 0x20F) = ucast (drop_bit 18 val AND 0xFF)"
    unfolding calcecc_def Let_def val_def [symmetric] by (simp_all add: add.assoc)
  show ?thesis unfolding val_def [symmetric]
  proof (rule bit_word_eqI)
    fix n assume "n < LENGTH(32)"
    then consider "n < 2" | "2 \<le> n \<and> n < 10" | "10 \<le> n \<and> n < 18" | "18 \<le> n \<and> n < 26" | "26 \<le> n \<and> n < 32" by fastforce
    moreover have "2 \<le> n \<Longrightarrow> Suc (Suc (n - 2)) = n" by simp
    ultimately show "bit (ecc_field (calcecc a m) a) n = bit (take_bit 26 val) n"
      unfolding ecc_field_def bytes v0 byte_masks by cases (auto simp: bit_simps u8_bit_high)
  qed
qed

text \<open>C15: The code \<^verbatim>\<open>calcecc\<close> stores in the spare bytes detects every burst of errors: when two pages differ in the covered bits, and
  all of these differences lie within 26 consecutive bits, their codes differ.\<close>

theorem calcecc_detects_bursts:
  assumes i: "i < 0x1066" "page_bit m a i \<noteq> page_bit m' a i"
    and burst: "\<forall>j<0x1066. page_bit m a j \<noteq> page_bit m' a j \<longrightarrow> i \<le> j \<and> j < i + 26"
    and free: "m (a + 0x20C) AND 0xC0 = 0" "m' (a + 0x20C) AND 0xC0 = 0"
  shows "ecc_field (calcecc a m) a \<noteq> ecc_field (calcecc a m') a"
proof -
  let ?v = "\<lambda>m. calcecc_loop 0x1066 0 0 0 a m"
  have "?v m XOR ?v m' = fold (\<lambda>j. ecc_step (page_bit m a j \<noteq> page_bit m' a j)) [0..<0x1066] 0"
    unfolding calcecc_loop_ecc ecc_fold_xor by (rule fold_cong) auto
  then have "?v m XOR ?v m' \<noteq> 0"
    using ecc_burst [of i "0x1066" "\<lambda>j. page_bit m a j \<noteq> page_bit m' a j", OF i burst] by simp
  then have ne: "?v m \<noteq> ?v m'" by auto
  have low: "low26 (?v m)" for m unfolding calcecc_loop_ecc by (rule low26_fold) (simp add: low26_def)
  obtain n where n: "bit (?v m) n \<noteq> bit (?v m') n" using ne by (auto simp: bit_eq_iff)
  then have "n < 26" using low [of m] low [of m'] unfolding low26_def by (meson not_le)
  then have "bit (take_bit 26 (NOT (?v m))) n \<noteq> bit (take_bit 26 (NOT (?v m'))) n"
    using n by (auto simp: bit_take_bit_iff bit_not_iff)
  then show ?thesis unfolding calcecc_field [of m, OF free(1)] calcecc_field [of m', OF free(2)] by metis
qed

theorem calcecc_detects_bursts_witness:
  "ecc_field (calcecc 0x1000 (\<lambda>_. 0)) 0x1000 \<noteq> ecc_field (calcecc 0x1000 ((\<lambda>_. 0)(0x1001 := 5))) 0x1000"
proof (rule calcecc_detects_bursts [of 8])
  show "\<forall>j<0x1066. page_bit (\<lambda>_. 0) 0x1000 j \<noteq> page_bit ((\<lambda>_. 0)(0x1001 := 5)) 0x1000 j \<longrightarrow> 8 \<le> j \<and> j < 8 + 26"
  proof (intro allI impI)
    fix j :: nat assume j: "j < 0x1066" "page_bit (\<lambda>_. 0) 0x1000 j \<noteq> page_bit ((\<lambda>_. 0)(0x1001 := 5)) 0x1000 j"
    then have "0x1000 + of_nat (j div 8) = (0x1001 :: u64)" by (auto simp: page_bit_def split: if_splits)
    then have "of_nat (j div 8) = (of_nat 1 :: u64)" by (simp add: algebra_simps) 
    then have "j div 8 = 1" using j(1) by (subst (asm) of_nat_u64_inj) auto
    then show "8 \<le> j \<and> j < 8 + 26" by auto
  qed
qed (simp_all add: page_bit_def)

end
