(* ===== verification/Xell_Update.thy ===== *)
theory Xell_Update
  imports Xell_Flash
begin
unbundle bit_operations_syntax

text \<open>
  The update of the loader in flash, \<^verbatim>\<open>update_xell_flash\<close> of \<^verbatim>\<open>src/main.c\<close>, on the driver of \<^verbatim>\<open>src/flash.c\<close>. The places of its
  local arrays are parameters. The function never returns; the model stops where it enters its endless loop and tells
  whether it came there after the update or by a refusal.
\<close>

section \<open>The update\<close>

datatype update_result = Refused | Done

definition eraseblock_size :: nat where "eraseblock_size = 16384"
definition OFFSET :: nat where "OFFSET = 1024 * 1024"

definition fill_page :: "addr \<Rightarrow> addr \<Rightarrow> u32 \<Rightarrow> u32 \<Rightarrow> nat \<Rightarrow> mem \<Rightarrow> mem" where
  "fill_page block xell_address file_size phys_pos off m =
     (let m = memset block 0xff 0x200 m;
          m = (if file_size > of_nat off then memcpy block (xell_address + of_nat off) 0x200 m else m);
          m = memset (block + 0x200) 0 0x10 m;
          m = store_list m (block + 0x200) (be32_bytes (bswap_32 (phys_pos div of_nat eraseblock_size)));
          m = m(block + 0x205 := 0xFF)
      in calcecc block m)"

fun update_pages :: "nat \<Rightarrow> 'd sfcx \<Rightarrow> addr \<Rightarrow> addr \<Rightarrow> u32 \<Rightarrow> u32 \<Rightarrow> nat \<Rightarrow> nat \<Rightarrow> 'd flash_state \<Rightarrow> 'd flash_state option" where
  "update_pages 0 E block xell_address file_size phys_pos a j s = Some s"
| "update_pages (Suc n) E block xell_address file_size phys_pos a j s =
     (let s = s\<lparr>flmem := fill_page block xell_address file_size phys_pos (a + j * 0x200) (flmem s)\<rparr>
      in do {
        s \<leftarrow> write_page E (phys_pos + of_nat (j * 0x200)) block s;
        s \<leftarrow> readsector E block (phys_pos + of_nat (j * 0x200)) False s;
        update_pages n E block xell_address file_size phys_pos a (j + 1) s
      })"

fun update_blocks :: "nat \<Rightarrow> 'd sfcx \<Rightarrow> addr \<Rightarrow> addr \<Rightarrow> u32 \<Rightarrow> nat \<Rightarrow> 'd flash_state \<Rightarrow> 'd flash_state option" where
  "update_blocks 0 E block xell_address file_size a s = Some s"
| "update_blocks (Suc n) E block xell_address file_size a s =
     (let flash_addr = of_nat (a + OFFSET)
      in do {
        s \<leftarrow> readsector E block flash_addr False s;
        let (phys_pos, s) = sfcx_readreg E 6 s;
        let phys_pos = (if phys_pos AND 0x04000000 = 0 then flash_addr else phys_pos);
        let phys_pos = phys_pos AND 0x3fffe00;
        s \<leftarrow> flash_erase E phys_pos s;
        s \<leftarrow> update_pages (eraseblock_size div 0x200) E block xell_address file_size phys_pos a 0 s;
        update_blocks n E block xell_address file_size (a + eraseblock_size) s
      })"

definition update_xell_flash ::
    "'d sfcx \<Rightarrow> addr \<Rightarrow> addr \<Rightarrow> addr \<Rightarrow> u32 \<Rightarrow> 'd flash_state \<Rightarrow> (update_result \<times> 'd flash_state) option" where
  "update_xell_flash E hdr block xell_address file_size s =
     (let s = sfcx_modify E 0 (\<lambda>v. v AND NOT (4 OR 8 OR 0x3c0)) s;
          (config, s) = sfcx_readreg E 0 s
      in if config \<noteq> 0x01198010 then Some (Refused, snd (sfcx_readreg E 0 s))
         else do {
           s \<leftarrow> readsector E hdr 0 False s;
           if load_list (flmem s) (hdr + 0x10) 0x1c \<noteq> bytes ''zeropair image, version=00, '' then Some (Refused, s)
           else if load_list (flmem s) xell_address 4 = 0x7f # bytes ''ELF'' then Some (Refused, s)
           else do {
             s \<leftarrow> update_blocks (0x40000 div eraseblock_size) E block xell_address file_size 0 s;
             Some (Done, s)
           }
         })"

section \<open>Waiting\<close>

text \<open>A controller is not busy for ever: each status it gives while it is busy brings the end nearer.\<close>

definition ready_law :: "'d sfcx \<Rightarrow> ('d \<Rightarrow> nat) \<Rightarrow> bool" where
  "ready_law E busy \<longleftrightarrow> (\<forall>d. let (v, d') = sfcx_load E (0x200ea00c000 OR of_nat (STATUS * 4)) d
     in bswap_32 v AND 1 \<noteq> 0 \<longrightarrow> busy d' < busy d)"

definition same_mem :: "'d flash_state \<Rightarrow> 'd flash_state \<Rightarrow> (nat \<times> u32) list \<Rightarrow> bool" where
  "same_mem s s' L \<longleftrightarrow> flmem s' = flmem s \<and> stores s' = stores s @ L"

lemma same_mem_trans: "same_mem s s' L \<Longrightarrow> same_mem s' s'' L' \<Longrightarrow> same_mem s s'' (L @ L')"
  by (simp add: same_mem_def)

lemma sfcx_wait_returns:
  assumes "ready_law E busy"
  shows "\<exists>st s'. sfcx_wait E s = Some (st, s') \<and> same_mem s s' []"
proof (induction "busy (sfc s)" arbitrary: s rule: less_induct)
  case less
  obtain v d where r: "sfcx_load E (0x200ea00c000 OR of_nat (STATUS * 4)) (sfc s) = (v, d)" by fastforce
  show ?case
  proof (cases "bswap_32 v AND 1 = 0")
    case True
    with r show ?thesis by (subst sfcx_wait.simps) (simp add: sfcx_readreg_def same_mem_def)
  next
    case False
    then have "busy (sfc (s\<lparr>sfc := d\<rparr>)) < busy (sfc s)"
      using assms r unfolding ready_law_def by (auto simp: Let_def dest: spec [of _ "sfc s"])
    from less [OF this] r False show ?thesis by (subst sfcx_wait.simps) (simp add: sfcx_readreg_def same_mem_def)
  qed
qed

lemma writereg_same: "same_mem s (sfcx_writereg E a v s) [(a, v)]"
  by (simp add: same_mem_def sfcx_writereg_def)

lemma readreg_same: "same_mem s (snd (sfcx_readreg E a s)) []"
  by (simp add: same_mem_def sfcx_readreg_def split: prod.splits)

lemma modify_same: "\<exists>c. same_mem s (sfcx_modify E a f s) [(a, c)]"
  by (auto simp: same_mem_def sfcx_modify_def sfcx_readreg_def sfcx_writereg_def split: prod.splits)

section \<open>The operations in a sequence of stores\<close>

text \<open>
  The controller programs the words that were transferred from \<^verbatim>\<open>DATA\<close> into its buffer since the address was set before the
  first of them, and erases or programs at the address that was set last. \<open>f\<close> tells that no word was transferred yet since then.
\<close>

datatype flash_op = Erase u32 | Program u32 "u32 list"

fun flash_ops :: "u32 \<Rightarrow> bool \<Rightarrow> u32 \<Rightarrow> u32 list \<Rightarrow> (nat \<times> u32) list \<Rightarrow> flash_op list" where
  "flash_ops a f d b [] = []"
| "flash_ops a f d b ((r, v) # l) =
     (if r = ADDRESS then flash_ops v True d b l
      else if r = DATA then flash_ops a f v b l
      else if r = COMMAND then
        (if v = 1 then flash_ops a False d ((if f then [] else b) @ [d]) l
         else if v = 5 then Erase a # flash_ops a f d b l
         else if v = 4 then Program a b # flash_ops a f d b l
         else flash_ops a f d b l)
      else flash_ops a f d b l)"

definition does :: "(nat \<times> u32) list \<Rightarrow> flash_op list \<Rightarrow> bool" where
  "does L ops \<longleftrightarrow> (\<forall>a f d b rest. \<exists>a' f' d' b'. flash_ops a f d b (L @ rest) = ops @ flash_ops a' f' d' b' rest)"

lemma does_Nil: "does [] []"
  by (auto simp: does_def)

lemma does_append: "does L ops \<Longrightarrow> does L' ops' \<Longrightarrow> does (L @ L') (ops @ ops')"
  unfolding does_def by (metis append.assoc)

lemma does_ops: "does L ops \<Longrightarrow> flash_ops a f d b L = ops"
  unfolding does_def by (metis append_Nil2 flash_ops.simps(1))

lemma read_words_spec:
  "\<exists>ws. length ws = n \<and> stores (read_words n E a s) = stores s @ replicate n (COMMAND, 0) \<and>
     flmem (read_words n E a s) = store_list (flmem s) a (concat (map be32_bytes ws))"
proof (induction n arbitrary: a s)
  case (Suc n)
  obtain v d where r: "sfcx_readreg E DATA (sfcx_writereg E COMMAND 0 s) = (v, d)" by fastforce
  then have d: "flmem d = flmem s" "stores d = stores s @ [(COMMAND, 0)]"
    using readreg_same [of "sfcx_writereg E COMMAND 0 s" E DATA] by (simp_all add: same_mem_def sfcx_writereg_def)
  obtain ws where ws: "length ws = n"
    "stores (read_words n E (a + 4) (d\<lparr>flmem := store_list (flmem d) a (be32_bytes (bswap_32 v))\<rparr>)) = stores d @ replicate n (COMMAND, 0)"
    "flmem (read_words n E (a + 4) (d\<lparr>flmem := store_list (flmem d) a (be32_bytes (bswap_32 v))\<rparr>))
      = store_list (store_list (flmem s) a (be32_bytes (bswap_32 v))) (a + 4) (concat (map be32_bytes ws))"
    using Suc [of "a + 4" "d\<lparr>flmem := store_list (flmem d) a (be32_bytes (bswap_32 v))\<rparr>"] d by auto
  have len: "a + 4 = a + of_nat (length (be32_bytes (bswap_32 v)))" by (simp add: be32_bytes_def)
  show ?case
    by (rule exI [of _ "bswap_32 v # ws"])
      (use ws r d in \<open>simp add: store_list_append Let_def len del: length_map\<close>)
qed simp

lemma length_be32_words: "length (concat (map be32_bytes ws)) = 4 * length ws"
  by (induction ws) (simp_all add: be32_bytes_def)

lemma does_replicate: "does (replicate n (COMMAND, 0)) []"
  by (induction n) (auto simp: does_def sfcx_regs)

lemma readsector_spec:
  assumes "ready_law E busy"
  shows "\<exists>s' L bs. readsector E a sector raw s = Some s' \<and> stores s' = stores s @ L \<and> does L [] \<and>
    length bs = 0x210 \<and> flmem s' = store_list (flmem s) a bs"
proof -
  obtain c where c: "same_mem s (sfcx_modify E STATUS (\<lambda>v. v) s) [(STATUS, c)]" using modify_same by blast
  define s1 where "s1 = sfcx_writereg E COMMAND (if raw then 3 else 2) (sfcx_writereg E ADDRESS sector (sfcx_modify E STATUS (\<lambda>v. v) s))"
  have s1: "same_mem s s1 [(STATUS, c), (ADDRESS, sector), (COMMAND, if raw then 3 else 2)]"
    using c by (simp add: s1_def same_mem_def sfcx_writereg_def)
  obtain st s2 where s2: "sfcx_wait E s1 = Some (st, s2)" "same_mem s1 s2 []"
    using sfcx_wait_returns [OF assms, of s1] by blast
  obtain ws where ws: "length ws = 132"
    "stores (read_words 132 E a (sfcx_writereg E ADDRESS 0 s2)) = stores (sfcx_writereg E ADDRESS 0 s2) @ replicate 132 (COMMAND, 0)"
    "flmem (read_words 132 E a (sfcx_writereg E ADDRESS 0 s2)) = store_list (flmem (sfcx_writereg E ADDRESS 0 s2)) a (concat (map be32_bytes ws))"
    using read_words_spec [of 132 E a "sfcx_writereg E ADDRESS 0 s2"] by blast
  let ?L = "[(STATUS, c), (ADDRESS, sector), (COMMAND, if raw then 3 else 2), (ADDRESS, 0)] @ replicate 132 (COMMAND, 0)"
  have "does [(STATUS, c), (ADDRESS, sector), (COMMAND, if raw then 3 else 2), (ADDRESS, 0)] []"
    by (auto simp: does_def sfcx_regs)
  from does_append [OF this does_replicate] have "does ?L []" by simp
  moreover have "readsector E a sector raw s = Some (read_words 132 E a (sfcx_writereg E ADDRESS 0 s2))"
    using s2(1) by (simp add: readsector_def Let_def s1_def [symmetric])
  moreover have "stores (read_words 132 E a (sfcx_writereg E ADDRESS 0 s2)) = stores s @ ?L"
    using ws(2) s1 s2(2) by (simp add: same_mem_def sfcx_writereg_def)
  moreover have "flmem (read_words 132 E a (sfcx_writereg E ADDRESS 0 s2)) = store_list (flmem s) a (concat (map be32_bytes ws))"
    using ws(3) s1 s2(2) by (simp add: same_mem_def sfcx_writereg_def)
  ultimately show ?thesis using ws(1) length_be32_words [of ws] by (intro exI conjI) auto
qed

lemma flash_erase_spec:
  assumes "ready_law E busy"
  shows "\<exists>s' L. flash_erase E address s = Some s' \<and> same_mem s s' L \<and> does L [Erase address]"
proof -
  note wait = sfcx_wait_returns [OF assms]
  let ?w = "sfcx_writereg E"
  obtain c where c: "same_mem s (sfcx_modify E 0 (\<lambda>v. v OR 8) s) [(0, c)]" using modify_same by blast
  define s1 where "s1 = ?w ADDRESS address (?w STATUS 0xFF (sfcx_modify E 0 (\<lambda>v. v OR 8) s))"
  obtain x2 s2 where s2: "sfcx_wait E s1 = Some (x2, s2)" "same_mem s1 s2 []" using wait [of s1] by blast
  obtain x3 s3 where s3: "sfcx_wait E (?w COMMAND 0x55 (?w COMMAND 0xAA s2)) = Some (x3, s3)" "same_mem (?w COMMAND 0x55 (?w COMMAND 0xAA s2)) s3 []"
    using wait [of "?w COMMAND 0x55 (?w COMMAND 0xAA s2)"] by blast
  obtain x4 s4 where s4: "sfcx_wait E (?w COMMAND 5 s3) = Some (x4, s4)" "same_mem (?w COMMAND 5 s3) s4 []"
    using wait [of "?w COMMAND 5 s3"] by blast
  define s5 where "s5 = ?w STATUS 0xFF (snd (sfcx_readreg E STATUS s4))"
  obtain c' where c': "same_mem s5 (sfcx_modify E 0 (\<lambda>v. v AND NOT 8) s5) [(0, c')]" using modify_same by blast
  let ?L = "[(0, c), (STATUS, 0xFF), (ADDRESS, address), (COMMAND, 0xAA), (COMMAND, 0x55), (COMMAND, 5), (STATUS, 0xFF), (0, c')]"
  have "same_mem s (sfcx_modify E 0 (\<lambda>v. v AND NOT 8) s5) ?L"
    using c s2(2) s3(2) s4(2) c' readreg_same [of s4 E STATUS] by (simp add: same_mem_def sfcx_writereg_def s1_def s5_def)
  moreover have "flash_erase E address s = Some (sfcx_modify E 0 (\<lambda>v. v AND NOT 8) s5)"
    unfolding flash_erase_def Let_def s1_def [symmetric] s5_def by (simp add: s2(1) s3(1) s4(1) split: prod.splits)
  moreover have "does ?L [Erase address]" by (auto simp: does_def sfcx_regs)
  ultimately show ?thesis by blast
qed

lemma write_words_spec:
  "\<exists>L. same_mem s (write_words n E a s) L \<and> (\<forall>x f d b rest. \<exists>d'. flash_ops x f d b (L @ rest) =
    (if n = 0 then flash_ops x f d b rest
     else flash_ops x False d' ((if f then [] else b) @ map bswap_32 (words (load_list (flmem s) a (4 * n)))) rest))"
proof (induction n arbitrary: a s)
  case 0
  then show ?case by (auto simp: same_mem_def)
next
  case (Suc n)
  let ?v = "bswap_32 (load_be32 (flmem s) a)"
  let ?s = "sfcx_writereg E COMMAND 1 (sfcx_writereg E DATA ?v s)"
  have fs: "flmem ?s = flmem s" by (simp add: sfcx_writereg_def)
  obtain L where L: "same_mem ?s (write_words n E (a + 4) ?s) L"
    "\<forall>x f d b rest. \<exists>d'. flash_ops x f d b (L @ rest) = (if n = 0 then flash_ops x f d b rest
       else flash_ops x False d' ((if f then [] else b) @ map bswap_32 (words (load_list (flmem s) (a + 4) (4 * n)))) rest)"
    using Suc [of ?s "a + 4"] unfolding fs by blast
  have "load_list (flmem s) a (4 * Suc n) = flmem s a # flmem s (a + 1) # flmem s (a + 2) # flmem s (a + 3) # load_list (flmem s) (a + 4) (4 * n)"
    by (simp add: numeral_eq_Suc algebra_simps)
  then have w: "words (load_list (flmem s) a (4 * Suc n)) = load_be32 (flmem s) a # words (load_list (flmem s) (a + 4) (4 * n))"
    by (simp add: load_be32_def)
  have "same_mem s (write_words (Suc n) E a s) ([(DATA, ?v), (COMMAND, 1)] @ L)"
    using L(1) by (simp add: same_mem_def sfcx_writereg_def)
  moreover have "\<exists>d'. flash_ops x f d b (([(DATA, ?v), (COMMAND, 1)] @ L) @ rest)
      = flash_ops x False d' ((if f then [] else b) @ map bswap_32 (words (load_list (flmem s) a (4 * Suc n)))) rest" for x f d b rest
  proof -
    let ?b = "(if f then [] else b) @ [?v]"
    obtain d' where "flash_ops x False ?v ?b (L @ rest) = (if n = 0 then flash_ops x False ?v ?b rest
        else flash_ops x False d' (?b @ map bswap_32 (words (load_list (flmem s) (a + 4) (4 * n)))) rest)"
      using L(2) [rule_format, of x False ?v ?b rest, unfolded if_False] by blast
    then show ?thesis unfolding w
      by (cases "n = 0") (auto simp: sfcx_regs)
  qed
  ultimately show ?case by (intro exI [of _ "[(DATA, ?v), (COMMAND, 1)] @ L"]) auto
qed

lemma write_page_spec:
  assumes "ready_law E busy"
  shows "\<exists>s' L. write_page E address a s = Some s' \<and> same_mem s s' L \<and>
    does L [Program address (map bswap_32 (words (load_list (flmem s) a 0x210)))]"
proof -
  note wait = sfcx_wait_returns [OF assms]
  let ?w = "sfcx_writereg E"
  define s0 where "s0 = ?w STATUS 0xFF s"
  obtain c where c: "same_mem s0 (sfcx_modify E 0 (\<lambda>v. v OR 8) s0) [(0, c)]" using modify_same by blast
  define s1 where "s1 = ?w ADDRESS 0 (sfcx_modify E 0 (\<lambda>v. v OR 8) s0)"
  have s1: "same_mem s s1 [(STATUS, 0xFF), (0, c), (ADDRESS, 0)]"
    using c by (simp add: same_mem_def sfcx_writereg_def s1_def s0_def)
  let ?ws = "map bswap_32 (words (load_list (flmem s) a 0x210))"
  obtain L where L: "same_mem s1 (write_words 132 E a s1) L"
    "\<forall>x f d b rest. \<exists>d'. flash_ops x f d b (L @ rest) = flash_ops x False d' ((if f then [] else b) @ ?ws) rest"
    using write_words_spec [of s1 132 E a] s1 by (auto simp: same_mem_def)
  define s2 where "s2 = ?w COMMAND 0x55 (?w ADDRESS address (write_words 132 E a s1))"
  obtain x3 s3 where s3: "sfcx_wait E s2 = Some (x3, s3)" "same_mem s2 s3 []" using wait [of s2] by blast
  obtain x4 s4 where s4: "sfcx_wait E (?w COMMAND 0xAA s3) = Some (x4, s4)" "same_mem (?w COMMAND 0xAA s3) s4 []"
    using wait [of "?w COMMAND 0xAA s3"] by blast
  obtain x5 s5 where s5: "sfcx_wait E (?w COMMAND 4 s4) = Some (x5, s5)" "same_mem (?w COMMAND 4 s4) s5 []"
    using wait [of "?w COMMAND 4 s4"] by blast
  define s6 where "s6 = snd (sfcx_readreg E STATUS s5)"
  obtain c' where c': "same_mem s6 (sfcx_modify E 0 (\<lambda>v. v AND NOT 8) s6) [(0, c')]" using modify_same by blast
  let ?A = "[(STATUS, 0xFF), (0, c), (ADDRESS, 0)]"
  let ?B = "[(ADDRESS, address), (COMMAND, 0x55), (COMMAND, 0xAA), (COMMAND, 4), (0, c')]"
  have "same_mem s (sfcx_modify E 0 (\<lambda>v. v AND NOT 8) s6) (?A @ L @ ?B)"
    using s1 L(1) s3(2) s4(2) s5(2) c' readreg_same [of s5 E STATUS] by (simp add: same_mem_def sfcx_writereg_def s2_def s6_def)
  moreover have "write_page E address a s = Some (sfcx_modify E 0 (\<lambda>v. v AND NOT 8) s6)"
    unfolding write_page_def Let_def s0_def [symmetric] s6_def
    by (simp add: s1_def [symmetric] s2_def [symmetric] s3(1) s4(1) s5(1) split: prod.splits)
  moreover have "does (?A @ L @ ?B) [Program address ?ws]"
    unfolding does_def
  proof (intro allI)
    fix x f d b rest
    obtain d' where "flash_ops 0 True d b (L @ (?B @ rest)) = flash_ops 0 False d' ?ws (?B @ rest)"
      using L(2) [rule_format, of 0 True d b "?B @ rest"] by auto
    then show "\<exists>a' f' d' b'. flash_ops x f d b ((?A @ L @ ?B) @ rest) = [Program address ?ws] @ flash_ops a' f' d' b' rest"
      by (auto simp: sfcx_regs)
  qed
  ultimately show ?thesis by blast
qed

section \<open>The contents of a page\<close>

lemma mem_eqI:
  assumes "load_list m a n = load_list m' a n" and "\<And>x. x \<notin> region a n \<Longrightarrow> m x = m' x"
  shows "m = m'"
proof
  fix x
  show "m x = m' x"
  proof (cases "x \<in> region a n")
    case True
    then obtain i where "i < n" "x = a + of_nat i" by (auto simp: region_def)
    then show ?thesis using assms(1) load_list_nth [of i n m a] load_list_nth [of i n m' a] by simp
  qed (rule assms(2))
qed

lemma store_list_twice:
  assumes "length xs = length ys" and "length xs \<le> 2 ^ 64"
  shows "store_list (store_list m a xs) a ys = store_list m a ys"
  by (rule mem_eqI [of _ a "length ys"]) (use assms in \<open>simp_all add: load_store_list store_list_other\<close>)

text \<open>512 bytes of the image, or of ones behind its end, then the spare bytes: the number of the erase block and a mark.\<close>

definition page_data :: "mem \<Rightarrow> addr \<Rightarrow> u32 \<Rightarrow> nat \<Rightarrow> u8 list" where
  "page_data m xell_address file_size off =
     (if file_size > of_nat off then load_list m (xell_address + of_nat off) 0x200 else replicate 0x200 0xff)"

definition page_spare :: "u32 \<Rightarrow> u8 list" where
  "page_spare phys_pos = be32_bytes (bswap_32 (phys_pos div 16384)) @ [0, 0xFF, 0, 0, 0, 0, 0, 0, 0, 0, 0, 0]"

lemma length_page: "length (page_data m x fs off @ page_spare p) = 0x210"
  by (simp add: page_data_def page_spare_def be32_bytes_def)

lemma store_list_upd:
  assumes "i < length xs" and "length xs \<le> 2 ^ 64"
  shows "(store_list m b xs)(b + of_nat i := v) = store_list m b (xs[i := v])" (is "?l = ?r")
proof (rule mem_eqI [of _ b "length xs"])
  have r: "load_list ?r b (length xs) = xs[i := v]"
    using load_store_list [of "xs[i := v]" m b] assms by simp
  show "load_list ?l b (length xs) = load_list ?r b (length xs)" unfolding r
  proof (rule nth_equalityI)
    fix j assume j: "j < length (load_list ?l b (length xs))"
    then have "(of_nat j :: u64) = of_nat i \<longleftrightarrow> j = i" using assms by (intro of_nat_u64_inj) auto
    moreover have "store_list m b xs (b + of_nat j) = xs ! j"
      using load_list_nth [of j "length xs" "store_list m b xs" b] load_store_list [of xs m b] assms j by simp
    ultimately show "load_list ?l b (length xs) ! j = xs[i := v] ! j"
      using j by (simp add: load_list_nth nth_list_update)
  qed simp
  fix x assume "x \<notin> region b (length xs)"
  moreover from this have "x \<noteq> b + of_nat i" using region_memI [OF assms(1), of b] by auto
  ultimately show "?l x = ?r x" by (simp add: store_list_other)
qed

lemma store_list_over:
  assumes "length ys \<le> length xs" and "length xs \<le> 2 ^ 64"
  shows "store_list (store_list m b xs) b ys = store_list m b (ys @ drop (length ys) xs)" (is "?l = ?r")
proof (rule mem_eqI [of _ b "length xs"])
  let ?k = "length ys" and ?M = "store_list m b xs"
  have r: "load_list ?r b (length xs) = ys @ drop ?k xs"
    using load_store_list [of "ys @ drop ?k xs" m b] assms by simp
  have "region (b + of_nat ?k) (length xs - ?k) \<inter> region b ?k = {}"
    using region_split_disjoint [of ?k "length xs - ?k" b] assms by (simp add: Int_commute)
  then have "load_list ?l (b + of_nat ?k) (length xs - ?k) = drop ?k xs"
    using drop_load_list [OF assms(1), of ?M b] load_store_list [of xs m b] assms by (simp add: load_store_other)
  moreover have "load_list ?l b ?k = ys" using assms by (intro load_store_list) simp
  ultimately show "load_list ?l b (length xs) = load_list ?r b (length xs)" unfolding r
    using load_list_add [of ?l b ?k "length xs - ?k"] assms by simp
  fix x assume x: "x \<notin> region b (length xs)"
  then have "x \<notin> region b ?k" using region_mono [OF assms(1), of b] by auto
  then show "?l x = ?r x" using x assms by (simp add: store_list_other)
qed

lemma spare_stores:
  "(store_list (store_list m b (replicate 16 0)) b [w0, w1, w2, w3])(b + 5 := v) =
     store_list m b [w0, w1, w2, w3, 0, v, 0, 0, 0, 0, 0, 0, 0, 0, 0, 0]"
proof -
  have l: "[w0, w1, w2, w3] @ drop 4 (replicate 16 0) = [w0, w1, w2, w3, 0, 0, 0, 0, 0, 0, 0, 0, 0, 0, 0, 0]"
    by (simp add: eval_nat_numeral)
  have "store_list (store_list m b (replicate 16 0)) b [w0, w1, w2, w3] = store_list m b [w0, w1, w2, w3, 0, 0, 0, 0, 0, 0, 0, 0, 0, 0, 0, 0]"
    using store_list_over [of "[w0, w1, w2, w3]" "replicate 16 0" m b] l by (simp del: store_list.simps)
  then show ?thesis
    using store_list_upd [of 5 "[w0, w1, w2, w3, 0, 0, 0, 0, 0, 0, 0, 0, 0, 0, 0, 0]" m b v] by (simp del: store_list.simps)
qed

lemma fill_page_stores:
  assumes src: "region (x + of_nat off) 0x200 \<inter> region b 0x210 = {}"
  shows "fill_page b x fs p off m = calcecc b (store_list m b (page_data m x fs off @ page_spare p))"
proof -
  define m1 where "m1 = store_list m b (replicate 0x200 0xff)"
  have ff: "memset b 0xff 0x200 m = m1" by (simp add: memset_store m1_def)
  have src': "region (x + of_nat off) 0x200 \<inter> region b 0x200 = {}" using src region_mono [of "0x200" "0x210" b] by auto
  then have ld: "load_list m1 (x + of_nat off) 0x200 = load_list m (x + of_nat off) 0x200"
    unfolding m1_def by (intro load_store_other) simp
  have m2: "(if fs > of_nat off then memcpy b (x + of_nat off) 0x200 m1 else m1) = store_list m b (page_data m x fs off)"
  proof (cases "fs > of_nat off")
    case True
    have "unat (0x200 :: u64) = 0x200" by simp
    then have "memcpy b (x + of_nat off) 0x200 m1 = store_list m1 b (load_list m1 (x + of_nat off) 0x200)"
      using memcpy_disjoint [of b "0x200" "x + of_nat off" m1] src' by (simp only: Int_commute)
    also have "\<dots> = store_list m b (load_list m (x + of_nat off) 0x200)"
      unfolding ld unfolding m1_def by (rule store_list_twice) simp_all
    finally show ?thesis unfolding page_data_def using True by (simp only: if_True)
  next
    case False
    then show ?thesis unfolding page_data_def m1_def by (simp only: if_False)
  qed
  obtain w0 w1 w2 w3 where w: "be32_bytes (bswap_32 (p div 16384)) = [w0, w1, w2, w3]" by (simp add: be32_bytes_def)
  have len: "length (page_data m x fs off) = 0x200" by (simp add: page_data_def)
  have z: "memset (b + 0x200) 0 0x10 m' = store_list m' (b + 0x200) (replicate 16 0)" for m' by (simp add: memset_store)
  have five: "b + 0x205 = (b + 0x200) + 5" by (simp add: add.assoc)
  have a: "b + 0x200 = b + of_nat (length (page_data m x fs off))" by (simp add: len)
  have "fill_page b x fs p off m = calcecc b (store_list (store_list m b (page_data m x fs off)) (b + 0x200) (page_spare p))"
    unfolding fill_page_def Let_def ff m2 z five by (simp only: spare_stores w page_spare_def eraseblock_size_def of_nat_numeral append_Cons append_Nil)
  then show ?thesis by (simp only: store_list_append a [symmetric])
qed

lemma calcecc_other: "x \<notin> region a 0x210 \<Longrightarrow> calcecc a m x = m x"
  using region_memI [of "0x20C" "0x210" a] region_memI [of "0x20D" "0x210" a] region_memI [of "0x20E" "0x210" a] region_memI [of "0x20F" "0x210" a]
  by (auto simp: calcecc_def Let_def add.assoc)

lemma calcecc_cong:
  assumes same: "\<And>x. x \<in> region a 0x210 \<Longrightarrow> m x = m' x"
  shows "load_list (calcecc a m) a 0x210 = load_list (calcecc a m') a 0x210"
proof -
  have "page_bit m a j = page_bit m' a j" if "j < 0x1066" for j
  proof -
    have "j div 8 < 0x210" using that by auto
    then show ?thesis using same [OF region_memI [of "j div 8" "0x210" a]] by (simp add: page_bit_def)
  qed
  then have "calcecc_loop 0x1066 0 0 0 a m = calcecc_loop 0x1066 0 0 0 a m'"
    unfolding calcecc_loop_ecc by (intro fold_cong) auto
  then have "calcecc a m x = calcecc a m' x" if "x \<in> region a 0x210" for x
    using same [OF that] same [OF region_memI [of "0x20C" "0x210" a]] by (simp add: calcecc_def Let_def add.assoc)
  then show ?thesis by (rule load_list_cong)
qed

text \<open>The words of a page with its code.\<close>

definition page_words :: "mem \<Rightarrow> addr \<Rightarrow> u32 \<Rightarrow> addr \<Rightarrow> u32 \<Rightarrow> nat \<Rightarrow> u32 list" where
  "page_words m xell_address file_size block phys_pos off = map bswap_32 (words (load_list
     (calcecc block (store_list (\<lambda>_. 0) block (page_data m xell_address file_size off @ page_spare phys_pos))) block 0x210))"

lemma page_words_any:
  "map bswap_32 (words (load_list (calcecc b (store_list m' b (page_data m x fs off @ page_spare p))) b 0x210)) = page_words m x fs b p off"
proof -
  have ld: "load_list (store_list m1 b (page_data m x fs off @ page_spare p)) b 0x210 = page_data m x fs off @ page_spare p" for m1
    using load_store_list [of "page_data m x fs off @ page_spare p" m1 b] unfolding length_page by simp
  have "store_list m' b (page_data m x fs off @ page_spare p) y = store_list (\<lambda>_. 0) b (page_data m x fs off @ page_spare p) y"
    if y: "y \<in> region b 0x210" for y
  proof -
    obtain i where "i < 0x210" "y = b + of_nat i" using y unfolding region_def by blast
    then show ?thesis
      using ld [of m'] ld [of "\<lambda>_. 0"] load_list_nth [of i "0x210" _ b] by metis
  qed
  from calcecc_cong [OF this] show ?thesis by (simp add: page_words_def)
qed

section \<open>The sequence of operations\<close>

lemma fill_page_other:
  assumes "region (x + of_nat off) 0x200 \<inter> region b 0x210 = {}" and "y \<notin> region b 0x210"
  shows "fill_page b x fs p off m y = m y"
proof -
  have "y \<notin> region b (length (page_data m x fs off @ page_spare p))" using assms(2) unfolding length_page .
  then show ?thesis unfolding fill_page_stores [OF assms(1)] by (simp add: calcecc_other [OF assms(2)] store_list_other)
qed

text \<open>Memory that differs at most in the buffer of a page.\<close>

definition but_page :: "addr \<Rightarrow> mem \<Rightarrow> mem \<Rightarrow> bool" where
  "but_page b m m' \<longleftrightarrow> (\<forall>x. x \<notin> region b 0x210 \<longrightarrow> m' x = m x)"

lemma page_data_but:
  assumes "region (x + of_nat off) 0x200 \<inter> region b 0x210 = {}" and "but_page b m m'"
  shows "page_data m' x fs off = page_data m x fs off"
proof -
  have "load_list m' (x + of_nat off) 0x200 = load_list m (x + of_nat off) 0x200"
    using assms by (intro load_list_cong) (auto simp: but_page_def)
  then show ?thesis by (simp only: page_data_def)
qed

lemma image_part:
  assumes "region x 0x40000 \<inter> region b 0x210 = {}" and "off + 0x200 \<le> 0x40000"
  shows "region (x + of_nat off) 0x200 \<inter> region b 0x210 = {}"
  using region_sub [OF assms(2), of x] assms(1) by blast

abbreviation page_op :: "mem \<Rightarrow> addr \<Rightarrow> u32 \<Rightarrow> addr \<Rightarrow> nat \<Rightarrow> u32 \<Rightarrow> nat \<Rightarrow> flash_op" where
  "page_op m x fs b a p j \<equiv> Program (p + of_nat (j * 0x200)) (page_words m x fs b p (a + j * 0x200))"

lemma update_pages_spec:
  assumes law: "ready_law E busy" and img: "region x 0x40000 \<inter> region b 0x210 = {}"
  shows "a + (j + n) * 0x200 \<le> 0x40000 \<Longrightarrow> but_page b m (flmem s) \<Longrightarrow>
    \<exists>s' L. update_pages n E b x fs p a j s = Some s' \<and> stores s' = stores s @ L \<and> but_page b m (flmem s') \<and>
      does L (map (page_op m x fs b a p) [j..<j + n])"
proof (induction n arbitrary: j s)
  case 0
  then show ?case by (auto simp: does_Nil)
next
  case (Suc n)
  let ?off = "a + j * 0x200" and ?p = "p + of_nat (j * 0x200)"
  have src: "region (x + of_nat ?off) 0x200 \<inter> region b 0x210 = {}"
    using Suc.prems(1) by (intro image_part [OF img]) simp
  define s1 where "s1 = s\<lparr>flmem := fill_page b x fs p ?off (flmem s)\<rparr>"
  have s1: "stores s1 = stores s" "but_page b m (flmem s1)"
    "map bswap_32 (words (load_list (flmem s1) b 0x210)) = page_words m x fs b p ?off"
  proof -
    have flm: "flmem s1 = fill_page b x fs p ?off (flmem s)" by (simp add: s1_def)
    show "stores s1 = stores s" by (simp add: s1_def)
    show "but_page b m (flmem s1)" using Suc.prems(2) fill_page_other [OF src] by (simp add: s1_def but_page_def)
    show "map bswap_32 (words (load_list (flmem s1) b 0x210)) = page_words m x fs b p ?off"
      unfolding page_words_any [symmetric, where m = m and x = x and fs = fs and b = b and p = p and m' = "flmem s"]
      by (simp only: flm fill_page_stores [OF src] page_data_but [OF src Suc.prems(2)])
  qed
  obtain s2 L2 where s2: "write_page E ?p b s1 = Some s2" "same_mem s1 s2 L2" "does L2 [Program ?p (page_words m x fs b p ?off)]"
    using write_page_spec [OF law, of ?p b s1] unfolding s1(3) by blast
  obtain s3 L3 bs where s3: "readsector E b ?p False s2 = Some s3" "stores s3 = stores s2 @ L3" "does L3 []"
    "length bs = 0x210" "flmem s3 = store_list (flmem s2) b bs"
    using readsector_spec [OF law, of b ?p False s2] by blast
  have "but_page b m (flmem s3)" using s1(2) s2(2) s3(4,5) by (auto simp: but_page_def same_mem_def store_list_other)
  with Suc.IH [of "j + 1" s3] Suc.prems(1) obtain s' L where s': "update_pages n E b x fs p a (j + 1) s3 = Some s'"
    "stores s' = stores s3 @ L" "but_page b m (flmem s')" "does L (map (page_op m x fs b a p) [j + 1..<j + 1 + n])"
    by auto
  have "update_pages (Suc n) E b x fs p a j s = Some s'"
    using s2(1) s3(1) s'(1) by (simp add: Let_def s1_def [symmetric])
  moreover have "stores s' = stores s @ (L2 @ L3 @ L)" using s'(2) s3(2) s2(2) s1(1) by (simp add: same_mem_def)
  moreover have "does (L2 @ L3 @ L) ([Program ?p (page_words m x fs b p ?off)] @ [] @ map (page_op m x fs b a p) [j + 1..<j + 1 + n])"
    by (intro does_append s2(3) s3(3) s'(4))
  moreover have "[j..<j + Suc n] = j # [j + 1..<j + 1 + n]" by (simp add: upt_conv_Cons del: upt_Suc)
  ultimately show ?case using s'(3) by (intro exI [of _ s'] exI [of _ "L2 @ L3 @ L"]) simp
qed

abbreviation block_ops :: "mem \<Rightarrow> addr \<Rightarrow> u32 \<Rightarrow> addr \<Rightarrow> (nat \<Rightarrow> u32) \<Rightarrow> nat \<Rightarrow> flash_op list" where
  "block_ops m x fs b phys k \<equiv> Erase (phys k) # map (page_op m x fs b (k * 16384) (phys k)) [0..<32]"

lemma update_blocks_spec:
  assumes law: "ready_law E busy" and img: "region x 0x40000 \<inter> region b 0x210 = {}"
  shows "(k + n) * 16384 \<le> 0x40000 \<Longrightarrow> but_page b m (flmem s) \<Longrightarrow>
    \<exists>s' L phys. update_blocks n E b x fs (k * 16384) s = Some s' \<and> stores s' = stores s @ L \<and>
      does L (concat (map (block_ops m x fs b phys) [k..<k + n])) \<and> (\<forall>i. phys i AND 0x1ff = 0)"
proof (induction n arbitrary: k s)
  case 0
  then show ?case by (auto simp: does_Nil intro!: exI [of _ "\<lambda>_. 0"])
next
  case (Suc n)
  let ?a = "k * 16384"
  let ?fa = "of_nat (?a + OFFSET) :: u32"
  obtain s1 L1 bs where s1: "readsector E b ?fa False s = Some s1" "stores s1 = stores s @ L1" "does L1 []"
    "length bs = 0x210" "flmem s1 = store_list (flmem s) b bs"
    using readsector_spec [OF law, of b ?fa False s] by blast
  obtain q s2 where q: "sfcx_readreg E 6 s1 = (q, s2)" by fastforce
  have s2: "same_mem s1 s2 []" using readreg_same [of s1 E 6] q by simp
  define p where "p = (if q AND 0x04000000 = 0 then ?fa else q) AND 0x3fffe00"
  have p0: "p AND 0x1ff = 0" by (simp add: p_def and.assoc)
  obtain s3 L3 where s3: "flash_erase E p s2 = Some s3" "same_mem s2 s3 L3" "does L3 [Erase p]"
    using flash_erase_spec [OF law, of p s2] by blast
  have b3: "but_page b m (flmem s3)"
    using Suc.prems(2) s1(4,5) s2 s3(2) by (auto simp: but_page_def same_mem_def store_list_other)
  obtain s4 L4 where s4: "update_pages 32 E b x fs p ?a 0 s3 = Some s4" "stores s4 = stores s3 @ L4" "but_page b m (flmem s4)"
    "does L4 (map (page_op m x fs b ?a p) [0..<32])"
    using update_pages_spec [OF law img, of ?a 0 32 m s3 fs p] b3 Suc.prems(1) by auto
  obtain s' L phys where s': "update_blocks n E b x fs (Suc k * 16384) s4 = Some s'" "stores s' = stores s4 @ L"
    "does L (concat (map (block_ops m x fs b phys) [Suc k..<Suc k + n]))" "\<forall>i. phys i AND 0x1ff = 0"
    using Suc.IH [of "Suc k" s4] s4(3) Suc.prems(1) by auto
  let ?phys = "phys(k := p)"
  have "concat (map (block_ops m x fs b ?phys) [k..<k + Suc n]) = [] @ [Erase p] @ map (page_op m x fs b ?a p) [0..<32] @
      concat (map (block_ops m x fs b phys) [Suc k..<Suc k + n])"
  proof -
    have "[k..<k + Suc n] = k # [Suc k..<Suc k + n]" by (simp add: upt_conv_Cons del: upt_Suc)
    moreover have "map (block_ops m x fs b ?phys) [Suc k..<Suc k + n] = map (block_ops m x fs b phys) [Suc k..<Suc k + n]"
      by (rule map_cong) auto
    ultimately show ?thesis
      by (simp only: list.map concat.simps fun_upd_same append_Nil append_Cons append_assoc)
  qed
  moreover have "does (L1 @ L3 @ L4 @ L) ([] @ [Erase p] @ map (page_op m x fs b ?a p) [0..<32] @
      concat (map (block_ops m x fs b phys) [Suc k..<Suc k + n]))"
    by (intro does_append s1(3) s3(3) s4(4) s'(3))
  moreover have "update_blocks (Suc n) E b x fs ?a s = Some s'"
  proof -
    have e: "eraseblock_size div 0x200 = 32" "?a + eraseblock_size = Suc k * 16384" by (simp_all add: eraseblock_size_def)
    show ?thesis
      by (simp only: update_blocks.simps Let_def s1(1) q s3(1) s4(1) s'(1) e prod.case bind.bind_lunit p_def [symmetric])
  qed
  moreover have "stores s' = stores s @ (L1 @ L3 @ L4 @ L)"
    using s'(2) s4(2) s3(2) s2 s1(2) by (simp add: same_mem_def)
  ultimately show ?case using s'(4) p0
    by (intro exI [of _ s'] exI [of _ "L1 @ L3 @ L4 @ L"] exI [of _ ?phys]) (simp del: upt_Suc)
qed

lemma page_op_image:
  assumes "load_list m x 0x40000 = load_list m' x 0x40000" and "a + j * 0x200 + 0x200 \<le> 0x40000"
  shows "page_op m x fs b a p j = page_op m' x fs b a p j"
proof -
  let ?o = "a + j * 0x200"
  have "load_list m1 (x + of_nat ?o) 0x200 = take 0x200 (drop ?o (load_list m1 x 0x40000))" for m1
    using drop_load_list [of ?o "0x40000" m1 x] take_load_list [of "0x200" "0x40000 - ?o" m1 "x + of_nat ?o"] assms(2) by simp
  then have "page_data m x fs ?o = page_data m' x fs ?o" unfolding page_data_def assms(1) by (simp only: assms(1))
  then show ?thesis by (simp only: page_words_def)
qed

lemma block_ops_image:
  assumes "load_list m x 0x40000 = load_list m' x 0x40000"
  shows "map (block_ops m x fs b phys) [0..<16] = map (block_ops m' x fs b phys) [0..<16]"
proof (rule map_cong [OF refl])
  fix k assume "k \<in> set [0..<16 :: nat]"
  then have "k * 16384 + j * 0x200 + 0x200 \<le> 0x40000" if "j \<in> set [0..<32 :: nat]" for j using that by simp
  then have "map (page_op m x fs b (k * 16384) (phys k)) [0..<32] = map (page_op m' x fs b (k * 16384) (phys k)) [0..<32]"
    by (intro map_cong [OF refl] page_op_image [OF assms]) blast
  then show "block_ops m x fs b phys k = block_ops m' x fs b phys k" by (simp only:)
qed

text \<open>Up to the reading of the header nothing is erased or programmed, and the image in memory stays as it is.\<close>

lemma update_begin:
  assumes law: "ready_law E busy" and img: "region x 0x40000 \<inter> region hdr 0x210 = {}"
  shows "\<exists>cf s1 s2 L1 L2. sfcx_readreg E 0 (sfcx_modify E 0 (\<lambda>v. v AND NOT (4 OR 8 OR 0x3c0)) s) = (cf, s1) \<and> same_mem s s1 L1 \<and> does L1 [] \<and>
    readsector E hdr 0 False s1 = Some s2 \<and> stores s2 = stores s1 @ L2 \<and> does L2 [] \<and>
    load_list (flmem s2) x 0x40000 = load_list (flmem s) x 0x40000"
proof -
  obtain c where c: "same_mem s (sfcx_modify E 0 (\<lambda>v. v AND NOT (4 OR 8 OR 0x3c0)) s) [(0, c)]" using modify_same by blast
  obtain cf s1 where cf: "sfcx_readreg E 0 (sfcx_modify E 0 (\<lambda>v. v AND NOT (4 OR 8 OR 0x3c0)) s) = (cf, s1)" by fastforce
  have s1: "same_mem s s1 [(0, c)]"
    using same_mem_trans [OF c] readreg_same [of "sfcx_modify E 0 (\<lambda>v. v AND NOT (4 OR 8 OR 0x3c0)) s" E 0] cf by fastforce
  have d0: "does [(0, c)] []" by (auto simp: does_def sfcx_regs)
  obtain s2 L2 bs where s2: "readsector E hdr 0 False s1 = Some s2" "stores s2 = stores s1 @ L2" "does L2 []"
    "length bs = 0x210" "flmem s2 = store_list (flmem s1) hdr bs"
    using readsector_spec [OF law, of hdr 0 False s1] by blast
  have "load_list (store_list (flmem s) hdr bs) x 0x40000 = load_list (flmem s) x 0x40000"
    using img s2(4) by (intro load_store_other) simp
  then have "load_list (flmem s2) x 0x40000 = load_list (flmem s) x 0x40000" using s2(5) s1 by (simp only: same_mem_def)
  with cf s1 d0 s2 show ?thesis by blast
qed

text \<open>The whole routine.\<close>

lemma update_image_facts:
  assumes law: "ready_law E busy"
    and img: "region x 0x40000 \<inter> region b 0x210 = {}" "region x 0x40000 \<inter> region hdr 0x210 = {}"
  shows "\<exists>r s' L. update_xell_flash E hdr b x fs s = Some (r, s') \<and> stores s' = stores s @ L \<and>
    (r = Refused \<longrightarrow> flash_ops a f d buf L = []) \<and>
    (r = Done \<longrightarrow> load_list (flmem s) x 4 \<noteq> 0x7f # bytes ''ELF'' \<and>
       (\<exists>phys. flash_ops a f d buf L = concat (map (block_ops (flmem s) x fs b phys) [0..<16]) \<and> (\<forall>i. phys i AND 0x1ff = 0)))"
proof -
  obtain cf s1 s2 L1 L2 where cf: "sfcx_readreg E 0 (sfcx_modify E 0 (\<lambda>v. v AND NOT (4 OR 8 OR 0x3c0)) s) = (cf, s1)"
    and s1: "same_mem s s1 L1" and d0: "does L1 []"
    and s2: "readsector E hdr 0 False s1 = Some s2" "stores s2 = stores s1 @ L2" "does L2 []"
    and im: "load_list (flmem s2) x 0x40000 = load_list (flmem s) x 0x40000"
    using update_begin [OF law img(2), of s] by blast
  have im4: "load_list (flmem s2) x 4 = load_list (flmem s) x 4"
    using arg_cong [OF im, of "take 4"] take_load_list [of 4 "0x40000" _ x] by simp
  have dl: "does (L1 @ L2) []" using does_append [OF d0 s2(3)] by simp
  have st2: "stores s2 = stores s @ (L1 @ L2)" using s2(2) s1 by (simp add: same_mem_def)
  obtain s3 L3 phys where s3: "update_blocks 16 E b x fs (0 * 16384) s2 = Some s3" "stores s3 = stores s2 @ L3"
    "does L3 (concat (map (block_ops (flmem s2) x fs b phys) [0..<0 + 16]))" "\<forall>i. phys i AND 0x1ff = 0"
    using update_blocks_spec [OF law img(1), of 0 16 "flmem s2" s2 fs] by (auto simp: but_page_def)
  have eq: "update_xell_flash E hdr b x fs s = (if cf \<noteq> 0x01198010 then Some (Refused, snd (sfcx_readreg E 0 s1))
      else if load_list (flmem s2) (hdr + 0x10) 0x1c \<noteq> bytes ''zeropair image, version=00, '' then Some (Refused, s2)
      else if load_list (flmem s) x 4 = 0x7f # bytes ''ELF'' then Some (Refused, s2) else Some (Done, s3))"
  proof -
    have "update_blocks (0x40000 div eraseblock_size) E b x fs 0 s2 = Some s3" using s3(1) by (simp add: eraseblock_size_def)
    then show ?thesis unfolding update_xell_flash_def Let_def
      by (simp only: cf prod.case s2(1) bind.bind_lunit im4)
  qed
  have r3: "flash_ops a f d buf ((L1 @ L2) @ L3) = concat (map (block_ops (flmem s) x fs b phys) [0..<16])"
    using does_ops [OF does_append [OF dl s3(3)]] block_ops_image [OF im] by (simp only: append_Nil add_0)
  consider "cf \<noteq> 0x01198010" | "cf = 0x01198010" "update_xell_flash E hdr b x fs s = Some (Refused, s2)"
    | "load_list (flmem s) x 4 \<noteq> 0x7f # bytes ''ELF''" "update_xell_flash E hdr b x fs s = Some (Done, s3)"
  proof -
    define h where "h \<longleftrightarrow> load_list (flmem s2) (hdr + 0x10) 0x1c \<noteq> bytes ''zeropair image, version=00, ''"
    define e where "e \<longleftrightarrow> load_list (flmem s) x 4 = 0x7f # bytes ''ELF''"
    have eq': "update_xell_flash E hdr b x fs s = (if cf \<noteq> 0x01198010 then Some (Refused, snd (sfcx_readreg E 0 s1))
      else if h then Some (Refused, s2) else if e then Some (Refused, s2) else Some (Done, s3))"
      unfolding eq h_def e_def by (rule refl)
    show ?thesis using that unfolding e_def [symmetric] eq' by (cases "cf = 0x01198010"; cases h; cases e) simp_all
  qed
  then show ?thesis
  proof cases
    case 1
    have "stores (snd (sfcx_readreg E 0 s1)) = stores s @ L1" using s1 readreg_same [of s1 E 0] by (simp add: same_mem_def)
    then show ?thesis unfolding eq using 1 does_ops [OF d0, of a f d buf]
      by (intro exI [of _ Refused] exI [of _ "snd (sfcx_readreg E 0 s1)"] exI [of _ L1]) simp
  next
    case 2
    then show ?thesis using st2 does_ops [OF dl, of a f d buf]
      by (intro exI [of _ Refused] exI [of _ s2] exI [of _ "L1 @ L2"]) simp
  next
    case 3
    have "stores s3 = stores s @ ((L1 @ L2) @ L3)" using st2 s3(2) by simp
    then show ?thesis using 3 r3 s3(4) update_result.distinct by blast
  qed
qed


section \<open>A controller\<close>

text \<open>A controller that is always ready and gives the words of one page with the mark of the image over and over.\<close>

definition mark_words :: "u32 list" where
  "mark_words = words (replicate 16 0 @ bytes ''zeropair image, version=00, '')"

definition mark_word :: "nat \<Rightarrow> u32" where
  "mark_word k = (if k < 11 then mark_words ! k else 0)"

definition small_sfcx :: "nat sfcx" where
  "small_sfcx = \<lparr>sfcx_load = (\<lambda>a d. if a = 0x200ea00c000 then (bswap_32 0x01198010, d)
     else if a = 0x200ea00c010 then (mark_word d, d + 1) else (bswap_32 0x200, d)), sfcx_store = (\<lambda>a v d. d)\<rparr>"

lemma small_sfcx_words:
  "flmem (read_words n small_sfcx a s) = store_list (flmem s) a (concat (map (be32_bytes \<circ> mark_word) [sfc s..<sfc s + n]))"
proof (induction n arbitrary: a s)
  case (Suc n)
  let ?s = "s\<lparr>stores := stores s @ [(COMMAND, 0)], sfc := Suc (sfc s), flmem := store_list (flmem s) a (be32_bytes (mark_word (sfc s)))\<rparr>"
  have "read_words (Suc n) small_sfcx a s = read_words n small_sfcx (a + 4) ?s"
    by (simp add: sfcx_readreg_def sfcx_writereg_def small_sfcx_def DATA_def Let_def)
  moreover have "a + 4 = a + of_nat (length (be32_bytes (mark_word (sfc s))))" by (simp add: be32_bytes_def)
  moreover have "[sfc s..<sfc s + Suc n] = sfc s # [Suc (sfc s)..<Suc (sfc s) + n]" by (simp add: upt_conv_Cons del: upt_Suc)
  ultimately show ?case using Suc [of "a + 4" ?s] by (simp add: store_list_append del: upt_Suc)
qed simp

lemma mark_bytes: "concat (map (be32_bytes \<circ> mark_word) [0..<132]) =
  replicate 16 0 @ bytes ''zeropair image, version=00, '' @ concat (map (be32_bytes \<circ> mark_word) [11..<132])"
proof -
  have l: "length mark_words = 11" by (simp add: mark_words_def length_words bytes_def)
  have "map mark_word [0..<11] = mark_words"
    using map_nth [of mark_words] l by (metis (no_types, lifting) atLeastLessThan_iff map_cong mark_word_def set_upt)
  then have "concat (map (be32_bytes \<circ> mark_word) [0..<11]) = concat (map be32_bytes mark_words)" by (metis map_map)
  also have "\<dots> = replicate 16 0 @ bytes ''zeropair image, version=00, ''"
    unfolding mark_words_def by (rule words_bytes) (simp add: bytes_def)
  finally show ?thesis using upt_add_eq_append [of 0 11 121] by simp
qed


end
