(* ===== verification/Xell_Elf.thy ===== *)
theory Xell_Elf
  imports Xell_String Xell_Flash
begin
unbundle bit_operations_syntax

text \<open>
  Starting an image: the ELF loader of \<^verbatim>\<open>src/main.c\<close> with what it hands to \<^verbatim>\<open>jump\<close>, the processors that are waited for, and
  the code that is placed into the exception vectors. Memory is all the loader changes. Flushing the caches does not
  change it, and the messages, which alone use the table of section names, are left out.
\<close>

section \<open>Headers\<close>

record shdr =
  sh_type :: u32
  sh_flags :: u32
  sh_addr :: u32
  sh_offset :: u32
  sh_size :: u32

definition SHT_NOBITS :: u32 where "SHT_NOBITS = 8"
definition SHF_ALLOC :: u32 where "SHF_ALLOC = 2"
definition sizeof_shdr :: nat where "sizeof_shdr = 40"

definition load_be16 :: "mem \<Rightarrow> addr \<Rightarrow> u16" where
  "load_be16 m a = push_bit 8 (ucast (m a)) OR ucast (m (a + 1))"

definition e_entry :: "mem \<Rightarrow> addr \<Rightarrow> u32" where "e_entry m ehdr = load_be32 m (ehdr + 24)"
definition e_shoff :: "mem \<Rightarrow> addr \<Rightarrow> u32" where "e_shoff m ehdr = load_be32 m (ehdr + 32)"
definition e_shnum :: "mem \<Rightarrow> addr \<Rightarrow> u16" where "e_shnum m ehdr = load_be16 m (ehdr + 48)"

definition shdr_at :: "mem \<Rightarrow> addr \<Rightarrow> shdr" where
  "shdr_at m a = \<lparr>sh_type = load_be32 m (a + 4), sh_flags = load_be32 m (a + 8), sh_addr = load_be32 m (a + 12),
     sh_offset = load_be32 m (a + 16), sh_size = load_be32 m (a + 20)\<rparr>"

definition section_header :: "mem \<Rightarrow> addr \<Rightarrow> nat \<Rightarrow> shdr" where
  "section_header m addr i = shdr_at m (addr + ucast (e_shoff m addr) + of_nat (i * sizeof_shdr))"

definition sh_target :: "shdr \<Rightarrow> addr" where
  "sh_target h = 0x8000000000000000 OR ucast (sh_addr h)"

section \<open>Loading\<close>

definition load_section :: "addr \<Rightarrow> shdr \<Rightarrow> mem \<Rightarrow> mem" where
  "load_section addr h m =
     (if sh_flags h AND SHF_ALLOC = 0 \<or> sh_size h = 0 then m
      else if sh_type h = SHT_NOBITS then memset (sh_target h) 0 (ucast (sh_size h)) m
      else memcpy (sh_target h) (addr + ucast (sh_offset h)) (ucast (sh_size h)) m)"

lemma e_shnum_less: "unat (e_shnum m addr) < 65536"
  using unsigned_less [of "e_shnum m addr", where ?'a = nat] by simp

text \<open>The headers are read again in each round, from memory the round before may have changed.\<close>

function load_sections :: "addr \<Rightarrow> nat \<Rightarrow> mem \<Rightarrow> mem" where
  "load_sections addr i m =
     (if i < unat (e_shnum m addr) then load_sections addr (i + 1) (load_section addr (section_header m addr i) m) else m)"
  by auto
termination
proof (relation "measure (\<lambda>(addr, i, m). 65536 - i)")
  fix addr i m assume "i < unat (e_shnum m addr)"
  then have "i < 65536" using e_shnum_less less_trans by blast
  then show "((addr, i + 1, load_section addr (section_header m addr i) m), addr, i, m) \<in> measure (\<lambda>(addr, i, m). 65536 - i)" by simp
qed simp

declare load_sections.simps [simp del]

definition load_elf_image :: "addr \<Rightarrow> mem \<Rightarrow> u64 \<times> mem" where
  "load_elf_image addr m = (let m = load_sections addr 0 m in (ucast (e_entry m addr), m))"

text \<open>What \<^verbatim>\<open>execute_elf_at\<close> stores for the other processors and the arguments of \<^verbatim>\<open>jump\<close>.\<close>

definition execute_elf_at :: "addr \<Rightarrow> addr \<Rightarrow> mem \<Rightarrow> u64 \<times> (u64 \<times> u64 \<times> u64 \<times> u64 \<times> u64) \<times> mem" where
  "execute_elf_at dt_blob_start addr m =
     (let (entry, m) = load_elf_image addr m
      in (entry OR 0x8000000000000060, (dt_blob_start AND 0x7fffffffffffffff, entry, 0, entry, 0), m))"

section \<open>Processors and vectors\<close>

fun online_loop :: "nat \<Rightarrow> bool list \<Rightarrow> u32 \<Rightarrow> u32" where
  "online_loop i [] res = res"
| "online_loop i (p # ps) res = online_loop (i + 1) ps (if p then res OR push_bit i 1 else res)"

definition get_online_processors :: "bool list \<Rightarrow> u32" where
  "get_online_processors processors_online = online_loop 0 (take 6 processors_online) 0"

definition store_be32 :: "addr \<Rightarrow> u32 \<Rightarrow> mem \<Rightarrow> mem" where
  "store_be32 a w m = store_list m a (be32_bytes w)"

definition place_jump :: "addr \<Rightarrow> u64 \<Rightarrow> mem \<Rightarrow> mem" where
  "place_jump addr target m =
     (let m = store_be32 (addr - 0x18 + 0) (0x3c600000 OR ucast (drop_bit 48 target AND 0xFFFF)) m;
          m = store_be32 (addr - 0x18 + 4) 0x786307c6 m;
          m = store_be32 (addr - 0x18 + 8) (0x64630000 OR ucast (drop_bit 16 target AND 0xFFFF)) m;
          m = store_be32 (addr - 0x18 + 0xc) (0x60630000 OR ucast (target AND 0xFFFF)) m;
          m = store_be32 (addr - 0x18 + 0x10) 0x7c6803a6 m;
          m = store_be32 (addr - 0x18 + 0x14) 0x4e800021 m
      in store_be32 (addr + 0) 0x4bffffe8 m)"

section \<open>A loaded image\<close>

text \<open>The sections that are loaded, and the places they are loaded to.\<close>

definition loaded :: "shdr \<Rightarrow> bool" where
  "loaded h \<longleftrightarrow> sh_flags h AND SHF_ALLOC \<noteq> 0 \<and> sh_size h \<noteq> 0"

definition target_region :: "shdr \<Rightarrow> addr set" where
  "target_region h = (if loaded h then region (sh_target h) (unat (sh_size h)) else {})"

definition section_bytes :: "mem \<Rightarrow> addr \<Rightarrow> shdr \<Rightarrow> u8 list" where
  "section_bytes m addr h = (if sh_type h = SHT_NOBITS then replicate (unat (sh_size h)) 0
     else load_list m (addr + ucast (sh_offset h)) (unat (sh_size h)))"

text \<open>An image of \<open>n\<close> bytes with its headers and the contents of its sections within them, none of which is loaded onto the
  image or onto another section.\<close>

definition elf_image :: "mem \<Rightarrow> addr \<Rightarrow> nat \<Rightarrow> bool" where
  "elf_image m addr n \<longleftrightarrow> 52 \<le> n \<and> n < 2 ^ 32 \<and>
     unat (e_shoff m addr) + unat (e_shnum m addr) * sizeof_shdr \<le> n \<and>
     (\<forall>i < unat (e_shnum m addr). let h = section_header m addr i in
        (loaded h \<and> sh_type h \<noteq> SHT_NOBITS \<longrightarrow> unat (sh_offset h) + unat (sh_size h) \<le> n) \<and>
        target_region h \<inter> region addr n = {} \<and>
        (\<forall>j < i. target_region h \<inter> target_region (section_header m addr j) = {}))"

lemma load_section_unloaded: "\<not> loaded h \<Longrightarrow> load_section addr h m = m"
  by (auto simp: load_section_def loaded_def)

lemma load_section_stores:
  assumes "loaded h" and "sh_type h \<noteq> SHT_NOBITS \<Longrightarrow> region (sh_target h) (unat (sh_size h)) \<inter> region (addr + ucast (sh_offset h)) (unat (sh_size h)) = {}"
  shows "load_section addr h m = store_list m (sh_target h) (section_bytes m addr h)"
  using assms by (auto simp: load_section_def loaded_def section_bytes_def memset_store memcpy_disjoint)

lemma length_section_bytes [simp]: "length (section_bytes m addr h) = unat (sh_size h)"
  by (simp add: section_bytes_def)

lemma load_be_same:
  assumes "load_list m addr n = load_list m' addr n" and "i + k \<le> n"
  shows "load_list m (addr + of_nat i) k = load_list m' (addr + of_nat i) k"
proof -
  have "load_list m1 (addr + of_nat i) k = take k (drop i (load_list m1 addr n))" for m1
    using drop_load_list [of i n m1 addr] take_load_list [of k "n - i" m1 "addr + of_nat i"] assms(2) by simp
  then show ?thesis using assms(1) by simp
qed

lemma load_be32_list: "load_be32 m a = hd (words (load_list m a 4))"
  by (simp add: load_be32_def numeral_eq_Suc algebra_simps)

lemma ucast_u32_of_nat: "(ucast (w :: u32) :: u64) = of_nat (unat w)"
  by (simp add: word_unat_eq_iff unsigned_of_nat take_bit_nat_eq_self less_trans [OF unsigned_less])

lemma load_be32_same:
  assumes "load_list m addr n = load_list m' addr n" and "i + 4 \<le> n"
  shows "load_be32 m (addr + of_nat i) = load_be32 m' (addr + of_nat i)"
  unfolding load_be32_list using load_be_same [OF assms] by simp

lemma headers_same:
  assumes same: "load_list m' addr n = load_list m addr n" and n: "52 \<le> n"
  shows "e_shnum m' addr = e_shnum m addr" and "e_shoff m' addr = e_shoff m addr" and "e_entry m' addr = e_entry m addr"
proof -
  have "load_list m' (addr + of_nat 48) 2 = load_list m (addr + of_nat 48) 2"
    using n by (intro load_be_same [OF same]) simp
  moreover have "load_list mm a 2 = [mm a, mm (a + 1)]" for mm a by (simp add: numeral_2_eq_2)
  ultimately show "e_shnum m' addr = e_shnum m addr" by (simp add: e_shnum_def load_be16_def add.assoc)
  show "e_shoff m' addr = e_shoff m addr" "e_entry m' addr = e_entry m addr"
    using load_be32_same [OF same, of 32] load_be32_same [OF same, of 24] n by (simp_all add: e_shoff_def e_entry_def)
qed

lemma section_header_same:
  assumes same: "load_list m' addr n = load_list m addr n" and n: "52 \<le> n"
    and i: "unat (e_shoff m addr) + i * sizeof_shdr + 24 \<le> n"
  shows "section_header m' addr i = section_header m addr i"
proof -
  define A where "A = addr + ucast (e_shoff m addr) + of_nat (i * sizeof_shdr)"
  let ?o = "unat (e_shoff m addr) + i * sizeof_shdr"
  have a: "A + of_nat k = addr + of_nat (?o + k)" for k
    by (simp only: A_def ucast_u32_of_nat of_nat_add add.assoc)
  have f: "load_be32 m' (A + of_nat k) = load_be32 m (A + of_nat k)" if "k \<le> 20" for k
    unfolding a using that i by (intro load_be32_same [OF same]) simp
  have "shdr_at m' A = shdr_at m A"
    using f [of 4] f [of 8] f [of 12] f [of 16] f [of 20] by (simp add: shdr_at_def)
  then show ?thesis unfolding section_header_def headers_same [OF same n] A_def .
qed

definition section_step :: "mem \<Rightarrow> addr \<Rightarrow> nat \<Rightarrow> mem \<Rightarrow> mem" where
  "section_step m addr j mm = (let h = section_header m addr j in
     if loaded h then store_list mm (sh_target h) (section_bytes m addr h) else mm)"

lemma section_step_other:
  "x \<notin> target_region (section_header m addr j) \<Longrightarrow> section_step m addr j mm x = mm x"
  by (auto simp: section_step_def target_region_def Let_def store_list_other)

lemma sections_other:
  "(\<And>j. j \<in> set js \<Longrightarrow> x \<notin> target_region (section_header m addr j)) \<Longrightarrow> fold (section_step m addr) js mm x = mm x"
  by (induction js arbitrary: mm) (simp_all add: section_step_other)

lemma load_sections_fold:
  assumes img: "elf_image m addr n"
  shows "load_list mi addr n = load_list m addr n \<Longrightarrow> i \<le> unat (e_shnum m addr) \<Longrightarrow>
    load_sections addr i mi = fold (section_step m addr) [i..<unat (e_shnum m addr)] mi"
proof (induction "unat (e_shnum m addr) - i" arbitrary: i mi)
  case 0
  have "e_shnum mi addr = e_shnum m addr" using headers_same(1) [OF 0(2)] img by (simp add: elf_image_def)
  with 0 show ?case by (subst load_sections.simps) simp
next
  case (Suc k)
  let ?N = "unat (e_shnum m addr)" and ?h = "section_header m addr i"
  have i: "i < ?N" using Suc(2) by simp
  have n: "52 \<le> n" "unat (e_shoff m addr) + ?N * sizeof_shdr \<le> n" using img by (auto simp: elf_image_def)
  have h: "loaded ?h \<and> sh_type ?h \<noteq> SHT_NOBITS \<longrightarrow> unat (sh_offset ?h) + unat (sh_size ?h) \<le> n"
    "target_region ?h \<inter> region addr n = {}"
    using img i by (auto simp: elf_image_def Let_def)
  have "i * sizeof_shdr + sizeof_shdr \<le> ?N * sizeof_shdr" using i mult_le_mono1 [of "Suc i" ?N sizeof_shdr] by simp
  then have hd: "section_header mi addr i = ?h"
    using n by (intro section_header_same [OF Suc.prems(1)]) (auto simp: sizeof_shdr_def)
  have step: "load_section addr ?h mi = section_step m addr i mi"
  proof (cases "loaded ?h")
    case True
    have in_image: "sh_type ?h \<noteq> SHT_NOBITS \<Longrightarrow> region (addr + ucast (sh_offset ?h)) (unat (sh_size ?h)) \<subseteq> region addr n"
      unfolding ucast_u32_of_nat using True h(1) by (intro region_sub) auto
    then have "load_section addr ?h mi = store_list mi (sh_target ?h) (section_bytes mi addr ?h)"
      using True h(2) by (intro load_section_stores) (auto simp: target_region_def)
    moreover have "section_bytes mi addr ?h = section_bytes m addr ?h"
      using load_be_same [OF Suc.prems(1), of "unat (sh_offset ?h)" "unat (sh_size ?h)"] True h(1)
      by (simp only: section_bytes_def ucast_u32_of_nat) auto
    ultimately show ?thesis using True by (simp add: section_step_def Let_def)
  next
    case False
    then show ?thesis by (simp add: load_section_unloaded section_step_def Let_def)
  qed
  have "load_list (section_step m addr i mi) addr n = load_list mi addr n"
    using h(2) by (intro load_list_cong section_step_other) auto
  then have "load_sections addr (Suc i) (section_step m addr i mi) = fold (section_step m addr) [Suc i..<?N] (section_step m addr i mi)"
    using Suc i by (intro Suc(1)) auto
  moreover have "load_sections addr i mi = load_sections addr (Suc i) (section_step m addr i mi)"
    using i headers_same(1) [OF Suc.prems(1) n(1)] by (subst load_sections.simps) (simp add: hd step)
  ultimately show ?case using i by (simp add: upt_conv_Cons)
qed

lemma load_elf_image_facts:
  assumes img: "elf_image m addr n"
  shows "fst (load_elf_image addr m) = ucast (e_entry m addr) \<and>
    (\<forall>i < unat (e_shnum m addr). let h = section_header m addr i in loaded h \<longrightarrow>
       load_list (snd (load_elf_image addr m)) (sh_target h) (unat (sh_size h)) = section_bytes m addr h) \<and>
    (\<forall>x. (\<forall>i < unat (e_shnum m addr). x \<notin> target_region (section_header m addr i)) \<longrightarrow> snd (load_elf_image addr m) x = m x)"
proof -
  let ?N = "unat (e_shnum m addr)" and ?H = "section_header m addr" and ?step = "section_step m addr"
  have res: "load_sections addr 0 m = fold ?step [0..<?N] m" by (rule load_sections_fold [OF img]) simp_all
  have other: "fold ?step [0..<?N] m x = m x" if "\<forall>i < ?N. x \<notin> target_region (?H i)" for x
    using that by (intro sections_other) auto
  have "load_list (fold ?step [0..<?N] m) addr n = load_list m addr n"
    using img by (intro load_list_cong other) (auto simp: elf_image_def Let_def)
  then have entry: "e_entry (fold ?step [0..<?N] m) addr = e_entry m addr"
    using headers_same(3) img by (auto simp: elf_image_def)
  have "load_list (fold ?step [0..<?N] m) (sh_target (?H i)) (unat (sh_size (?H i))) = section_bytes m addr (?H i)"
    if i: "i < ?N" "loaded (?H i)" for i
  proof -
    have "[0..<?N] = [0..<i] @ i # [Suc i..<?N]"
      using i(1) upt_add_eq_append [of 0 i "?N - i"] by (simp add: upt_conv_Cons)
    then have f: "fold ?step [0..<?N] m = fold ?step [Suc i..<?N] (?step i (fold ?step [0..<i] m))" by simp
    have tr: "target_region (?H i) = region (sh_target (?H i)) (unat (sh_size (?H i)))" using i(2) by (simp add: target_region_def)
    have dis: "target_region (?H j) \<inter> target_region (?H i) = {}" if "j \<in> set [Suc i..<?N]" for j
      using img that i(1) by (auto simp: elf_image_def Let_def)
    have "load_list (fold ?step [Suc i..<?N] mm) (sh_target (?H i)) (unat (sh_size (?H i))) = load_list mm (sh_target (?H i)) (unat (sh_size (?H i)))" for mm
      by (intro load_list_cong sections_other) (use dis tr in blast)
    moreover have "unat (sh_size (?H i)) \<le> 2 ^ 64"
      using unsigned_less [of "sh_size (?H i)", where ?'a = nat] by simp
    ultimately show ?thesis unfolding f
      using i(2) load_store_list [of "section_bytes m addr (?H i)" "fold ?step [0..<i] m" "sh_target (?H i)"]
      by (simp add: section_step_def Let_def)
  qed
  then show ?thesis using other entry by (simp add: load_elf_image_def res Let_def)
qed

text \<open>C8: \<^verbatim>\<open>load_elf_image\<close> puts an image into place: when the headers and the contents of the sections lie within the image and no section is
  loaded onto the image or onto another one, each section with memory holds afterwards its bytes of the image or zeros, nothing else has
  changed, and the result is the entry point.\<close>

theorem load_elf_image_loads:
  assumes img: "elf_image m addr n"
  shows "fst (load_elf_image addr m) = ucast (e_entry m addr) \<and>
    (\<forall>i < unat (e_shnum m addr). let h = section_header m addr i in loaded h \<longrightarrow>
       load_list (snd (load_elf_image addr m)) (sh_target h) (unat (sh_size h)) = section_bytes m addr h) \<and>
    (\<forall>x. (\<forall>i < unat (e_shnum m addr). x \<notin> target_region (section_header m addr i)) \<longrightarrow> snd (load_elf_image addr m) x = m x)"
  by (rule load_elf_image_facts [OF img])

definition small_elf :: "u8 list" where
  "small_elf = [0x7f, 0x45, 0x4c, 0x46, 1, 2, 1, 0, 0, 0, 0, 0, 0, 0, 0, 0, 0, 2, 0, 20, 0, 0, 0, 1] @ be32_bytes 0x1000 @ be32_bytes 0 @ be32_bytes 52
     @ be32_bytes 0 @ [0, 52, 0, 0, 0, 0, 0, 40, 0, 1, 0, 0]
     @ be32_bytes 0 @ be32_bytes 1 @ be32_bytes 2 @ be32_bytes 0x1000 @ be32_bytes 92 @ be32_bytes 4 @ be32_bytes 0 @ be32_bytes 0 @ be32_bytes 4 @ be32_bytes 0
     @ [0x60, 0, 0, 0]"

definition small_elf_mem :: mem where
  "small_elf_mem x = (if x - LOADER_RAW < 96 then small_elf ! unat (x - LOADER_RAW) else 0)"

lemma load_list_4: "load_list m a 4 = [m a, m (a + 1), m (a + 2), m (a + 3)]"
  by (simp add: numeral_eq_Suc algebra_simps)

lemma small_elf_header:
  "e_shnum small_elf_mem LOADER_RAW = 1" "e_shoff small_elf_mem LOADER_RAW = 52" "e_entry small_elf_mem LOADER_RAW = 0x1000"
  by (simp_all add: e_shnum_def e_shoff_def e_entry_def load_be16_def load_be32_def be32_def small_elf_mem_def LOADER_RAW_def
      small_elf_def be32_bytes_def)

lemma small_elf_section:
  "section_header small_elf_mem LOADER_RAW 0 = \<lparr>sh_type = 1, sh_flags = 2, sh_addr = 0x1000, sh_offset = 92, sh_size = 4\<rparr>"
  unfolding section_header_def small_elf_header
  by (simp add: shdr_at_def load_be32_def be32_def small_elf_mem_def LOADER_RAW_def small_elf_def be32_bytes_def)

abbreviation small_section :: shdr where
  "small_section \<equiv> \<lparr>sh_type = 1, sh_flags = 2, sh_addr = 0x1000, sh_offset = 92, sh_size = 4\<rparr>"

lemma small_section_facts:
  "sh_target small_section = 0x8000000000001000" "loaded small_section"
  "section_bytes small_elf_mem LOADER_RAW small_section = [0x60, 0, 0, 0]"
  by (simp_all add: sh_target_def loaded_def SHF_ALLOC_def section_bytes_def SHT_NOBITS_def load_list_4 small_elf_mem_def LOADER_RAW_def
      small_elf_def be32_bytes_def)

lemma small_elf_image: "elf_image small_elf_mem LOADER_RAW 96"
proof -
  have "region 0x8000000000001000 4 \<inter> region LOADER_RAW 96 = {}"
    by (rule region_disjoint_nat) (simp_all add: LOADER_RAW_def)
  then show ?thesis
    by (simp add: elf_image_def small_elf_header small_elf_section sizeof_shdr_def target_region_def small_section_facts Let_def)
qed

theorem load_elf_image_loads_witness:
  "fst (load_elf_image LOADER_RAW small_elf_mem) = 0x1000 \<and>
   load_list (snd (load_elf_image LOADER_RAW small_elf_mem)) 0x8000000000001000 4 = [0x60, 0, 0, 0]"
  using load_elf_image_loads [OF small_elf_image] small_section_facts
  by (simp add: small_elf_header small_elf_section Let_def del: load_list.simps)

section \<open>Processors\<close>

lemma online_loop_bit:
  "bit (online_loop i ps res) k \<longleftrightarrow> bit res k \<or> (i \<le> k \<and> k < i + length ps \<and> k < 32 \<and> ps ! (k - i))"
proof (induction ps arbitrary: i res)
  case (Cons p ps)
  have "bit (push_bit i 1 :: u32) k \<longleftrightarrow> k = i \<and> k < 32" by (auto simp: bit_exp_iff)
  then show ?case using Cons [of "i + 1" "if p then res OR push_bit i 1 else res"]
    by (cases "k = i") (auto simp: bit_or_iff nth_Cons' Suc_diff_Suc less_Suc_eq_le)
qed auto

lemma get_online_processors_bit:
  "length ps = 6 \<Longrightarrow> bit (get_online_processors ps) k \<longleftrightarrow> k < 6 \<and> ps ! k"
  by (auto simp: get_online_processors_def online_loop_bit)

text \<open>The boot processor waits until all six are there.\<close>

lemma all_processors_online: "length ps = 6 \<Longrightarrow> get_online_processors ps = 0x3f \<longleftrightarrow> (\<forall>i<6. ps ! i)"
proof -
  assume l: "length ps = 6"
  have "(0x3f :: u32) = mask 6" by (simp add: mask_eq_exp_minus_1)
  then have "bit (0x3f :: u32) k \<longleftrightarrow> k < 6" for k by (simp only: bit_mask_iff) auto
  then show ?thesis by (auto simp: bit_eq_iff get_online_processors_bit [OF l])
qed

section \<open>The code in a vector\<close>

text \<open>
  The six instructions in front of the vector, as far as they are used: \<^verbatim>\<open>lis\<close>, \<^verbatim>\<open>sldi\<close> by 32, \<^verbatim>\<open>oris\<close> and \<^verbatim>\<open>ori\<close> on register 3, then
  \<^verbatim>\<open>mtlr\<close> and \<^verbatim>\<open>blrl\<close>; the vector itself holds a branch back by \<^verbatim>\<open>0x18\<close> bytes.
\<close>

definition vector_target :: "mem \<Rightarrow> addr \<Rightarrow> u64" where
  "vector_target m a =
     (let imm = (\<lambda>k. ucast (load_be32 m (a - 0x18 + k)) :: u16);
          r3 = scast (push_bit 16 (ucast (imm 0)) :: u32);
          r3 = push_bit 32 r3;
          r3 = r3 OR push_bit 16 (ucast (imm 8))
      in r3 OR ucast (imm 0xc))"

lemma load_store_be32: "load_be32 (store_be32 a w m) a = w"
  by (simp add: load_be32_def store_be32_def be32_bytes_def be32_be32_bytes add.assoc)

lemma load_store_be32_other:
  "b - a \<notin> {0, 1, 2, 3, -1, -2, -3} \<Longrightarrow> load_be32 (store_be32 b w m) a = load_be32 m a"
  by (auto simp: load_be32_def store_be32_def be32_bytes_def algebra_simps eq_diff_eq diff_eq_eq)

text \<open>The processor goes to the target, for an address whose bits 32 to 47 are clear; these bits are lost.\<close>

lemma place_jump_target:
  "vector_target (place_jump a t m) a = t AND NOT 0x0000FFFF00000000"
proof -
  define b where "b = a - 0x18"
  have a: "a = b + 0x18" by (simp add: b_def)
  let ?m = "place_jump a t m"
  have l: "load_be32 ?m (b + 0) = 0x3c600000 OR ucast (drop_bit 48 t AND 0xFFFF)"
    "load_be32 ?m (b + 8) = 0x64630000 OR ucast (drop_bit 16 t AND 0xFFFF)"
    "load_be32 ?m (b + 0xc) = 0x60630000 OR ucast (t AND 0xFFFF)"
    unfolding place_jump_def Let_def a by (simp_all add: load_store_be32 load_store_be32_other)
  have imm: "ucast (push_bit 16 c OR ucast (x AND 0xFFFF) :: u32) = (ucast x :: u16)" for c and x :: u64
  proof -
    have "(0xFFFF :: u64) = mask 16" by (simp add: mask_eq_exp_minus_1)
    then show ?thesis by (simp only:) (auto simp: bit_eq_iff bit_or_iff bit_push_bit_iff bit_ucast_iff bit_and_iff bit_mask_iff)
  qed
  have c: "(0x3c600000 :: u32) = push_bit 16 0x3c60" "(0x64630000 :: u32) = push_bit 16 0x6463" "(0x60630000 :: u32) = push_bit 16 0x6063"
    by simp_all
  have v: "vector_target ?m a = push_bit 32 (scast (push_bit 16 (ucast (ucast (drop_bit 48 t) :: u16)) :: u32)) OR
      push_bit 16 (ucast (ucast (drop_bit 16 t) :: u16)) OR ucast (ucast t :: u16)"
    unfolding vector_target_def Let_def b_def [symmetric] l c imm by (rule or.assoc)
  have mid: "(0x0000FFFF00000000 :: u64) = push_bit 32 (mask 16)" by (simp add: mask_eq_exp_minus_1)
  show ?thesis unfolding v mid
  proof (rule bit_word_eqI)
    fix n assume n: "n < LENGTH(64)"
    then consider "n < 16" | "16 \<le> n \<and> n < 32" | "32 \<le> n \<and> n < 48" | "48 \<le> n \<and> n < 64" by fastforce
    moreover have "31 \<le> n - 32 \<Longrightarrow> n = 63" using n by simp
    ultimately show "bit (push_bit 32 (scast (push_bit 16 (ucast (ucast (drop_bit 48 t) :: u16)) :: u32)) OR
        push_bit 16 (ucast (ucast (drop_bit 16 t) :: u16)) OR ucast (ucast t :: u16) :: u64) n = bit (t AND NOT (push_bit 32 (mask 16))) n"
      by cases (auto simp: bit_simps min_def)
  qed
qed

end
