(* ===== verification/Xell_Boot.thy ===== *)
theory Xell_Boot
  imports Xell_Vsprintf Xell_Elf Xell_Cdrom Xell_Fat_Files
begin
unbundle bit_operations_syntax

text \<open>
  Parts of \<^verbatim>\<open>src/main.c\<close> that use several components: the dump of the fuses, and starting an image from the FAT file system
  of a USB disk or from a DVD.
\<close>

section \<open>The dump of the fuses\<close>

text \<open>\<open>fuses i\<close> is the 64-bit word at \<^verbatim>\<open>0x8000020000020000 + i * 0x200\<close>. The buffer without its zero byte.\<close>

definition FUSES_SIZE :: nat where "FUSES_SIZE = 350"

fun fuse_lines :: "nat list \<Rightarrow> (nat \<Rightarrow> u64) \<Rightarrow> u8 list \<Rightarrow> u8 list option" where
  "fuse_lines [] fuses buf = Some buf"
| "fuse_lines (i # is) fuses buf =
     (case sprintf (bytes ''fuseset %02d: %016lx'' @ [10]) [VInt (of_nat i), VLong (fuses i)] of None \<Rightarrow> None
      | Some (s, _) \<Rightarrow> fuse_lines is fuses (buf @ s))"

definition fuse_dump :: "(nat \<Rightarrow> u64) \<Rightarrow> u8 list option" where
  "fuse_dump fuses = fuse_lines [0..<12] fuses []"

definition zero_padded :: "nat \<Rightarrow> u64 \<Rightarrow> int \<Rightarrow> u8 list" where
  "zero_padded w n base = (let d = number_magnitude n base 0 in replicate (w - length d) (ch (CHR ''0'')) @ d)"

lemma number_zero_padded:
  assumes "base = 10 \<or> base = 16" and "ty = ZEROPAD \<or> (ty = ZEROPAD OR SIGN \<and> 0 \<le> sint n)"
  shows "number str n base (int w) (-1) ty = Some (str @ zero_padded w n base)"
proof -
  have neg: "\<not> number_negative n ty" using assms(2) by (auto simp: number_negative_def flag_defs)
  have "ty AND LEFT = 0" "ty AND ZEROPAD \<noteq> 0" "ty AND SPECIAL = 0" "ty AND LARGE = 0" "ty AND PLUS = 0" "ty AND SPACE = 0"
    using assms(2) by (auto simp: flag_defs)
  then have m: "number_magnitude n base ty = number_magnitude n base 0" "number_sign n ty = []" "number_prefix base ty = []"
    "number_pads k ty = ([], replicate (nat k) (ch (CHR ''0'')), [])" for k
    using neg by (auto simp: number_magnitude_def number_negative_def number_sign_def number_prefix_def number_pads_def)
  have "number_zeros n base (-1) ty = []" by (simp add: number_zeros_def)
  then show ?thesis
    using number_layout [of base str n "int w" "-1" ty] assms(1)
    by (auto simp: m zero_padded_def number_width_def Let_def)
qed

lemma zero_padded_chars:
  assumes "base = 10 \<or> base = 16"
  shows "\<forall>c \<in> set (zero_padded w n base). isxdigit c"
proof -
  have b: "(2 :: u64) \<le> of_int base" "of_int base \<le> (16 :: u64)" using assms by auto
  have "\<forall>c \<in> set (num_digits lower_digits (of_int base) n). isxdigit c"
    using num_digits_valid [OF reads_lower b] by blast
  then show ?thesis by (auto simp: zero_padded_def number_magnitude_def number_negative_def Let_def isxdigit_iff split: if_splits)
qed

lemma length_zero_padded:
  assumes "2 \<le> base" "base \<le> 36" "unat n < nat base ^ w" "0 < w"
  shows "length (zero_padded w n base) = w"
proof -
  have ub: "uint (of_int base :: u64) = base" using assms by (intro of_int_small(1)) simp_all
  have b: "(2 :: u64) \<le> of_int base" "unat (of_int base :: u64) = nat base"
    using assms ub by (simp add: word_le_def) (simp only: unat_eq_nat_uint ub)
  then have "length (num_digits lower_digits (of_int base) n) \<le> w" using assms(3) by (intro length_num_digits) auto
  then have "length (number_magnitude n base 0) \<le> w"
    using assms(4) by (auto simp: number_magnitude_def number_negative_def Let_def)
  then show ?thesis by (simp add: zero_padded_def Let_def)
qed

definition fuse_text :: "nat \<Rightarrow> u64 \<Rightarrow> u8 list" where
  "fuse_text i v = bytes ''fuseset '' @ zero_padded 2 (of_nat i) 10 @ bytes '': '' @ zero_padded 16 v 16 @ [10]"

lemma fuse_line:
  assumes "i < 12"
  shows "sprintf (bytes ''fuseset %02d: %016lx'' @ [10]) [VInt (of_nat i), VLong v] = Some (fuse_text i v, [])"
proof -
  have u: "unat (of_nat i :: u32) = i" "sint (of_nat i :: u32) = int i" "(scast (of_nat i :: u32) :: u64) = of_nat i" "0 \<le> sint (of_nat i :: u64)"
  proof -
    have "i = 0 \<or> i = 1 \<or> i = 2 \<or> i = 3 \<or> i = 4 \<or> i = 5 \<or> i = 6 \<or> i = 7 \<or> i = 8 \<or> i = 9 \<or> i = 10 \<or> i = 11" using assms by arith
    then show "unat (of_nat i :: u32) = i" "sint (of_nat i :: u32) = int i" "(scast (of_nat i :: u32) :: u64) = of_nat i" "0 \<le> sint (of_nat i :: u64)"
      by (elim disjE; simp)+
  qed
  have n1: "number str (of_nat i) 10 2 (-1) 3 = Some (str @ zero_padded 2 (of_nat i) 10)" for str
    using number_zero_padded [of 10 "ZEROPAD OR SIGN" "of_nat i" str 2] u by (simp add: flag_defs)
  have n2: "number str v 16 16 (-1) 1 = Some (str @ zero_padded 16 v 16)" for str
    using number_zero_padded [of 16 ZEROPAD v str 16] by (simp add: flag_defs)
  show ?thesis
    by (simp add: sprintf_def vsprintf_def bytes_def parse_spec_def parse_width_def parse_precision_def
        parse_qualifier_def convert_def int_arg_def is_digit_def n1 n2 flag_defs fuse_text_def u)
qed

lemma fuse_text_facts:
  assumes "i < 12"
  shows "length (fuse_text i v) = 29" and "\<forall>c \<in> set (fuse_text i v). c \<noteq> 0 \<and> c \<noteq> ch (CHR ''%'')"
proof -
  have "unat (of_nat i :: u64) = i" using assms by (simp add: unsigned_of_nat take_bit_nat_eq_self)
  then have l: "length (zero_padded 2 (of_nat i) 10) = 2" using assms by (intro length_zero_padded) simp_all
  have "unat v < 2 ^ 64" using unsigned_less [of v, where ?'a = nat] by simp
  then have l': "length (zero_padded 16 v 16) = 16" by (intro length_zero_padded) simp_all
  show "length (fuse_text i v) = 29" by (simp add: fuse_text_def l l' bytes_def)
  have x: "isxdigit c \<Longrightarrow> c \<noteq> 0 \<and> c \<noteq> ch (CHR ''%'')" for c by (auto simp: isxdigit_iff)
  show "\<forall>c \<in> set (fuse_text i v). c \<noteq> 0 \<and> c \<noteq> ch (CHR ''%'')"
    using zero_padded_chars [of 10 2 "of_nat i"] zero_padded_chars [of 16 16 v] x
    by (fastforce simp: fuse_text_def bytes_def)
qed

lemma fuse_lines_text:
  "\<forall>i \<in> set is. i < 12 \<Longrightarrow> fuse_lines is fuses buf = Some (buf @ concat (map (\<lambda>i. fuse_text i (fuses i)) is))"
  by (induction "is" arbitrary: buf) (auto simp: fuse_line)

text \<open>C38: The dump of the twelve fuse sets, whatever they hold, fits the 350 bytes of \<^verbatim>\<open>FUSES\<close> with its zero byte, and \<^verbatim>\<open>printf\<close> with the dump as
  its format prints it unchanged.\<close>

theorem fuse_dump_fits:
  "\<exists>out. fuse_dump fuses = Some out \<and> length out + 1 \<le> FUSES_SIZE \<and> printf out [] = Some out"
proof -
  define out where "out = concat (map (\<lambda>i. fuse_text i (fuses i)) [0..<12])"
  have d: "fuse_dump fuses = Some out" unfolding fuse_dump_def out_def by (subst fuse_lines_text) auto
  have "length (concat (map (\<lambda>i. fuse_text i (fuses i)) is)) = 29 * length is" if "\<forall>i \<in> set is. i < 12" for "is"
    using that by (induction "is") (simp_all add: fuse_text_facts(1))
  then have len: "length out = 348" by (simp add: out_def del: upt_Suc)
  have chars: "\<forall>c \<in> set out. c \<noteq> 0 \<and> c \<noteq> ch (CHR ''%'')" using fuse_text_facts(2) by (fastforce simp: out_def)
  then have "vsprintf out [] = Some (out, [])"
    using vsprintf_loop_literal [of out "[]" "[]" "[]" "[]"] by (auto simp: vsprintf_def)
  moreover have "takeWhile (\<lambda>c. c \<noteq> 0) out = out" using chars by (auto simp: takeWhile_eq_all_conv)
  ultimately have "printf out [] = Some out" using len by (simp add: printf_def)
  with d len show ?thesis by (simp add: FUSES_SIZE_def)
qed

section \<open>Booting\<close>

text \<open>What \<^verbatim>\<open>try_boot_fat\<close> of \<^verbatim>\<open>src/main.c\<close> starts, if it does, and the state of the file system. The result of \<^verbatim>\<open>fat_read\<close> is not looked at.\<close>

definition try_boot_fat ::
    "'b fat_env \<Rightarrow> addr \<Rightarrow> u8 list \<Rightarrow> 'b fat_state \<Rightarrow> ((u64 \<times> (u64 \<times> u64 \<times> u64 \<times> u64 \<times> u64) \<times> mem) option \<times> 'b fat_state) option" where
  "try_boot_fat E dt filename s = (case fat_open E filename s of None \<Rightarrow> None
     | Some (err, s) \<Rightarrow>
         if err = 0 then let (r, s) = fat_read E LOADER_RAW (word_of_int LOADER_MAXSIZE) s
                         in Some (Some (execute_elf_at dt LOADER_RAW (fmem s)), s)
         else Some (None, s))"

definition boot_cdrom ::
    "'d cd_env \<Rightarrow> addr \<Rightarrow> u8 list option \<Rightarrow> 'd cd_state \<Rightarrow> ((u64 \<times> (u64 \<times> u64 \<times> u64 \<times> u64 \<times> u64) \<times> mem) option \<times> 'd cd_state) option" where
  "boot_cdrom E dt filename s = (case try_boot_cdrom E filename s of None \<Rightarrow> None
     | Some (r, s) \<Rightarrow> Some (map_option (\<lambda>a. execute_elf_at dt a (cmem s)) r, s))"

text \<open>An image is what its bytes are.\<close>

lemma elf_image_same:
  assumes same: "load_list m' a n = load_list m a n" and img: "elf_image m a n"
  shows "elf_image m' a n" "e_entry m' a = e_entry m a" "e_shnum m' a = e_shnum m a"
    "\<And>i. i < unat (e_shnum m a) \<Longrightarrow> section_header m' a i = section_header m a i"
    "\<And>i. i < unat (e_shnum m a) \<Longrightarrow> loaded (section_header m a i) \<Longrightarrow> section_bytes m' a (section_header m a i) = section_bytes m a (section_header m a i)"
proof -
  have n: "52 \<le> n" "unat (e_shoff m a) + unat (e_shnum m a) * sizeof_shdr \<le> n" using img by (auto simp: elf_image_def)
  note h = headers_same [OF same n(1)]
  show "e_entry m' a = e_entry m a" "e_shnum m' a = e_shnum m a" by (rule h)+
  show sec: "section_header m' a i = section_header m a i" if "i < unat (e_shnum m a)" for i
  proof (rule section_header_same [OF same n(1)])
    have "i * sizeof_shdr + sizeof_shdr \<le> unat (e_shnum m a) * sizeof_shdr"
      using that mult_le_mono1 [of "Suc i" "unat (e_shnum m a)" sizeof_shdr] by simp
    then show "unat (e_shoff m a) + i * sizeof_shdr + 24 \<le> n" using n by (simp add: sizeof_shdr_def)
  qed
  show "elf_image m' a n" using img by (simp add: elf_image_def h sec Let_def)
  show "section_bytes m' a (section_header m a i) = section_bytes m a (section_header m a i)"
    if "i < unat (e_shnum m a)" "loaded (section_header m a i)" for i
  proof (cases "sh_type (section_header m a i) = SHT_NOBITS")
    case False
    with that img have "unat (sh_offset (section_header m a i)) + unat (sh_size (section_header m a i)) \<le> n"
      by (auto simp: elf_image_def Let_def)
    from load_be_same [OF same this] show ?thesis by (simp only: section_bytes_def ucast_u32_of_nat)
  qed (simp add: section_bytes_def)
qed

text \<open>What is started: the entry point with its arguments, and the sections of the image in their places.\<close>

definition starts :: "addr \<Rightarrow> mem \<Rightarrow> addr \<Rightarrow> u64 \<times> (u64 \<times> u64 \<times> u64 \<times> u64 \<times> u64) \<times> mem \<Rightarrow> bool" where
  "starts dt m a r \<longleftrightarrow> (case r of (hold, args, m') \<Rightarrow>
     hold = ucast (e_entry m a) OR 0x8000000000000060 \<and>
     args = (dt AND 0x7fffffffffffffff, ucast (e_entry m a), 0, ucast (e_entry m a), 0) \<and>
     (\<forall>i < unat (e_shnum m a). let h = section_header m a i in
        loaded h \<longrightarrow> load_list m' (sh_target h) (unat (sh_size h)) = section_bytes m a h))"

lemma execute_starts:
  assumes same: "load_list m' a n = load_list m a n" and img: "elf_image m a n"
  shows "starts dt m a (execute_elf_at dt a m')"
proof -
  note s = elf_image_same [OF same img]
  show ?thesis using load_elf_image_facts [OF s(1)]
    by (auto simp: starts_def execute_elf_at_def s Let_def split: prod.splits)
qed

text \<open>A file of a file system of the first USB disk.\<close>

lemma loader_size: "unat (word_of_int LOADER_MAXSIZE :: u32) = 0x1000000"
  by (simp add: LOADER_MAXSIZE_def)

lemma fat_boot_facts:
  assumes fs: "fs_ok E disk nsec s" and v: "same_fs v s" and dir: "dir_buffer_ok E" and path: "path_to disk nsec v 0 fname c sz"
    and bs: "cluster_bytes disk nsec v c bs"
    and reg: "region (raw_buf E) 512 \<inter> region LOADER_RAW 0x1000000 = {}" "region (fat_at E) 4 \<inter> region LOADER_RAW 0x1000000 = {}"
    and img: "elf_image (store_list m0 LOADER_RAW bs) LOADER_RAW n" and n: "n \<le> length bs" "n \<le> 0x1000000" "length bs \<le> 2 ^ 64"
  shows "\<exists>r s'. try_boot_fat E dt fname s = Some (Some r, s') \<and> starts dt (store_list m0 LOADER_RAW bs) LOADER_RAW r"
proof -
  obtain s1 where s1: "fat_open E fname s = Some (0, s1)" "fs_ok E disk nsec s1" "ahead disk nsec s1 bs"
    using fat_open_path [OF path fs v dir bs] by (auto simp: fat_open_def)
  obtain r s2 where r: "fat_read E LOADER_RAW (word_of_int LOADER_MAXSIZE) s1 = (r, s2)"
    and f: "fetches E disk nsec LOADER_RAW (min 0x1000000 (length bs)) bs s1 s2"
    using read_extent_correct [OF s1(2,3), of LOADER_RAW "word_of_int LOADER_MAXSIZE"] reg unfolding loader_size fat_read_def by blast
  have l: "load_list (fmem s2) LOADER_RAW (min 0x1000000 (length bs)) = take (min 0x1000000 (length bs)) bs"
    using f by (simp only: fetches_def)
  have "load_list (fmem s2) LOADER_RAW n = take n bs"
    using take_load_list [of n "min 0x1000000 (length bs)" "fmem s2" LOADER_RAW] l n by simp
  moreover have "load_list (store_list m0 LOADER_RAW bs) LOADER_RAW n = take n bs"
    using take_load_list [OF n(1), of "store_list m0 LOADER_RAW bs" LOADER_RAW] load_store_list [OF n(3)] by simp
  ultimately have "load_list (fmem s2) LOADER_RAW n = load_list (store_list m0 LOADER_RAW bs) LOADER_RAW n" by simp
  from execute_starts [OF this img] show ?thesis
    by (intro exI [of _ "execute_elf_at dt LOADER_RAW (fmem s2)"] exI [of _ s2]) (simp add: try_boot_fat_def s1(1) r)
qed

lemma cdrom_boot_facts:
  assumes cd: "cd_drive E ph busy answer disc" and iso: "iso_disc disc rss"
    and modeb: "length (answer (packet_words [0xE7, 0x48, 0x49, 0x54, 0x30, 0x90, 0x90, 0xd0, 0x01, 0, 0, 0])) = 12"
    and r: "iso_lookup rss (case fname of None \<Rightarrow> bytes ''vmlinux'' | Some f \<Rightarrow> f) = Some r" "0 \<le> sint (rec_size r)" "sint (rec_size r) < 2 ^ 31 - 0x800"
    and img: "elf_image (store_list m0 LOADER_RAW (sectors disc (rec_lba r) (n_sectors (sint (rec_size r))))) LOADER_RAW n"
    and n: "int n \<le> sint (rec_size r)"
  shows "\<exists>x s'. boot_cdrom E dt fname s = Some (Some x, s') \<and>
    starts dt (store_list m0 LOADER_RAW (sectors disc (rec_lba r) (n_sectors (sint (rec_size r))))) LOADER_RAW x"
proof -
  let ?f = "case fname of None \<Rightarrow> bytes ''vmlinux'' | Some f \<Rightarrow> f" and ?z = "sint (rec_size r)"
  let ?b = "sectors disc (rec_lba r) (n_sectors ?z)"
  obtain s1 where s1: "set_modeb E s = Some (0, s1)"
    using atapi_packet_answer [of E ph busy answer "[0xE7, 0x48, 0x49, 0x54, 0x30, 0x90, 0x90, 0xd0, 0x01, 0, 0, 0]" "0x30" "modeb_res E" s] cd modeb
    by (auto simp: set_modeb_def cd_drive_def)
  have "\<forall>q. iso_lookup rss ?f = Some q \<longrightarrow> 0 \<le> sint (rec_size q) \<and> sint (rec_size q) < 2 ^ 31 - 0x800" using r by simp
  from iso9660_loads_facts [OF cd iso this, of LOADER_RAW s1, unfolded r(1) option.case]
  obtain s2 where s2: "iso9660_load_file E ?f LOADER_RAW s1 = Some (?z, s2)" "load_list (cmem s2) LOADER_RAW (nat ?z) = take (nat ?z) ?b"
    by blast
  have "n \<le> nat ?z" using n by simp
  then have a: "load_list (cmem s2) LOADER_RAW n = take n ?b"
    using take_load_list [of n "nat ?z" "cmem s2" LOADER_RAW] s2(2) by (simp add: min_def)
  have len: "length ?b = 0x800 * n_sectors ?z" by (rule cd_drive_sectors [OF cd])
  have "int (n_sectors ?z) = (?z + 0x800 - 1) div 0x800" using r(2) by (simp add: n_sectors_def zdiv_int)
  from int_ceil_bounds [OF _ this] have "n \<le> length ?b" "length ?b \<le> 2 ^ 64" using n r(3) len by simp_all
  then have "load_list (store_list m0 LOADER_RAW ?b) LOADER_RAW n = take n ?b"
    using take_load_list [of n "length ?b" "store_list m0 LOADER_RAW ?b" LOADER_RAW] load_store_list [of ?b m0 LOADER_RAW] by simp
  with a have "load_list (cmem s2) LOADER_RAW n = load_list (store_list m0 LOADER_RAW ?b) LOADER_RAW n" by simp
  from execute_starts [OF this img] show ?thesis
    using s1 s2(1) r(2) by (intro exI [of _ "execute_elf_at dt LOADER_RAW (cmem s2)"] exI [of _ s2]) (simp add: boot_cdrom_def try_boot_cdrom_def)
qed

section \<open>Two media\<close>

lemma length_small_elf: "length small_elf = 96"
  by (simp add: small_elf_def be32_bytes_def)

lemma small_elf_bytes: "load_list small_elf_mem LOADER_RAW 96 = small_elf"
proof (rule nth_equalityI)
  fix i assume "i < length (load_list small_elf_mem LOADER_RAW 96)"
  then have i: "i < 96" by simp
  then have "unat (of_nat i :: u64) = i" by (simp add: unsigned_of_nat take_bit_nat_eq_self)
  moreover from this i have "(of_nat i :: u64) < 96" by (simp add: word_less_nat_alt)
  ultimately show "load_list small_elf_mem LOADER_RAW 96 ! i = small_elf ! i" using i by (simp add: load_list_nth small_elf_mem_def)
qed (simp add: length_small_elf)

lemma small_elf_stored:
  assumes "take 96 bs = small_elf" and "length bs \<le> 2 ^ 64"
  shows "load_list (store_list m0 LOADER_RAW bs) LOADER_RAW 96 = load_list small_elf_mem LOADER_RAW 96"
proof -
  have "96 \<le> length bs" using arg_cong [OF assms(1), of length] by (simp add: length_small_elf)
  then show ?thesis
    using take_load_list [of 96 "length bs" "store_list m0 LOADER_RAW bs" LOADER_RAW] load_store_list [OF assms(2)] assms(1)
    by (simp add: small_elf_bytes)
qed

lemma small_starts:
  assumes "take 96 bs = small_elf" and "length bs \<le> 2 ^ 64" and "starts dt (store_list m0 LOADER_RAW bs) LOADER_RAW (hold, args, m')"
  shows "hold = 0x8000000000001060 \<and> load_list m' 0x8000000000001000 4 = [0x60, 0, 0, 0]"
proof -
  note e = elf_image_same [OF small_elf_stored [OF assms(1,2)] small_elf_image]
  have "section_header (store_list m0 LOADER_RAW bs) LOADER_RAW 0 = small_section" using e(4) [of 0] by (simp add: small_elf_header small_elf_section)
  moreover have "section_bytes (store_list m0 LOADER_RAW bs) LOADER_RAW small_section = [0x60, 0, 0, 0]"
    using e(5) [of 0] by (simp add: small_elf_header small_elf_section small_section_facts)
  ultimately show ?thesis
    using assms(3) by (simp add: starts_def e(2,3) small_elf_header small_section_facts Let_def del: load_list.simps)
qed

definition elf_disk :: "nat \<Rightarrow> u8" where
  "elf_disk i = (if 1536 \<le> i \<and> i < 1632 then small_elf ! (i - 1536) else demo_disk i)"

lemma elf_disk_low: "i < 1536 \<Longrightarrow> elf_disk i = demo_disk i"
  by (simp add: elf_disk_def)

lemma elf_next: "next_of elf_disk demo_fs 2 = 3" "next_of elf_disk demo_fs 3 = 5" "next_of elf_disk demo_fs 5 = 0xfff"
  using demo_next by (simp_all add: next_of_def fat_entry_def table_at_def demo_fs_def disk_le16_def elf_disk_low)

abbreviation elf_file :: "u8 list" where
  "elf_file \<equiv> chain_bytes elf_disk demo_fs [2, 3, 5]"

lemma elf_file: "length elf_file = 1536" "take 96 elf_file = small_elf"
proof -
  have b: "unat (bytes_per_cluster demo_fs) = 512" "cluster_at demo_fs 2 = 1536" by (simp_all add: demo_fs_def cluster_at_def)
  show "length elf_file = 1536" by (simp add: chain_bytes_def b)
  have "take 96 (slice elf_disk 1536 512) = small_elf"
    by (rule nth_equalityI) (auto simp: elf_disk_def length_small_elf)
  then show "take 96 elf_file = small_elf" by (simp add: chain_bytes_def b)
qed

lemma elf_regions:
  "region (raw_buf (demo_env disk)) 512 \<inter> region LOADER_RAW 0x1000000 = {}" "region (fat_at (demo_env disk)) 4 \<inter> region LOADER_RAW 0x1000000 = {}"
  by (auto intro!: region_disjoint_nat(1) simp: demo_env_def LOADER_RAW_def)

definition elf_disc :: "u32 \<Rightarrow> u8 list" where
  "elf_disc l = (if l = 21 then padded small_elf else small_disc l)"

lemma elf_disc_length: "length (elf_disc l) = 0x800"
  by (simp add: elf_disc_def small_disc_length padded_def length_small_elf)

lemma elf_disc_iso: "iso_disc elf_disc [small_records]"
proof -
  have "elf_disc 16 = small_disc 16" "dir_on_disc elf_disc 20 [small_records] = dir_on_disc small_disc 20 [small_records]"
    by (simp_all add: elf_disc_def)
  moreover have "rec_lba (take (unat (small_disc 16 ! 156)) (drop 156 (small_disc 16))) = 20"
  proof -
    have d16: "drop 156 (small_disc 16) = dir_record 20 2048 [0] @ replicate 1858 0"
      by (simp add: small_disc_def padded_def dir_record_def Let_def be32_bytes_def)
    have n156: "small_disc 16 ! 156 = 34"
      using d16 nth_drop [of 156 "small_disc 16" 0] small_disc_length [of 16]
      by (simp add: dir_record_def Let_def be32_bytes_def)
    show ?thesis unfolding n156 d16 using dir_record_fields(2) [of 20 2048 "[0]"] by (simp add: dir_record_def Let_def be32_bytes_def)
  qed
  ultimately show ?thesis using small_disc_iso by (simp add: iso_disc_def Let_def)
qed

end
