(* ===== verification/Xell_Usb_Boot.thy ===== *)
theory Xell_Usb_Boot
  imports Xell_Boot Xell_Mount Xell_Update
begin
unbundle bit_operations_syntax

text \<open>
  What \<^verbatim>\<open>main\<close> of \<^verbatim>\<open>src/main.c\<close> does with a USB disk (\<open>boot_usb\<close>): mounting, starting a kernel and updating the loader in flash. It joins
  the file system, the ELF loader and the flash update; its two theorems are in the root theory.
\<close>

section \<open>The USB disk\<close>

text \<open>
  What \<^verbatim>\<open>main\<close> of \<^verbatim>\<open>src/main.c\<close> does with the disk that was found, or not, while it waited: mount it, start \<^verbatim>\<open>xenon.elf\<close>, and
  else write \<^verbatim>\<open>updxell.bin\<close> to flash. Both ends never come back; they are results here. \<^verbatim>\<open>delay\<close> and the messages change neither memory nor a device.
\<close>

type_synonym jump_state = "u64 \<times> (u64 \<times> u64 \<times> u64 \<times> u64 \<times> u64) \<times> mem"

datatype usb_result = UsbFailed | NoUpdate | Starts jump_state | Update update_result

definition boot_usb ::
    "'b fat_env \<Rightarrow> 'd sfcx \<Rightarrow> addr \<Rightarrow> addr \<Rightarrow> addr \<Rightarrow> 'b option \<Rightarrow> 'b fat_state \<Rightarrow> 'd flash_state \<Rightarrow> (usb_result \<times> 'b fat_state \<times> 'd flash_state) option" where
  "boot_usb E F hdr block dt f s fl = (case f of None \<Rightarrow> Some (UsbFailed, s, fl)
     | Some d \<Rightarrow> do {
         (err, s) \<leftarrow> fat_init E d s;
         if err \<noteq> 0 then Some (UsbFailed, s, fl)
         else do {
           (r, s) \<leftarrow> try_boot_fat E dt (bytes ''xenon.elf'') s;
           case r of Some x \<Rightarrow> Some (Starts x, s, fl)
           | None \<Rightarrow> do {
               (err, s) \<leftarrow> fat_open E (bytes ''/updxell.bin'') s;
               if err \<noteq> 0 then Some (NoUpdate, s, fl)
               else let (_, s) = fat_read E LOADER_RAW (word_of_int LOADER_MAXSIZE) s in do {
                 (u, fl) \<leftarrow> update_xell_flash F hdr block LOADER_RAW (fat_file_size s) (fl\<lparr>flmem := fmem s\<rparr>);
                 Some (Update u, s\<lparr>fmem := flmem fl\<rparr>, fl)
               }
             }
         }
       })"

text \<open>A file that is not in the root directory.\<close>

lemma fat_open_missing:
  assumes fs: "fs_ok E disk nsec s" and db: "dir_buffer_ok E" and p: "path \<noteq> []" "parse_component path = (n, [])"
    and cb: "cluster_bytes disk nsec s 0 (concat es)" and es: "\<forall>e\<in>set es. length e = 32" and miss: "\<nexists>e. scan n False es = ScanHit e"
  shows "\<exists>s'. fat_open E path s = Some (- 1, s') \<and> fs_ok E disk nsec s' \<and> same_fs s s'"
proof -
  let ?s = "(get_extent E 0 s)\<lparr>fat_name := n\<rparr>"
  note ge = get_extent_bytes [OF fs cb]
  have sf: "same_fs s ?s" using ge by (simp add: quiet_def)
  obtain res where r: "dir_loop E [] ?s = Some res" "dir_answer E disk nsec [] es ?s res"
    using dir_loop_correct [of E disk nsec ?s es "[]"] ge db es by auto
  then have f: "fs_ok E disk nsec (snd res)" "same_fs ?s (snd res)" "fst res = DirReturn (- 1) \<or> fst res = DirEnd"
    using miss by (auto simp: dir_answer_def split: scan_result.splits)
  have "open_loop E [] 0 s' = Some (- 1, s')" for s' by (subst open_loop.simps) simp
  then have "fat_open E path s = Some (- 1, snd res)"
    unfolding fat_open_def using p r(1) f(3) by (subst open_loop.simps) (cases res, auto)
  with f same_fs_trans [OF sf] show ?thesis by blast
qed

text \<open>The file at the load address, as far as the space there goes, and a disk that can be mounted with buffers that are apart.\<close>

definition holds_image :: "mem \<Rightarrow> u8 list \<Rightarrow> bool" where
  "holds_image m bs \<longleftrightarrow> load_list m LOADER_RAW (min 0x1000000 (length bs)) = take 0x1000000 bs"

definition usb_ready :: "'b fat_env \<Rightarrow> 'b \<Rightarrow> (nat \<Rightarrow> u8) \<Rightarrow> nat \<Rightarrow> nat \<Rightarrow> 'b fat_state \<Rightarrow> bool" where
  "usb_ready E d disk nsec p s \<longleftrightarrow> good_dev E d disk nsec \<and> cache_ok E disk nsec s \<and> volume_at disk p \<and> volume_complete (bpb_at disk p) p nsec
     \<and> dir_buffer_ok E \<and> region (raw_buf E) 512 \<inter> region (sb_at E) 512 = {} \<and> region (raw_buf E) 512 \<inter> region (fat_at E) 4 = {}
     \<and> region (raw_buf E) 512 \<inter> region LOADER_RAW 0x1000000 = {} \<and> region (fat_at E) 4 \<inter> region LOADER_RAW 0x1000000 = {}"

lemma usb_mount:
  assumes "usb_ready E d disk nsec p s" and "volume_fs d disk p v"
  obtains s1 where "fat_init E d s = Some (0, s1)" and "fs_ok E disk nsec s1" and "same_fs v s1"
  using mount_facts [of E d disk nsec s p] assms volume_fs_same [OF assms(2)] unfolding usb_ready_def by blast

lemma usb_boot_facts:
  assumes u: "usb_ready E d disk nsec p s" and v: "volume_fs d disk p v"
    and path: "path_to disk nsec v 0 (bytes ''xenon.elf'') c sz" and bs: "cluster_bytes disk nsec v c bs"
    and img: "elf_image (store_list m0 LOADER_RAW bs) LOADER_RAW n" "n \<le> length bs" "n \<le> 0x1000000" "length bs \<le> 2 ^ 64"
  shows "\<exists>r s'. boot_usb E F hdr block dt (Some d) s fl = Some (Starts r, s', fl) \<and> starts dt (store_list m0 LOADER_RAW bs) LOADER_RAW r"
proof -
  obtain s1 where s1: "fat_init E d s = Some (0, s1)" "fs_ok E disk nsec s1" "same_fs v s1" by (rule usb_mount [OF u v])
  have "dir_buffer_ok E" "region (raw_buf E) 512 \<inter> region LOADER_RAW 0x1000000 = {}" "region (fat_at E) 4 \<inter> region LOADER_RAW 0x1000000 = {}"
    using u by (simp_all only: usb_ready_def)
  from fat_boot_facts [OF s1(2,3) this(1) path bs this(2,3) img] obtain r s' where
    "try_boot_fat E dt (bytes ''xenon.elf'') s1 = Some (Some r, s')" "starts dt (store_list m0 LOADER_RAW bs) LOADER_RAW r" by blast
  then show ?thesis using s1(1) by (auto simp: boot_usb_def)
qed

lemma usb_update_facts:
  assumes u: "usb_ready E d disk nsec p s" and v: "volume_fs d disk p v"
    and root: "cluster_bytes disk nsec v 0 (concat es)" "\<forall>e\<in>set es. length e = 32"
    and miss: "\<nexists>e. scan (bytes ''XENON   ELF'') False es = ScanHit e"
    and path: "path_to disk nsec v 0 (bytes ''/updxell.bin'') c sz" and bs: "cluster_bytes disk nsec v c bs"
    and law: "ready_law F busy"
    and reg: "region LOADER_RAW 0x40000 \<inter> region block 0x210 = {}" "region LOADER_RAW 0x40000 \<inter> region hdr 0x210 = {}"
  shows "\<exists>r s' fl' L. boot_usb E F hdr block dt (Some d) s fl = Some (Update r, s', fl') \<and> stores fl' = stores fl @ L \<and>
    (r = Refused \<longrightarrow> flash_ops a f w buf L = []) \<and>
    (r = Done \<longrightarrow> (\<exists>m phys. holds_image m bs \<and> load_list m LOADER_RAW 4 \<noteq> 0x7f # bytes ''ELF'' \<and> (\<forall>i. phys i AND 0x1ff = 0) \<and>
       flash_ops a f w buf L = concat (map (block_ops m LOADER_RAW sz block phys) [0..<16])))"
proof -
  obtain s1 where s1: "fat_init E d s = Some (0, s1)" "fs_ok E disk nsec s1" "same_fs v s1" by (rule usb_mount [OF u v])
  have db: "dir_buffer_ok E" and r: "region (raw_buf E) 512 \<inter> region LOADER_RAW 0x1000000 = {}" "region (fat_at E) 4 \<inter> region LOADER_RAW 0x1000000 = {}"
    using u by (simp_all only: usb_ready_def)
  have p: "parse_component (bytes ''xenon.elf'') = (bytes ''XENON   ELF'', [])" by code_simp
  have "bytes ''xenon.elf'' \<noteq> []" by (simp add: bytes_def)
  from fat_open_missing [OF s1(2) db this p _ root(2) miss] root(1) cluster_bytes_same [OF s1(3)] obtain s2 where
    s2: "fat_open E (bytes ''xenon.elf'') s1 = Some (- 1, s2)" "fs_ok E disk nsec s2" "same_fs s1 s2" by auto
  from fat_open_path [OF path s2(2) same_fs_trans [OF s1(3) s2(3)] db bs] obtain s3 where
    s3: "fat_open E (bytes ''/updxell.bin'') s2 = Some (0, s3)" "fat_file_size s3 = sz" "fs_ok E disk nsec s3" "ahead disk nsec s3 bs"
    by (auto simp: fat_open_def)
  obtain e s4 where s4: "fat_read E LOADER_RAW (word_of_int LOADER_MAXSIZE) s3 = (e, s4)"
    and f: "fetches E disk nsec LOADER_RAW (min 0x1000000 (length bs)) bs s3 s4"
    using read_extent_correct [OF s3(3,4), of LOADER_RAW "word_of_int LOADER_MAXSIZE"] r unfolding loader_size fat_read_def by blast
  have h: "holds_image (fmem s4) bs" and sz: "fat_file_size s4 = sz" using f s3(2) by (simp_all add: fetches_def holds_image_def min_def)
  let ?fl = "fl\<lparr>flmem := fmem s4\<rparr>"
  have fl: "flmem ?fl = fmem s4" "stores ?fl = stores fl" by simp_all
  obtain x fl' L where x: "update_xell_flash F hdr block LOADER_RAW sz ?fl = Some (x, fl')" "stores fl' = stores fl @ L"
    "x = Refused \<longrightarrow> flash_ops a f w buf L = []"
    "x = Done \<longrightarrow> load_list (fmem s4) LOADER_RAW 4 \<noteq> 0x7f # bytes ''ELF'' \<and>
       (\<exists>phys. flash_ops a f w buf L = concat (map (block_ops (fmem s4) LOADER_RAW sz block phys) [0..<16]) \<and> (\<forall>i. phys i AND 0x1ff = 0))"
    using update_image_facts [OF law reg, of sz ?fl a f w buf] unfolding fl by blast
  have "boot_usb E F hdr block dt (Some d) s fl = Some (Update x, s4\<lparr>fmem := flmem fl'\<rparr>, fl')"
    using s1(1) s2(1) s3(1) s4 sz x(1) by (simp add: boot_usb_def try_boot_fat_def)
  with x h show ?thesis by blast
qed

section \<open>Two disks\<close>

text \<open>The disks of the examples before as whole disks: with a parameter block, and one file of the given name.\<close>

definition usb_disk :: "u8 list \<Rightarrow> (nat \<Rightarrow> u8) \<Rightarrow> nat \<Rightarrow> u8" where
  "usb_disk name base i = (if i = 12 then 2 else if i = 13 then 1 else if i = 14 then 1 else if i = 16 then 1 else if i = 17 then 1
     else if i = 19 then 16 else if i = 21 then 0xf8 else if i = 22 then 1 else if i = 510 then 0x55 else if i = 511 then 0xaa
     else if 1024 \<le> i \<and> i < 1035 then name ! (i - 1024) else if i < 512 then 0 else base i)"

lemma usb_bpb:
  "bpb_at (usb_disk name base) 0 = \<lparr>b_bps = 512, b_spc = 1, b_reserved = 1, fat_count = 1, root_count = 1, b_total = 16, per_fat = 1, root_first = 0\<rparr>"
  by (simp add: bpb_at_def disk_le16_def disk_le32_def usb_disk_def)

lemma usb_geometry:
  "data_start (bpb_at (usb_disk name base) 0) = 3" "cluster_count (bpb_at (usb_disk name base) 0) = 13" "entry_bits (bpb_at (usb_disk name base) 0) = 12"
  by (simp_all add: usb_bpb cluster_count_def data_start_def root_start_def entry_bits_def)

lemma usb_volume: "volume_fs () (usb_disk name base) 0 demo_fs"
  by (simp add: volume_fs_def Let_def usb_geometry) (simp add: usb_bpb root_start_def demo_fs_def)

lemma usb_demo_ready: "usb_ready (demo_env (usb_disk name base)) () (usb_disk name base) 16 0 demo_fs"
proof -
  have "region (raw_buf (demo_env (usb_disk name base))) 512 \<inter> region (sb_at (demo_env (usb_disk name base))) 512 = {}"
    by (rule region_disjoint_nat(1)) (simp_all add: demo_env_def)
  moreover have "fat_like (usb_disk name base) 0" by (simp add: fat_like_def disk_le16_def usb_disk_def)
  then have "volume_at (usb_disk name base) 0" by (simp add: volume_at_def disk_le16_def usb_disk_def)
  moreover have "volume_complete (bpb_at (usb_disk name base) 0) 0 16"
    by (simp add: volume_complete_def usb_geometry) (simp add: usb_bpb)
  moreover have "cache_ok (demo_env (usb_disk name base)) (usb_disk name base) 16 demo_fs" by (simp add: cache_ok_def demo_fs_def)
  ultimately show ?thesis using demo_good demo_regions(1,2) elf_regions by (simp add: usb_ready_def)
qed

lemma usb_disk_base: "512 \<le> i \<Longrightarrow> i < 1024 \<or> 1035 \<le> i \<Longrightarrow> usb_disk name base i = base i"
  by (auto simp: usb_disk_def)

lemma usb_next: "c < 8 \<Longrightarrow> next_of (usb_disk name base) demo_fs c = next_of base demo_fs c"
proof -
  assume "c < 8"
  then have "c div 2 < 4" by simp
  then show ?thesis by (simp add: next_of_def fat_entry_def table_at_def demo_fs_def disk_le16_def usb_disk_base)
qed

lemma usb_file:
  assumes "next_of base demo_fs 2 = 3" and "next_of base demo_fs 3 = 5" and "next_of base demo_fs 5 = 0xfff"
  shows "cluster_bytes (usb_disk name base) 16 demo_fs 2 (chain_bytes base demo_fs [2, 3, 5])"
proof -
  have "fat_chain (usb_disk name base) demo_fs 2 [2, 3, 5]" by (simp add: usb_next assms valid_cluster_def) (simp add: demo_fs_def)
  moreover have "length [2, 3, 5 :: nat] * unat (bytes_per_cluster demo_fs) < 2 ^ 32" by (simp add: demo_fs_def)
  moreover have "slice (usb_disk name base) a 512 = slice base a 512" if "1536 \<le> a" for a
    using that by (intro nth_equalityI) (simp_all add: usb_disk_base)
  then have "chain_bytes (usb_disk name base) demo_fs [2, 3, 5] = chain_bytes base demo_fs [2, 3, 5]"
    by (simp add: chain_bytes_def cluster_at_def demo_fs_def)
  ultimately show ?thesis by (auto simp: cluster_bytes_def Let_def intro!: exI [of _ "[2, 3, 5]"])
qed

lemma usb_root:
  assumes "length name = 11" and "\<forall>i. 1035 \<le> i \<and> i < 1056 \<longrightarrow> base i = demo_disk i"
  shows "cluster_bytes (usb_disk name base) 16 demo_fs 0 (concat [slice (usb_disk name base) 1024 32])"
    and "take 11 (slice (usb_disk name base) 1024 32) = name"
    and "entry_cluster (fat_type demo_fs) (slice (usb_disk name base) 1024 32) = 2" and "entry_size (slice (usb_disk name base) 1024 32) = 1500"
    and "slice (usb_disk name base) 1024 32 ! 11 = 0" and "slice (usb_disk name base) 1024 32 ! 0 = name ! 0"
proof -
  show "cluster_bytes (usb_disk name base) 16 demo_fs 0 (concat [slice (usb_disk name base) 1024 32])" by (simp add: cluster_bytes_def demo_fs_def)
  show "take 11 (slice (usb_disk name base) 1024 32) = name" by (rule nth_equalityI) (simp_all add: usb_disk_def assms(1))
  show "entry_cluster (fat_type demo_fs) (slice (usb_disk name base) 1024 32) = 2" "entry_size (slice (usb_disk name base) 1024 32) = 1500"
    "slice (usb_disk name base) 1024 32 ! 11 = 0" "slice (usb_disk name base) 1024 32 ! 0 = name ! 0"
    using assms(2) by (simp_all add: entry_cluster_def entry_size_def entry16_def demo_fs_def usb_disk_def) (simp_all add: demo_disk_def)
qed

lemma usb_path:
  assumes "parse_component path = (name, [])" and "path \<noteq> []" and "length name = 11" and "name ! 0 \<noteq> 0" and "name ! 0 \<noteq> 0xe5"
    and "\<forall>i. 1035 \<le> i \<and> i < 1056 \<longrightarrow> base i = demo_disk i"
  shows "path_to (usb_disk name base) 16 demo_fs 0 path 2 1500"
proof -
  let ?e = "slice (usb_disk name base) 1024 32"
  note r = usb_root [OF assms(3,6)]
  have "scan name False [?e] = ScanHit ?e" using r(2,5,6) assms(4,5) by simp
  from path_file [OF assms(2,1) r(1) _ this] r(3,4) show ?thesis by simp
qed

end
