(* ===== verification/Xell_Smc.thy ===== *)
theory Xell_Smc
  imports Xell_Prelude "HOL-Library.Monad_Syntax"
begin
unbundle bit_operations_syntax

text \<open>
  The messages to and from the system management controller, \<^verbatim>\<open>src/xenon_smc.c\<close>. The controller is a parameter: a state of any type and
  what loads from and stores to its registers do; that state is all there is. A message is a list of 16 bytes, the local array
  of the function that sends it. Waiting for ever is \<^term>\<open>None\<close>; what is printed is left out.
\<close>

section \<open>Registers\<close>

record 'd smc =
  smc_load :: "addr \<Rightarrow> 'd \<Rightarrow> u32 \<times> 'd"
  smc_store :: "addr \<Rightarrow> u32 \<Rightarrow> 'd \<Rightarrow> 'd"

definition SMC_BASE :: addr where "SMC_BASE = 0x80000200ea001000"

definition bswap32 :: "u32 \<Rightarrow> u32" where
  "bswap32 t = push_bit 24 (t AND 0xFF) OR push_bit 8 (t AND 0xFF00) OR drop_bit 8 (t AND 0xFF0000) OR drop_bit 24 (t AND 0xFF000000)"

definition read32 :: "'d smc \<Rightarrow> addr \<Rightarrow> 'd \<Rightarrow> u32 \<times> 'd" where
  "read32 E a d = (case smc_load E a d of (v, d) \<Rightarrow> (bswap32 v, d))"

definition read32n :: "'d smc \<Rightarrow> addr \<Rightarrow> 'd \<Rightarrow> u32 \<times> 'd" where
  "read32n E a d = smc_load E a d"

definition write32 :: "'d smc \<Rightarrow> addr \<Rightarrow> u32 \<Rightarrow> 'd \<Rightarrow> 'd" where
  "write32 E a v d = smc_store E a (bswap32 v) d"

definition write32n :: "'d smc \<Rightarrow> addr \<Rightarrow> u32 \<Rightarrow> 'd \<Rightarrow> 'd" where
  "write32n E a v d = smc_store E a v d"

section \<open>Messages\<close>

definition msg_word :: "u8 list \<Rightarrow> nat \<Rightarrow> u32" where
  "msg_word msg i = be32 (msg ! i) (msg ! (i + 1)) (msg ! (i + 2)) (msg ! (i + 3))"

partial_function (option) send_wait :: "'d smc \<Rightarrow> 'd \<Rightarrow> 'd option" where
  "send_wait E d = (case read32 E (SMC_BASE + 0x84) d of (v, d) \<Rightarrow> if v AND 4 = 0 then send_wait E d else Some d)"

definition xenon_smc_send_message :: "'d smc \<Rightarrow> u8 list \<Rightarrow> 'd \<Rightarrow> 'd option" where
  "xenon_smc_send_message E msg d = do {
     d \<leftarrow> send_wait E d;
     let d = write32 E (SMC_BASE + 0x84) 4 d;
     let d = write32n E (SMC_BASE + 0x80) (msg_word msg 0) d;
     let d = write32n E (SMC_BASE + 0x80) (msg_word msg 4) d;
     let d = write32n E (SMC_BASE + 0x80) (msg_word msg 8) d;
     let d = write32n E (SMC_BASE + 0x80) (msg_word msg 12) d;
     Some (write32 E (SMC_BASE + 0x84) 0 d)
   }"

fun receive_words :: "nat \<Rightarrow> 'd smc \<Rightarrow> u8 list \<Rightarrow> 'd \<Rightarrow> u8 list \<times> 'd" where
  "receive_words 0 E msg d = (msg, d)"
| "receive_words (Suc n) E msg d = (case read32n E (SMC_BASE + 0x90) d of (v, d) \<Rightarrow> receive_words n E (msg @ be32_bytes v) d)"

text \<open>The result and, when it is 0, the new contents of the array.\<close>

definition xenon_smc_receive_message :: "'d smc \<Rightarrow> u8 list \<Rightarrow> 'd \<Rightarrow> int \<times> u8 list \<times> 'd" where
  "xenon_smc_receive_message E msg d =
     (case read32 E (SMC_BASE + 0x94) d of (v, d) \<Rightarrow>
        if v AND 4 \<noteq> 0
        then let d = write32 E (SMC_BASE + 0x94) 4 d;
                 (msg, d) = receive_words 4 E [] d
             in (0, msg, write32 E (SMC_BASE + 0x94) 0 d)
        else (-1, msg, d))"

partial_function (option) xenon_smc_receive_response :: "'d smc \<Rightarrow> u8 list \<Rightarrow> 'd \<Rightarrow> (u8 list \<times> 'd) option" where
  "xenon_smc_receive_response E msg d =
     (case xenon_smc_receive_message E msg d of (r, msg, d) \<Rightarrow>
        if r \<noteq> 0 then xenon_smc_receive_response E msg d
        else if msg ! 0 = 0x83 then xenon_smc_receive_response E msg d
        else Some (msg, d))"

definition ana_write_msg :: "u8 \<Rightarrow> u32 \<Rightarrow> u8 list" where
  "ana_write_msg a val = [0x11, 0x60, 0, 0x80 OR 0x70, 0, 0, a, 0, ucast val, ucast (drop_bit 8 val), ucast (drop_bit 16 val), ucast (drop_bit 24 val),
     0, 0, 0, 0]"

definition xenon_smc_ana_write :: "'d smc \<Rightarrow> u8 \<Rightarrow> u32 \<Rightarrow> 'd \<Rightarrow> (int \<times> 'd) option" where
  "xenon_smc_ana_write E a val d = do {
     let buf = ana_write_msg a val;
     d \<leftarrow> xenon_smc_send_message E buf d;
     (buf, d) \<leftarrow> xenon_smc_receive_response E buf d;
     Some (if buf ! 1 \<noteq> 0 then -1 else 0, d)
   }"

definition ana_read_msg :: "u8 \<Rightarrow> u8 list" where
  "ana_read_msg a = [0x11, 0x10, 5, 0x80 OR 0x70, 0, 0xF0, a, 0, 0, 0, 0, 0, 0, 0, 0, 0]"

text \<open>The result, the value stored through the pointer, if one is, and the state.\<close>

definition xenon_smc_ana_read :: "'d smc \<Rightarrow> u8 \<Rightarrow> 'd \<Rightarrow> (int \<times> u32 option \<times> 'd) option" where
  "xenon_smc_ana_read E a d = do {
     let buf = ana_read_msg a;
     d \<leftarrow> xenon_smc_send_message E buf d;
     (buf, d) \<leftarrow> xenon_smc_receive_response E buf d;
     Some (if buf ! 1 \<noteq> 0 then (-1, None, d)
           else (0, Some (ucast (buf ! 4) OR push_bit 8 (ucast (buf ! 5)) OR push_bit 16 (ucast (buf ! 6)) OR push_bit 24 (ucast (buf ! 7))), d))
   }"

definition xenon_smc_set_led :: "'d smc \<Rightarrow> u32 \<Rightarrow> u32 \<Rightarrow> 'd \<Rightarrow> 'd option" where
  "xenon_smc_set_led E override val d = xenon_smc_send_message E ([0x99, ucast override, ucast val] @ replicate 13 0) d"

definition xenon_smc_power_shutdown :: "'d smc \<Rightarrow> 'd \<Rightarrow> 'd option" where
  "xenon_smc_power_shutdown E d = xenon_smc_send_message E ([0x82, 0x11, 0x01] @ replicate 13 0) d"

definition xenon_smc_start_bootanim :: "'d smc \<Rightarrow> 'd \<Rightarrow> 'd option" where
  "xenon_smc_start_bootanim E d = xenon_smc_send_message E ([0x8c, 0x03, 0x01] @ replicate 13 0) d"

definition xenon_gpio_set_oe :: "'d smc \<Rightarrow> u32 \<Rightarrow> u32 \<Rightarrow> 'd \<Rightarrow> 'd" where
  "xenon_gpio_set_oe E clear sets d =
     (case read32 E (SMC_BASE + 0x20) d of (v, d) \<Rightarrow> write32 E (SMC_BASE + 0x20) ((v AND NOT clear) OR sets) d)"

definition xenon_gpio_set :: "'d smc \<Rightarrow> u32 \<Rightarrow> u32 \<Rightarrow> 'd \<Rightarrow> 'd" where
  "xenon_gpio_set E clear sets d =
     (case read32 E (SMC_BASE + 0x34) d of (v, d) \<Rightarrow> write32 E (SMC_BASE + 0x34) ((v AND NOT clear) OR sets) d)"

definition xenon_smc_read_avpack :: "'d smc \<Rightarrow> 'd \<Rightarrow> (u8 \<times> 'd) option" where
  "xenon_smc_read_avpack E d = do {
     let buf = 0x0f # replicate 15 0;
     d \<leftarrow> xenon_smc_send_message E buf d;
     (buf, d) \<leftarrow> xenon_smc_receive_response E buf d;
     Some (buf ! 1, d)
   }"

section \<open>A controller that answers\<close>

text \<open>
  What the code relies on: the controller has a queue of messages for the processor, collects the words of a message to it, and puts
  its answer, perhaps with notices before it, at the end of the queue when the message is complete. It may take its time
  to accept a message and to offer one.
\<close>

record smc_abs =
  queue :: "u8 list list"
  inbuf :: "u8 list"
  outbuf :: "u32 list"

definition smc_law :: "'d smc \<Rightarrow> ('d \<Rightarrow> smc_abs) \<Rightarrow> ('d \<Rightarrow> nat) \<Rightarrow> (u8 list \<Rightarrow> u8 list list) \<Rightarrow> bool" where
  "smc_law E ph busy react \<longleftrightarrow>
     (\<forall>d. ph (snd (smc_load E (SMC_BASE + 0x84) d)) = ph d \<and>
        (bswap32 (fst (smc_load E (SMC_BASE + 0x84) d)) AND 4 = 0 \<longrightarrow> busy (snd (smc_load E (SMC_BASE + 0x84) d)) < busy d)) \<and>
     (\<forall>d. ph (snd (smc_load E (SMC_BASE + 0x94) d)) = ph d \<and>
        (queue (ph d) \<noteq> [] \<and> bswap32 (fst (smc_load E (SMC_BASE + 0x94) d)) AND 4 = 0 \<longrightarrow> busy (snd (smc_load E (SMC_BASE + 0x94) d)) < busy d)) \<and>
     (\<forall>d. ph (smc_store E (SMC_BASE + 0x84) (bswap32 4) d) = (ph d)\<lparr>inbuf := []\<rparr>) \<and>
     (\<forall>d w. ph (smc_store E (SMC_BASE + 0x80) w d) = (ph d)\<lparr>inbuf := inbuf (ph d) @ be32_bytes w\<rparr>) \<and>
     (\<forall>d. ph (smc_store E (SMC_BASE + 0x84) (bswap32 0) d) = (ph d)\<lparr>queue := queue (ph d) @ react (inbuf (ph d)), inbuf := []\<rparr>) \<and>
     (\<forall>d q qs. queue (ph d) = q # qs \<longrightarrow> ph (smc_store E (SMC_BASE + 0x94) (bswap32 4) d) = (ph d)\<lparr>outbuf := words q\<rparr>) \<and>
     (\<forall>d w ws. outbuf (ph d) = w # ws \<longrightarrow> fst (smc_load E (SMC_BASE + 0x90) d) = w \<and>
        ph (snd (smc_load E (SMC_BASE + 0x90) d)) = (ph d)\<lparr>outbuf := ws\<rparr>) \<and>
     (\<forall>d. ph (smc_store E (SMC_BASE + 0x94) (bswap32 0) d) = (ph d)\<lparr>queue := tl (queue (ph d)), outbuf := []\<rparr>)"

lemma smc_laws:
  assumes "smc_law E ph busy react"
  shows "ph (snd (smc_load E (SMC_BASE + 0x84) d)) = ph d"
    "bswap32 (fst (smc_load E (SMC_BASE + 0x84) d)) AND 4 = 0 \<Longrightarrow> busy (snd (smc_load E (SMC_BASE + 0x84) d)) < busy d"
    "ph (snd (smc_load E (SMC_BASE + 0x94) d)) = ph d"
    "queue (ph d) \<noteq> [] \<Longrightarrow> bswap32 (fst (smc_load E (SMC_BASE + 0x94) d)) AND 4 = 0 \<Longrightarrow> busy (snd (smc_load E (SMC_BASE + 0x94) d)) < busy d"
    "ph (write32 E (SMC_BASE + 0x84) 4 d) = (ph d)\<lparr>inbuf := []\<rparr>"
    "ph (write32n E (SMC_BASE + 0x80) w d) = (ph d)\<lparr>inbuf := inbuf (ph d) @ be32_bytes w\<rparr>"
    "ph (write32 E (SMC_BASE + 0x84) 0 d) = (ph d)\<lparr>queue := queue (ph d) @ react (inbuf (ph d)), inbuf := []\<rparr>"
    "queue (ph d) = q # qs \<Longrightarrow> ph (write32 E (SMC_BASE + 0x94) 4 d) = (ph d)\<lparr>outbuf := words q\<rparr>"
    "outbuf (ph d) = w # ws \<Longrightarrow> fst (smc_load E (SMC_BASE + 0x90) d) = w \<and> ph (snd (smc_load E (SMC_BASE + 0x90) d)) = (ph d)\<lparr>outbuf := ws\<rparr>"
    "ph (write32 E (SMC_BASE + 0x94) 0 d) = (ph d)\<lparr>queue := tl (queue (ph d)), outbuf := []\<rparr>"
  using assms unfolding smc_law_def write32_def write32n_def by blast+

lemma send_wait_returns:
  assumes law: "smc_law E ph busy react"
  shows "\<exists>d'. send_wait E d = Some d' \<and> ph d' = ph d"
proof (induction "busy d" arbitrary: d rule: less_induct)
  case less
  obtain v d1 where r: "smc_load E (SMC_BASE + 0x84) d = (v, d1)" by fastforce
  have d1: "ph d1 = ph d" "bswap32 v AND 4 = 0 \<Longrightarrow> busy d1 < busy d" using smc_laws(1,2) [OF law, of d] r by auto
  show ?case
  proof (cases "bswap32 v AND 4 = 0")
    case True
    with less [OF d1(2) [OF True]] d1(1) r show ?thesis by (subst send_wait.simps) (auto simp: read32_def)
  next
    case False
    with d1(1) r show ?thesis by (subst send_wait.simps) (simp add: read32_def)
  qed
qed

lemma msg_bytes:
  assumes "length msg = 16"
  shows "be32_bytes (msg_word msg 0) @ be32_bytes (msg_word msg 4) @ be32_bytes (msg_word msg 8) @ be32_bytes (msg_word msg 12) = msg"
  using assms by (intro nth_equalityI) (auto simp: msg_word_def be32_bytes_be32 numeral_eq_Suc less_Suc_eq)

lemma send_message_sends:
  assumes law: "smc_law E ph busy react" and "length msg = 16"
  shows "\<exists>d'. xenon_smc_send_message E msg d = Some d' \<and> queue (ph d') = queue (ph d) @ react msg"
proof -
  obtain d1 where d1: "send_wait E d = Some d1" "ph d1 = ph d" using send_wait_returns [OF law] by blast
  show ?thesis
    using d1 msg_bytes [OF assms(2)] by (simp add: xenon_smc_send_message_def smc_laws(5,6,7) [OF law] Let_def)
qed

lemma receive_words_all:
  assumes law: "smc_law E ph busy react"
  shows "outbuf (ph d) = ws \<Longrightarrow> n \<le> length ws \<Longrightarrow>
    fst (receive_words n E msg d) = msg @ concat (map be32_bytes (take n ws)) \<and> queue (ph (snd (receive_words n E msg d))) = queue (ph d)"
proof (induction n arbitrary: msg d ws)
  case (Suc n)
  then obtain w ws' where ws: "ws = w # ws'" by (cases ws) auto
  obtain v d1 where r: "smc_load E (SMC_BASE + 0x90) d = (v, d1)" by fastforce
  then have "v = w" "ph d1 = (ph d)\<lparr>outbuf := ws'\<rparr>" using smc_laws(9) [OF law, of d w ws'] Suc.prems ws by auto
  with Suc.IH [of d1 ws' "msg @ be32_bytes v"] Suc.prems ws r show ?case by (simp add: read32n_def)
qed simp

lemma response_step:
  assumes law: "smc_law E ph busy react"
  shows "queue (ph d) = q # qs \<Longrightarrow> length q = 16 \<Longrightarrow> \<exists>d'. queue (ph d') = qs \<and>
    xenon_smc_receive_response E msg d = (if q ! 0 = 0x83 then xenon_smc_receive_response E q d' else Some (q, d'))"
proof (induction "busy d" arbitrary: d rule: less_induct)
  case less
  obtain v d1 where r: "smc_load E (SMC_BASE + 0x94) d = (v, d1)" by fastforce
  have d1: "ph d1 = ph d" "bswap32 v AND 4 = 0 \<Longrightarrow> busy d1 < busy d" using smc_laws(3,4) [OF law, of d] less.prems(1) r by auto
  show ?case
  proof (cases "bswap32 v AND 4 = 0")
    case True
    have "xenon_smc_receive_response E msg d = xenon_smc_receive_response E msg d1"
      using r True by (subst xenon_smc_receive_response.simps) (simp add: xenon_smc_receive_message_def read32_def)
    with less.hyps [OF d1(2) [OF True]] d1(1) less.prems show ?thesis by simp
  next
    case False
    let ?d2 = "write32 E (SMC_BASE + 0x94) 4 d1"
    have p2: "ph ?d2 = (ph d)\<lparr>outbuf := words q\<rparr>" using smc_laws(8) [OF law, of d1 q qs] d1(1) less.prems(1) by simp
    obtain m d3 where m: "receive_words 4 E [] ?d2 = (m, d3)" by fastforce
    have "length (words q) = 4" using less.prems(2) by (simp add: length_words)
    then have "m = concat (map be32_bytes (words q))" "queue (ph d3) = q # qs"
      using receive_words_all [OF law, of ?d2 "words q" 4 "[]"] p2 m less.prems(1) by auto
    then have mq: "m = q" "queue (ph d3) = q # qs" using words_bytes [of q] less.prems(2) by auto
    have "xenon_smc_receive_message E msg d = (0, q, write32 E (SMC_BASE + 0x94) 0 d3)"
      using r False m mq(1) by (simp add: xenon_smc_receive_message_def read32_def Let_def)
    then have "xenon_smc_receive_response E msg d = (if q ! 0 = 0x83 then xenon_smc_receive_response E q (write32 E (SMC_BASE + 0x94) 0 d3)
        else Some (q, write32 E (SMC_BASE + 0x94) 0 d3))"
      by (subst xenon_smc_receive_response.simps) simp
    moreover have "queue (ph (write32 E (SMC_BASE + 0x94) 0 d3)) = qs" using mq(2) by (simp add: smc_laws(10) [OF law])
    ultimately show ?thesis by blast
  qed
qed

lemma receive_response_first:
  assumes law: "smc_law E ph busy react"
  shows "queue (ph d) = bulk @ m # rest \<Longrightarrow> \<forall>b\<in>set bulk. length b = 16 \<and> b ! 0 = 0x83 \<Longrightarrow> length m = 16 \<Longrightarrow> m ! 0 \<noteq> 0x83 \<Longrightarrow>
    \<exists>d'. xenon_smc_receive_response E msg d = Some (m, d') \<and> queue (ph d') = rest"
proof (induction bulk arbitrary: d msg)
  case Nil
  then show ?case using response_step [OF law, of d m rest msg] by auto
next
  case (Cons b bulk)
  then obtain d1 where d1: "queue (ph d1) = bulk @ m # rest" "xenon_smc_receive_response E msg d = xenon_smc_receive_response E b d1"
    using response_step [OF law, of d b "bulk @ m # rest" msg] by auto
  from Cons.IH [OF d1(1), of b] Cons.prems d1(2) show ?case by simp
qed

text \<open>C29: A register of the video encoder is read through the controller: \<open>xenon_smc_ana_read\<close> sends the request, passes over all notices that were waiting or
  come before the answer, and returns the four bytes of the answer as a little-endian number when the answer reports no error, and
  -1 otherwise.\<close>

theorem ana_read_value:
  assumes law: "smc_law E ph busy react"
    and notices: "\<forall>b\<in>set (queue (ph d) @ bulk). length b = 16 \<and> b ! 0 = 0x83"
    and answer: "react (ana_read_msg a) = bulk @ [m]" "length m = 16" "m ! 0 \<noteq> 0x83"
  shows "\<exists>d'. xenon_smc_ana_read E a d = Some (if m ! 1 = 0 then (0, Some (be32 (m ! 7) (m ! 6) (m ! 5) (m ! 4)), d') else (-1, None, d')) \<and>
    queue (ph d') = []"
proof -
  obtain d1 where d1: "xenon_smc_send_message E (ana_read_msg a) d = Some d1" "queue (ph d1) = (queue (ph d) @ bulk) @ m # []"
    using send_message_sends [OF law, of "ana_read_msg a" d] answer(1) by (auto simp: ana_read_msg_def)
  obtain d2 where d2: "xenon_smc_receive_response E (ana_read_msg a) d1 = Some (m, d2)" "queue (ph d2) = []"
    using receive_response_first [OF law d1(2) notices answer(2,3)] by blast
  have "ucast (m ! 4) OR push_bit 8 (ucast (m ! 5)) OR push_bit 16 (ucast (m ! 6)) OR push_bit 24 (ucast (m ! 7)) = be32 (m ! 7) (m ! 6) (m ! 5) (m ! 4)"
    by (simp add: be32_def ac_simps)
  then show ?thesis using d1(1) d2 by (simp add: xenon_smc_ana_read_def Let_def)
qed

text \<open>A controller whose registers all read \<open>0x12345678\<close> and that announces every answer with a notice.\<close>

definition small_react :: "u8 list \<Rightarrow> u8 list list" where
  "small_react m = [[0x83, 0x23, 0, 0, 0, 0, 0, 0, 0, 0, 0, 0, 0, 0, 0, 0], [0x11, 0, 0, 0, 0x78, 0x56, 0x34, 0x12, 0, 0, 0, 0, 0, 0, 0, 0]]"

definition small_smc :: "smc_abs smc" where
  "small_smc = \<lparr>smc_load = (\<lambda>a d. if a = SMC_BASE + 0x90 then (hd (outbuf d), d\<lparr>outbuf := tl (outbuf d)\<rparr>) else (bswap32 4, d)),
     smc_store = (\<lambda>a v d. if a = SMC_BASE + 0x80 then d\<lparr>inbuf := inbuf d @ be32_bytes v\<rparr>
        else if a = SMC_BASE + 0x84 then (if v = bswap32 4 then d\<lparr>inbuf := []\<rparr> else d\<lparr>queue := queue d @ small_react (inbuf d), inbuf := []\<rparr>)
        else if v = bswap32 4 then d\<lparr>outbuf := words (hd (queue d))\<rparr> else d\<lparr>queue := tl (queue d), outbuf := []\<rparr>)\<rparr>"

lemma small_smc_law: "smc_law small_smc (\<lambda>d. d) (\<lambda>_. 0) small_react"
proof -
  have "bswap32 4 \<noteq> bswap32 0" "bswap32 (bswap32 4) AND 4 \<noteq> 0" by (simp_all add: bswap32_def)
  then show ?thesis by (simp add: smc_law_def small_smc_def SMC_BASE_def)
qed

theorem ana_read_value_witness:
  "\<exists>d'. xenon_smc_ana_read small_smc 7 \<lparr>queue = [], inbuf = [], outbuf = []\<rparr> = Some (0, Some 0x12345678, d') \<and> queue d' = []"
proof -
  let ?b = "[0x83, 0x23, 0, 0, 0, 0, 0, 0, 0, 0, 0, 0, 0, 0, 0, 0] :: u8 list"
  let ?m = "[0x11, 0, 0, 0, 0x78, 0x56, 0x34, 0x12, 0, 0, 0, 0, 0, 0, 0, 0] :: u8 list"
  have "small_react (ana_read_msg 7) = [?b] @ [?m]" by (simp add: small_react_def)
  from ana_read_value [OF small_smc_law _ this, of "\<lparr>queue = [], inbuf = [], outbuf = []\<rparr>"] show ?thesis
    by (auto simp: be32_def)
qed

end
