(* ===== verification/Xell_Network.thy ===== *)
theory Xell_Network
  imports Xell_Time Xell_Vsprintf
begin
unbundle bit_operations_syntax

text \<open>
  The use of the network stack by \<^verbatim>\<open>src/network.c\<close>: polling with its two timers, waiting for an address, and the names of the boot server
  and file. The stack is a parameter: what it has set the address to after each poll, and what the DHCP client was told.
\<close>

section \<open>Polling\<close>

datatype net_call = Enet_poll | Tcp_tmr | Dhcp_fine_tmr

record net_timers =
  last_tcp :: tb
  last_dhcp :: tb

definition DHCP_FINE_TIMER_MSECS :: u64 where "DHCP_FINE_TIMER_MSECS = 500"

text \<open>The readings of the time base are arguments: the one at the start and the ones the two branches take.\<close>

definition network_poll :: "tb \<Rightarrow> tb \<Rightarrow> tb \<Rightarrow> net_timers \<Rightarrow> net_call list \<times> net_timers" where
  "network_poll now tcp_now dhcp_now s =
     (let calls = [Enet_poll];
          (calls, s) = (if tb_diff_msec now (last_tcp s) \<ge> 100 then (calls @ [Tcp_tmr], s\<lparr>last_tcp := tcp_now\<rparr>) else (calls, s))
      in if tb_diff_msec now (last_dhcp s) \<ge> DHCP_FINE_TIMER_MSECS then (calls @ [Dhcp_fine_tmr], s\<lparr>last_dhcp := dhcp_now\<rparr>) else (calls, s))"

section \<open>The address\<close>

definition IP4_ADDR :: "u32 \<Rightarrow> u32 \<Rightarrow> u32 \<Rightarrow> u32 \<Rightarrow> u32" where
  "IP4_ADDR a b c d = push_bit 24 (a AND 0xff) OR push_bit 16 (b AND 0xff) OR push_bit 8 (c AND 0xff) OR (d AND 0xff)"

record ip_config =
  ip_addr :: u32
  netmask :: u32
  gw :: u32

text \<open>\<open>polled i\<close> is the configuration the interface has after the \<open>i\<close>-th poll of the loop; the number of polls made.\<close>

fun dhcp_wait :: "nat \<Rightarrow> nat \<Rightarrow> (nat \<Rightarrow> ip_config) \<Rightarrow> ip_config \<Rightarrow> ip_config \<times> nat" where
  "dhcp_wait 0 i polled c = (c, i)"
| "dhcp_wait (Suc n) i polled c =
     (let c = polled i in if ip_addr c \<noteq> 0 then (c, i + 1) else dhcp_wait n (i + 1) polled c)"

definition network_address :: "(nat \<Rightarrow> ip_config) \<Rightarrow> ip_config \<Rightarrow> ip_config \<times> nat" where
  "network_address polled c =
     (let (c, n) = dhcp_wait 10 0 polled c
      in (if ip_addr c \<noteq> 0 then c
          else \<lparr>ip_addr = IP4_ADDR 10 0 120 209, netmask = IP4_ADDR 255 255 255 0, gw = IP4_ADDR 10 0 120 1\<rparr>, n))"

definition ntoa_args :: "u32 \<Rightarrow> varg list" where
  "ntoa_args ip = [VInt (drop_bit 24 ip AND 0xff), VInt (drop_bit 16 ip AND 0xff), VInt (drop_bit 8 ip AND 0xff), VInt (ip AND 0xff)]"

definition print_network_config :: "ip_config \<Rightarrow> u8 list option" where
  "print_network_config c = printf (bytes '' * XeLL network config: %d.%d.%d.%d / %d.%d.%d.%d'' @ [10]) (ntoa_args (ip_addr c) @ ntoa_args (netmask c))"

section \<open>Names\<close>

record dhcp =
  boot_server_name :: "u8 list option"
  boot_file_name :: "u8 list option"

definition network_boot_server_name :: "dhcp option \<Rightarrow> u8 list" where
  "network_boot_server_name d = (case d of Some d \<Rightarrow> (case boot_server_name d of Some n \<Rightarrow> n | None \<Rightarrow> bytes ''10.0.120.78'')
     | None \<Rightarrow> bytes ''10.0.120.78'')"

definition network_boot_file_name :: "dhcp option \<Rightarrow> u8 list" where
  "network_boot_file_name d = (case d of Some d \<Rightarrow> (case boot_file_name d of Some n \<Rightarrow> n | None \<Rightarrow> bytes ''/tftpboot/xenon'')
     | None \<Rightarrow> bytes ''/tftpboot/xenon'')"

section \<open>What is set and printed\<close>

lemma dhcp_wait_find:
  "dhcp_wait n i polled c = (case find (\<lambda>j. ip_addr (polled j) \<noteq> 0) [i..<i + n] of
     Some j \<Rightarrow> (polled j, j + 1) | None \<Rightarrow> (if n = 0 then c else polled (i + n - 1), i + n))"
proof (induction n arbitrary: i c)
  case (Suc n)
  have u: "[i..<i + Suc n] = i # [i + 1..<i + 1 + n]" by (simp add: upt_conv_Cons del: upt_Suc)
  show ?case
  proof (cases "ip_addr (polled i) = 0")
    case False
    then show ?thesis unfolding u by (simp add: Let_def)
  next
    case True
    then show ?thesis unfolding u using Suc [of "i + 1" "polled i"] by (cases n) (simp_all add: Let_def del: upt_Suc split: option.split)
  qed
qed simp

text \<open>
  The loader never goes on without an address: it has the one the DHCP client got within ten polls, at the poll after which there was one,
  or the fixed one after ten.
\<close>

lemma network_address_set:
  assumes "network_address polled c = (c', k)"
  shows "ip_addr c' \<noteq> 0 \<and> k \<le> 10 \<and>
    ((\<exists>j<10. k = j + 1 \<and> c' = polled j \<and> (\<forall>i<j. ip_addr (polled i) = 0)) \<or>
     (k = 10 \<and> ip_addr c' = 0x0A0078D1 \<and> netmask c' = 0xFFFFFF00 \<and> gw c' = 0x0A007801))"
proof (cases "find (\<lambda>j. ip_addr (polled j) \<noteq> 0) [0..<10]")
  case None
  then have "ip_addr (polled 9) = 0" by (auto simp: find_None_iff)
  with None assms show ?thesis
    by (auto simp: network_address_def dhcp_wait_find IP4_ADDR_def simp del: upt_Suc)
next
  case (Some j)
  then have "j < 10" "ip_addr (polled j) \<noteq> 0" "\<forall>i<j. ip_addr (polled i) = 0" by (auto simp: find_Some_iff simp del: upt_Suc)
  moreover from this Some assms have "c' = polled j" "k = j + 1"
    by (auto simp: network_address_def dhcp_wait_find simp del: upt_Suc)
  ultimately show ?thesis by auto
qed

end
