(* ===== verification/Xell_Words.thy ===== *)
theory Xell_Words
  imports Xell_Elf
begin

text \<open>
  Lemmas on areas of memory that hold 32-bit words and blocks of bytes at offsets from a base: the frame buffer and the descriptors and buffers of the
  network chip. Stores and copies are described by the offsets they touch.
\<close>

section \<open>Words and regions at an offset\<close>

definition word_at :: "addr \<Rightarrow> mem \<Rightarrow> nat \<Rightarrow> u32" where
  "word_at base m i = load_be32 m (base + of_nat (4 * i))"

lemma load_be32_bytes: "(\<And>k. k < 4 \<Longrightarrow> m (a + of_nat k) = m' (b + of_nat k)) \<Longrightarrow> load_be32 m a = load_be32 m' b"
proof -
  assume k: "\<And>k. k < 4 \<Longrightarrow> m (a + of_nat k) = m' (b + of_nat k)"
  show ?thesis using k [of 0] k [of 1] k [of 2] k [of 3] by (simp add: load_be32_def)
qed

lemma word_at_cong:
  "(\<And>k. k < 4 \<Longrightarrow> m (base + of_nat (4 * i + k)) = m' (base' + of_nat (4 * j + k))) \<Longrightarrow> word_at base m i = word_at base' m' j"
  unfolding word_at_def by (rule load_be32_bytes) (simp add: add.assoc [symmetric])

lemma offset_inj: "i < 2 ^ 64 \<Longrightarrow> j < 2 ^ 64 \<Longrightarrow> (base :: addr) + of_nat i = base + of_nat j \<longleftrightarrow> i = j"
  by (simp add: of_nat_u64_inj)

lemma offset_region_iff: "n + k \<le> 2 ^ 64 \<Longrightarrow> j < 2 ^ 64 \<Longrightarrow> (base :: addr) + of_nat j \<in> region (base + of_nat n) k \<longleftrightarrow> n \<le> j \<and> j < n + k"
proof
  assume n: "n + k \<le> 2 ^ 64" "j < 2 ^ 64"
  {
    assume "base + of_nat j \<in> region (base + of_nat n) k"
    then obtain i where i: "i < k" "base + of_nat j = base + of_nat (n + i)" by (auto simp: region_def add.assoc)
    then have "j = n + i" using n offset_inj [of j "n + i" base] by simp
    with i show "n \<le> j \<and> j < n + k" by simp
  }
  assume "n \<le> j \<and> j < n + k"
  then have "base + of_nat n + of_nat (j - n) \<in> region (base + of_nat n) k" by (intro region_memI) auto
  then show "base + of_nat j \<in> region (base + of_nat n) k" using \<open>n \<le> j \<and> j < n + k\<close> by (simp add: of_nat_diff)
qed

lemma store_be32_other: "x \<notin> region a 4 \<Longrightarrow> store_be32 a v m x = m x"
  unfolding store_be32_def by (rule store_list_other) (simp add: be32_bytes_def eval_nat_numeral)

lemma word_at_store:
  assumes "i < n" "j < n" "4 * n \<le> 2 ^ 64"
  shows "word_at base (store_be32 (base + of_nat (4 * i)) v m) j = (if j = i then v else word_at base m j)"
proof (cases "j = i")
  case True
  then show ?thesis by (simp add: word_at_def load_store_be32)
next
  case False
  have "base + of_nat (4 * j + k) \<notin> region (base + of_nat (4 * i)) 4" if "k < 4" for k
    using False assms that offset_region_iff [of "4 * i" 4 "4 * j + k" base] by auto
  then have "word_at base (store_be32 (base + of_nat (4 * i)) v m) j = word_at base m j"
    by (intro word_at_cong store_be32_other)
  with False show ?thesis by simp
qed

lemma copy_forward:
  assumes "0 < d" "i + d + n \<le> sz" "4 * sz < 2 ^ 64"
  shows "unat (of_nat (4 * n) :: u64) = 4 * n"
    and "region (base + of_nat (4 * i)) (unat (of_nat (4 * n) :: u64)) \<inter> region (base + of_nat (4 * (i + d))) (unat (of_nat (4 * n) :: u64)) = {}
      \<or> (\<exists>d'. 0 < d' \<and> d' + unat (of_nat (4 * n) :: u64) \<le> 2 ^ 64 \<and> base + of_nat (4 * (i + d)) = (base :: addr) + of_nat (4 * i) + of_nat d')"
proof -
  show n: "unat (of_nat (4 * n) :: u64) = 4 * n" using assms by (simp add: unat_of_nat del: of_nat_mult)
  have "base + of_nat (4 * (i + d)) = base + of_nat (4 * i) + of_nat (4 * d)" by (simp add: algebra_simps)
  then show "region (base + of_nat (4 * i)) (unat (of_nat (4 * n) :: u64)) \<inter> region (base + of_nat (4 * (i + d))) (unat (of_nat (4 * n) :: u64)) = {}
      \<or> (\<exists>d'. 0 < d' \<and> d' + unat (of_nat (4 * n) :: u64) \<le> 2 ^ 64 \<and> base + of_nat (4 * (i + d)) = base + of_nat (4 * i) + of_nat d')"
    using assms n by (intro disjI2 exI [of _ "4 * d"]) simp
qed

lemma word_at_memcpy:
  assumes "0 < d" "i + d + n \<le> sz" "j < sz" "4 * sz < 2 ^ 64"
  shows "word_at base (memcpy (base + of_nat (4 * i)) (base + of_nat (4 * (i + d))) (of_nat (4 * n)) m) j
    = (if i \<le> j \<and> j < i + n then word_at base m (j + d) else word_at base m j)"
proof -
  let ?dest = "base + of_nat (4 * i)" and ?src = "base + of_nat (4 * (i + d))" and ?n = "of_nat (4 * n) :: u64"
  note n = copy_forward(1) [OF assms(1,2,4)] and fw = copy_forward(2) [OF assms(1,2,4), of base]
  note copied = memcpy_copies_facts(1) [OF fw, of m] and same = memcpy_copies_facts(2) [OF fw, of _ m]
  show ?thesis
  proof (cases "i \<le> j \<and> j < i + n")
    case True
    have "memcpy ?dest ?src ?n m (base + of_nat (4 * j + k)) = m (base + of_nat (4 * (j + d) + k))" if "k < 4" for k
    proof -
      define l where "l = 4 * (j - i) + k"
      have "l < 4 * n" using True that unfolding l_def by arith
      with copied load_list_nth [of l "4 * n"] have "memcpy ?dest ?src ?n m (?dest + of_nat l) = m (?src + of_nat l)" by (simp only: n) (metis length_load_list)
      moreover have "4 * i + l = 4 * j + k" "4 * (i + d) + l = 4 * (j + d) + k" using True unfolding l_def by arith+
      then have "?dest + of_nat l = base + of_nat (4 * j + k)" "?src + of_nat l = base + of_nat (4 * (j + d) + k)"
        by (simp_all only: add.assoc of_nat_add [symmetric])
      ultimately show ?thesis by (simp only:)
    qed
    then have "word_at base (memcpy ?dest ?src ?n m) j = word_at base m (j + d)" by (rule word_at_cong)
    with True show ?thesis by simp
  next
    case False
    have "base + of_nat (4 * j + k) \<notin> region ?dest (unat ?n)" if "k < 4" for k
      using False assms that offset_region_iff [of "4 * i" "4 * n" "4 * j + k" base] unfolding n by auto
    then have "word_at base (memcpy ?dest ?src ?n m) j = word_at base m j" by (intro word_at_cong same)
    with False show ?thesis by (simp only: if_False)
  qed
qed

end
