(* ===== verification/Xell_Console.thy ===== *)
theory Xell_Console
  imports Xell_Boot Xell_Words "HOL-Library.Monad_Syntax"
begin
unbundle bit_operations_syntax

text \<open>
  The text console on the frame buffer, \<^verbatim>\<open>src/xenos.c\<close>, and the serial console, which the same characters go to, of \<^verbatim>\<open>src/main.c\<close>. The frame buffer is
  in memory, in tiles of 32 by 32 pixels; the font (\<^verbatim>\<open>src/font_8x16.c\<close>) is a table of 16 bytes for each character and an argument. \<^verbatim>\<open>xenos_init\<close> gets
  the base, width and height that the graphics hardware has after its initialisation; the branches for the native resolution are not compiled.
  Flushing the cache does not change memory.
\<close>

section \<open>Pixels\<close>

record xenos =
  xmem :: mem
  xenos_width :: int
  xenos_height :: int
  xenos_size :: int
  xenos_color :: "u32 \<times> u32"
  xenos_fb :: addr
  cursor_x :: int
  cursor_y :: int
  max_x :: int
  max_y :: int
  offset_x :: int
  offset_y :: int
  bufpos :: nat
  buffer :: "u8 list"

definition pixel_base :: "int \<Rightarrow> int \<Rightarrow> int \<Rightarrow> int" where
  "pixel_base w x y = (drop_bit 5 y * 32 * w + push_bit 10 (drop_bit 5 x)
     + (x AND 3) + push_bit 2 (y AND 1) + push_bit 3 (drop_bit 2 (x AND 31)) + push_bit 6 (drop_bit 1 (y AND 31))) XOR push_bit 2 (y AND 8)"

definition xenos_pset32 :: "int \<Rightarrow> int \<Rightarrow> u32 \<Rightarrow> xenos \<Rightarrow> xenos" where
  "xenos_pset32 x y color s = s\<lparr>xmem := store_be32 (xenos_fb s + word_of_int (4 * pixel_base (xenos_width s) x y)) color (xmem s)\<rparr>"

definition xenos_pset :: "int \<Rightarrow> int \<Rightarrow> u8 \<Rightarrow> u8 \<Rightarrow> u8 \<Rightarrow> xenos \<Rightarrow> xenos" where
  "xenos_pset x y r g b s = xenos_pset32 x y (push_bit 24 (ucast b) + push_bit 16 (ucast g) + push_bit 8 (ucast r)) s"

definition font_pixel :: "(nat \<Rightarrow> u8) \<Rightarrow> u8 \<Rightarrow> nat \<Rightarrow> nat \<Rightarrow> bool" where
  "font_pixel fontdata c x y \<longleftrightarrow> drop_bit (7 - x) (fontdata (unat c * 16 + y)) AND 1 \<noteq> 0"

fun draw_row :: "nat \<Rightarrow> (nat \<Rightarrow> u8) \<Rightarrow> int \<Rightarrow> int \<Rightarrow> u8 \<Rightarrow> nat \<Rightarrow> nat \<Rightarrow> xenos \<Rightarrow> xenos" where
  "draw_row 0 fontdata x y c lx ly s = s"
| "draw_row (Suc n) fontdata x y c lx ly s = draw_row n fontdata x y c (lx + 1) ly
     (xenos_pset32 (x + int lx) (y + int ly) (if font_pixel fontdata c lx ly then snd (xenos_color s) else fst (xenos_color s)) s)"

fun draw_rows :: "nat \<Rightarrow> (nat \<Rightarrow> u8) \<Rightarrow> int \<Rightarrow> int \<Rightarrow> u8 \<Rightarrow> nat \<Rightarrow> xenos \<Rightarrow> xenos" where
  "draw_rows 0 fontdata x y c ly s = s"
| "draw_rows (Suc n) fontdata x y c ly s = draw_rows n fontdata x y c (ly + 1) (draw_row 8 fontdata x y c 0 ly s)"

definition xenos_draw_char :: "(nat \<Rightarrow> u8) \<Rightarrow> int \<Rightarrow> int \<Rightarrow> u8 \<Rightarrow> xenos \<Rightarrow> xenos" where
  "xenos_draw_char fontdata x y c s = draw_rows 16 fontdata x y c 0 s"

section \<open>Clearing and scrolling\<close>

fun fill_words :: "nat \<Rightarrow> addr \<Rightarrow> u32 \<Rightarrow> mem \<Rightarrow> mem" where
  "fill_words 0 a v m = m"
| "fill_words (Suc n) a v m = fill_words n (a + 4) v (store_be32 a v m)"

definition xenos_clrscr :: "u32 \<Rightarrow> xenos \<Rightarrow> xenos" where
  "xenos_clrscr bgra s = s\<lparr>xmem := fill_words (nat (xenos_size s)) (xenos_fb s) bgra (xmem s)\<rparr>"

function scroll_loop :: "int \<Rightarrow> int \<Rightarrow> int \<Rightarrow> xenos \<Rightarrow> xenos" where
  "scroll_loop bs lines l s =
     (if l * 32 < xenos_height s
      then scroll_loop bs lines (l + 1) (s\<lparr>xmem := memcpy (xenos_fb s + word_of_int (bs * (l - lines))) (xenos_fb s + word_of_int (bs * l)) (word_of_int bs) (xmem s)\<rparr>)
      else s)"
  by pat_completeness auto
termination
  by (relation "measure (\<lambda>(bs, lines, l, s). nat (xenos_height s - l * 32))") auto

declare scroll_loop.simps [simp del]

definition xenos_scroll32 :: "int \<Rightarrow> xenos \<Rightarrow> xenos" where
  "xenos_scroll32 lines s =
     (let bs = xenos_width s * 32 * 4;
          s = scroll_loop bs lines lines s
      in s\<lparr>xmem := fill_words (nat (bs * lines) div 4) (xenos_fb s + word_of_int (xenos_size s * 4 - bs * lines)) (fst (xenos_color s)) (xmem s)\<rparr>)"

section \<open>Characters\<close>

definition xenos_newline :: "xenos \<Rightarrow> xenos" where
  "xenos_newline s =
     (let s = s\<lparr>cursor_x := 0, cursor_y := cursor_y s + 1\<rparr>
      in if cursor_y s \<ge> max_y s
         then let s = xenos_scroll32 1 s in s\<lparr>cursor_y := cursor_y s - 2\<rparr>
         else s)"

definition xenos_putch_impl :: "(nat \<Rightarrow> u8) \<Rightarrow> u8 \<Rightarrow> xenos \<Rightarrow> xenos" where
  "xenos_putch_impl fontdata c s =
     (if c = 9 then s\<lparr>cursor_x := (cursor_x s + 7) AND NOT 7\<rparr>
      else if c = 13 then s\<lparr>cursor_x := 0\<rparr>
      else if c = 10 then xenos_newline s
      else let s = xenos_draw_char fontdata (cursor_x s * 8 + offset_x s) (cursor_y s * 16 + offset_y s) c s;
               s = s\<lparr>cursor_x := cursor_x s + 1\<rparr>
           in if cursor_x s \<ge> max_x s then xenos_newline s else s)"

definition BUFFER :: nat where "BUFFER = 2048"

definition xenos_putch :: "(nat \<Rightarrow> u8) \<Rightarrow> u8 \<Rightarrow> xenos \<Rightarrow> xenos" where
  "xenos_putch fontdata c s =
     (if xenos_fb s = 0
      then let s = s\<lparr>buffer := (buffer s)[bufpos s := c], bufpos := bufpos s + 1\<rparr>
           in if bufpos s = BUFFER then s\<lparr>bufpos := bufpos s - 1\<rparr> else s
      else xenos_putch_impl fontdata c s)"

text \<open>The picture and the version, which the build generates.\<close>

definition xenos_ascii :: "u8 list \<Rightarrow> u8 list" where
  "xenos_ascii version = [10] @ bytes '' ######################################################'' @ [10]
      @ bytes '' #        ##########################       ####      ##'' @ [10]
      @ bytes '' #  ###############################  #####  ##   ##   #'' @ [10]
      @ bytes '' #  ###############################  #########  ####  #'' @ [10]
      @ bytes '' #  ########  #   ####   ####   ###       ####  ####  #'' @ [10]
      @ bytes '' #      ####    #  ##  #  ##  #  ##   ###  ###  ####  #'' @ [10]
      @ bytes '' #  ########  #######     ##     ##  #####  ##  ####  #'' @ [10]
      @ bytes '' #  ########  #######  #####  #####  #####  ##  ####  #'' @ [10]
      @ bytes '' #  ########  #######  #  ##  #  ###  ###   ##   ##   #'' @ [10]
      @ bytes '' #  ########  ########   ####   #####     #####      ##'' @ [10]
      @ bytes '' ######################################################'' @ [10]
     @ bytes ''           XeLL - Xenon Linux Loader '' @ version @ [10, 10]"

definition xenos_asciiart :: "(nat \<Rightarrow> u8) \<Rightarrow> u8 list \<Rightarrow> xenos \<Rightarrow> xenos" where
  "xenos_asciiart fontdata version s = fold (xenos_putch_impl fontdata) (xenos_ascii version) s"

section \<open>The serial port\<close>

text \<open>What loads from and stores to its registers do, on a state of any type. Waiting for ever is \<^term>\<open>None\<close>.\<close>

record 'd uart =
  uart_load :: "addr \<Rightarrow> 'd \<Rightarrow> u32 \<times> 'd"
  uart_store :: "addr \<Rightarrow> u32 \<Rightarrow> 'd \<Rightarrow> 'd"

partial_function (option) putch_wait :: "'d uart \<Rightarrow> 'd \<Rightarrow> 'd option" where
  "putch_wait U d = (case uart_load U 0x80000200ea001018 d of (v, d) \<Rightarrow> if v AND 0x02000000 = 0 then putch_wait U d else Some d)"

definition putch :: "'d uart \<Rightarrow> u8 \<Rightarrow> 'd \<Rightarrow> 'd option" where
  "putch U c d = do {
     d \<leftarrow> putch_wait U d;
     Some (uart_store U 0x80000200ea001014 (push_bit 24 (ucast c) AND 0xFF000000) d)
   }"

partial_function (option) kbhit :: "'d uart \<Rightarrow> 'd \<Rightarrow> (bool \<times> 'd) option" where
  "kbhit U d = (case uart_load U 0x80000200ea001018 d of (status, d) \<Rightarrow>
     if status AND NOT 0x03000000 \<noteq> 0 then kbhit U d else Some (status AND 0x01000000 \<noteq> 0, d))"

partial_function (option) getchar :: "'d uart \<Rightarrow> 'd \<Rightarrow> (u32 \<times> 'd) option" where
  "getchar U d = do {
     (hit, d) \<leftarrow> kbhit U d;
     if \<not> hit then getchar U d
     else (case uart_load U 0x80000200ea001010 d of (v, d) \<Rightarrow> Some (drop_bit 24 v, d))
   }"

text \<open>Without \<^verbatim>\<open>CYGNOS\<close>. The two consoles have the state of the port and that of the screen.\<close>

definition putchar :: "'d uart \<Rightarrow> (nat \<Rightarrow> u8) \<Rightarrow> u32 \<Rightarrow> 'd \<times> xenos \<Rightarrow> ('d \<times> xenos) option" where
  "putchar U fontdata c p = do {
     let (d, s) = p;
     d \<leftarrow> (if c = 10 then putch U 13 d else Some d);
     d \<leftarrow> putch U (ucast c) d;
     Some (d, xenos_putch fontdata (ucast c) s)
   }"

fun putstring :: "'d uart \<Rightarrow> (nat \<Rightarrow> u8) \<Rightarrow> u8 list \<Rightarrow> 'd \<times> xenos \<Rightarrow> ('d \<times> xenos) option" where
  "putstring U fontdata [] p = Some p"
| "putstring U fontdata (c # cs) p = do { p \<leftarrow> putchar U fontdata (ucast c) p; putstring U fontdata cs p }"

definition puts :: "'d uart \<Rightarrow> (nat \<Rightarrow> u8) \<Rightarrow> u8 list \<Rightarrow> 'd \<times> xenos \<Rightarrow> ('d \<times> xenos) option" where
  "puts U fontdata cs p = do { p \<leftarrow> putstring U fontdata cs p; putstring U fontdata [10] p }"

section \<open>Initialisation\<close>

text \<open>
  \<open>b\<close>, \<open>w\<close> and \<open>h\<close> are the fields of \<^verbatim>\<open>struct ati_info\<close> after \<^verbatim>\<open>xenos_lowlevel_init\<close>. First what happens before the messages.
\<close>

definition xenos_setup :: "(nat \<Rightarrow> u8) \<Rightarrow> u32 \<Rightarrow> u32 \<Rightarrow> u32 \<Rightarrow> xenos \<Rightarrow> xenos" where
  "xenos_setup fontdata b w h s =
     (let s = s\<lparr>xenos_fb := ucast b OR 0x8000000000000000,
             xenos_width := sint (push_bit 5 (drop_bit 5 (w + 31))), xenos_height := sint (push_bit 5 (drop_bit 5 (h + 31)))\<rparr>;
          s = s\<lparr>xenos_size := xenos_width s * xenos_height s, cursor_x := 0, cursor_y := 0\<rparr>;
          s = (if xenos_height s \<le> 576 then s\<lparr>offset_x := 50, offset_y := 50\<rparr> else s);
          s = s\<lparr>cursor_x := 0, cursor_y := 0,
             max_x := uint ((w - word_of_int (offset_x s * 2)) div 8), max_y := uint ((h - word_of_int (offset_y s * 2)) div 16)\<rparr>;
          s = xenos_clrscr (fst (xenos_color s)) s
      in fold (xenos_putch_impl fontdata) (take (bufpos s) (buffer s)) s)"

definition xenos_init :: "'d uart \<Rightarrow> (nat \<Rightarrow> u8) \<Rightarrow> u8 list \<Rightarrow> u32 \<Rightarrow> u32 \<Rightarrow> u32 \<Rightarrow> 'd \<times> xenos \<Rightarrow> ('d \<times> xenos) option" where
  "xenos_init U fontdata version b w h p = do {
     let (d, s) = p;
     let s = xenos_setup fontdata b w h s;
     overrun \<leftarrow> (if bufpos s = BUFFER - 1 then printf (bytes '' * Xenos FB BUFFER overrun!'' @ [10]) [] else Some []);
     (d, s) \<leftarrow> putstring U fontdata overrun (d, s);
     msg \<leftarrow> printf (bytes '' * Xenos FB with %dx%d (%dx%d) at %p initialized.'' @ [10])
       [VInt (word_of_int (max_x s)), VInt (word_of_int (max_y s)), VInt w, VInt h, VPtr (xenos_fb s)];
     (d, s) \<leftarrow> putstring U fontdata msg (d, s);
     Some (d, xenos_asciiart fontdata version s)
   }"

section \<open>The tiles\<close>

lemma xor_32: "(n :: int) XOR 32 = (if even (n div 32) then n + 32 else n - 32)"
proof -
  have "n XOR 32 = flip_bit 5 n" by (simp add: flip_bit_eq_xor)
  also have "\<dots> = (if even (n div 32) then n + 32 else n - 32)"
    by (simp add: flip_bit_eq_if set_bit_eq unset_bit_eq bit_iff_odd)
  finally show ?thesis .
qed

lemma digit:
  assumes "0 \<le> a" "a < k"
  shows "(a + k * b) div k = b" and "(a + k * b) mod k = (a :: int)"
  using assms by (simp_all add: div_pos_pos_trivial)

lemma digit_inj:
  assumes "0 \<le> a" "a < k" "0 \<le> a'" "a' < k" "k * b + a = k * b' + (a' :: int)"
  shows "a = a' \<and> b = b'"
  using digit [OF assms(1,2), of b] digit [OF assms(3,4), of b'] assms(5) by (metis add.commute)

lemma coordinate_digits:
  "(x :: int) = 32 * (x div 32) + 16 * (x div 16 mod 2) + 4 * (x div 4 mod 4) + x mod 4"
  "(y :: int) = 32 * (y div 32) + 2 * (y div 2 mod 16) + y mod 2"
proof -
  have d: "x div 16 = x div 4 div 4" "x div 32 = x div 16 div 2" "y div 32 = y div 2 div 16"
    by (simp_all add: zdiv_zmult2_eq [symmetric])
  have "x = 32 * q + 16 * c + 4 * b + a" if "p * 4 + a = x" "r * 4 + b = p" "q * 2 + c = r" for p q r a b c :: int
    using that by simp
  then show "x = 32 * (x div 32) + 16 * (x div 16 mod 2) + 4 * (x div 4 mod 4) + x mod 4"
    using div_mult_mod_eq unfolding d by blast
  have "y = 32 * q + 2 * b + a" if "p * 2 + a = y" "q * 16 + b = p" for p q a b :: int using that by simp
  then show "y = 32 * (y div 32) + 2 * (y div 2 mod 16) + y mod 2"
    using div_mult_mod_eq unfolding d by blast
qed

text \<open>The index of a pixel: its tile, and within the tile groups of four pixels, with one bit of the position exchanged in every other group of eight rows.\<close>

definition tile_index :: "int \<Rightarrow> int \<Rightarrow> int" where
  "tile_index x y = x mod 4 + 4 * (y mod 2 + 2 * (x div 4 mod 4 + 4 * ((x div 16 + y div 8) mod 2 + 2 * (y div 2 mod 16))))"

lemma pixel_base_tile: "pixel_base (32 * w) x y = 1024 * (w * (y div 32) + x div 32) + tile_index x y"
proof -
  define n where "n = y div 32 * 32 * (32 * w) + x div 32 * 1024 + x mod 4 + y mod 2 * 4 + x mod 32 div 4 * 8 + y mod 32 div 2 * 64"
  have mask: "z AND 3 = z mod 4" "z AND 1 = z mod 2" "z AND 31 = z mod 32" for z :: int
    using take_bit_eq_mask [of 2 z] take_bit_eq_mask [of 1 z] take_bit_eq_mask [of 5 z]
    by (simp_all add: take_bit_eq_mod mask_eq_exp_minus_1)
  have y8: "y AND 8 = (if even (y div 8) then 0 else 8)"
  proof -
    have "y AND 2 ^ 3 = (if bit y 3 then 2 ^ 3 else 0)" by (rule bit_eqI) (auto simp only: bit_and_iff bit_exp_iff bit_0_eq bot_fun_def bot_bool_def split: if_splits)
    then show ?thesis by (simp add: bit_iff_odd)
  qed
  have "pixel_base (32 * w) x y = n XOR push_bit 2 (y AND 8)"
    by (simp add: pixel_base_def n_def mask drop_bit_eq_div push_bit_eq_mult)
  also have "push_bit 2 (y AND 8) = (if even (y div 8) then 0 else 32)"
    by (simp add: y8 push_bit_eq_mult)
  finally have p: "pixel_base (32 * w) x y = (if even (y div 8) then n else if even (n div 32) then n + 32 else n - 32)"
    by (simp add: xor_32)
  have "x mod 32 = x mod 4 + 4 * (x div 4 mod 4 + 4 * (x div 16 mod 2))" "y mod 32 = y mod 2 + 2 * (y div 2 mod 16)"
  proof -
    have "m = a + 4 * (b + 4 * c)" if "z = 32 * q + 16 * c + 4 * b + a" "q * 32 + m = z" for z q a b c m :: int using that by simp
    then show "x mod 32 = x mod 4 + 4 * (x div 4 mod 4 + 4 * (x div 16 mod 2))" using coordinate_digits(1) div_mult_mod_eq by blast
    have "m = a + 2 * b" if "z = 32 * q + 2 * b + a" "q * 32 + m = z" for z q a b m :: int using that by simp
    then show "y mod 32 = y mod 2 + 2 * (y div 2 mod 16)" using coordinate_digits(2) div_mult_mod_eq by blast
  qed
  then have c: "x mod 32 div 4 = x div 4 mod 4 + 4 * (x div 16 mod 2)" and r: "y mod 32 div 2 = y div 2 mod 16"
    by (simp_all only: digit pos_mod_bound pos_mod_sign zero_less_numeral)
  have n: "n = (x mod 4 + y mod 2 * 4 + x div 4 mod 4 * 8) + 32 * (x div 16 mod 2 + 2 * (16 * (w * (y div 32) + x div 32) + y div 2 mod 16))"
  proof -
    have "q * 32 * (32 * w) + p * 1024 + a + b * 4 + (c + 4 * d) * 8 + e * 64 = (a + b * 4 + c * 8) + 32 * (d + 2 * (16 * (w * q + p) + e))"
      for q p a b c d e :: int by (simp add: algebra_simps)
    then show ?thesis unfolding n_def c r .
  qed
  have "0 \<le> a + b * 4 + c * 8 \<and> a + b * 4 + c * 8 < 32" if "0 \<le> a" "a < 4" "0 \<le> b" "b < 2" "0 \<le> c" "c < 4" for a b c :: int
    using that by linarith
  from this [of "x mod 4" "y mod 2" "x div 4 mod 4"]
  have "0 \<le> x mod 4 + y mod 2 * 4 + x div 4 mod 4 * 8" "x mod 4 + y mod 2 * 4 + x div 4 mod 4 * 8 < 32" by simp_all
  then have "n div 32 = x div 16 mod 2 + 2 * (16 * (w * (y div 32) + x div 32) + y div 2 mod 16)"
    unfolding n by (rule digit)
  then have ev: "even (n div 32) \<longleftrightarrow> even (x div 16)" by (simp only: even_add even_mult_iff even_numeral simp_thms even_mod_2_iff)
  have par: "(a + b) mod 2 = (if even b then a mod 2 else 1 - a mod 2)" "a mod 2 = (if even a then 0 else 1)" for a b :: int
    by presburger+
  have gen: "(if eb then l + 32 * (p + 2 * (16 * t + r)) else if ea then l + 32 * (p + 2 * (16 * t + r)) + 32 else l + 32 * (p + 2 * (16 * t + r)) - 32)
      = 1024 * t + (u + 4 * (v + 2 * (z + 4 * ((if eb then p else 1 - p) + 2 * r))))"
    if "l = u + v * 4 + z * 8" "p = (if ea then 0 else 1)" for eb ea and l p t r u v z :: int
    using that by simp
  show ?thesis
    unfolding p unfolding ev unfolding n tile_index_def par(1) by (rule gen [OF refl par(2)])
qed

lemma tile_index_digits:
  "tile_index x y mod 4 = x mod 4" "tile_index x y div 4 mod 2 = y mod 2" "tile_index x y div 4 div 2 mod 4 = x div 4 mod 4"
  "tile_index x y div 4 div 2 div 4 mod 2 = (x div 16 + y div 8) mod 2" "tile_index x y div 4 div 2 div 4 div 2 = y div 2 mod 16"
  "0 \<le> tile_index x y" "tile_index x y < 1024"
proof -
  define a b c d e where defs: "a = x mod 4" "b = y mod 2" "c = x div 4 mod 4" "d = (x div 16 + y div 8) mod 2" "e = y div 2 mod 16"
  have bnd: "0 \<le> a" "a < 4" "0 \<le> b" "b < 2" "0 \<le> c" "c < 4" "0 \<le> d" "d < 2" "0 \<le> e" "e < 16" by (simp_all add: defs)
  have t: "tile_index x y = a + 4 * (b + 2 * (c + 4 * (d + 2 * e)))" by (simp add: tile_index_def defs)
  note dg = digit [OF bnd(1,2)] digit [OF bnd(3,4)] digit [OF bnd(5,6)] digit [OF bnd(7,8)]
  show "tile_index x y mod 4 = x mod 4" "tile_index x y div 4 mod 2 = y mod 2" "tile_index x y div 4 div 2 mod 4 = x div 4 mod 4"
    "tile_index x y div 4 div 2 div 4 mod 2 = (x div 16 + y div 8) mod 2" "tile_index x y div 4 div 2 div 4 div 2 = y div 2 mod 16"
    by (simp_all only: t dg defs(1) [symmetric] defs(2) [symmetric] defs(3) [symmetric] defs(4) [symmetric] defs(5) [symmetric])
  show "0 \<le> tile_index x y" "tile_index x y < 1024" using bnd unfolding t by simp_all
qed

lemma tile_index_inj:
  assumes "tile_index x y = tile_index x' y'" "x div 32 = x' div 32" "y div 32 = y' div 32"
  shows "x = x' \<and> y = y'"
proof -
  have e: "x mod 4 = x' mod 4" "y mod 2 = y' mod 2" "x div 4 mod 4 = x' div 4 mod 4"
    "(x div 16 + y div 8) mod 2 = (x' div 16 + y' div 8) mod 2" "y div 2 mod 16 = y' div 2 mod 16"
    using tile_index_digits(1-5) [of x y] tile_index_digits(1-5) [of x' y'] assms(1) by metis+
  have y: "y = y'" using coordinate_digits(2) [of y] coordinate_digits(2) [of y'] e(2,5) assms(3) by metis
  have par: "a mod 2 = a' mod 2" if "(a + k) mod 2 = (a' + k) mod 2" for a a' k :: int using that by presburger
  have "x div 16 mod 2 = x' div 16 mod 2" using e(4) unfolding y by (rule par)
  with e(1,3) assms(2) coordinate_digits(1) [of x] coordinate_digits(1) [of x'] have "x = x'" by metis
  with y show ?thesis by simp
qed

lemma pixel_base_bounds:
  assumes "0 \<le> x" "x < 32 * w" "0 \<le> y" "y < 32 * h"
  shows "0 \<le> pixel_base (32 * w) x y" "pixel_base (32 * w) x y < 32 * w * (32 * h)"
proof -
  have t: "0 \<le> x div 32" "x div 32 < w" "0 \<le> y div 32" "y div 32 \<le> h - 1" using assms by auto
  then have "w * (y div 32) + x div 32 < w * (y div 32 + 1)" by (simp add: distrib_left)
  also have "\<dots> \<le> w * h" using t by (intro mult_left_mono) auto
  finally have "w * (y div 32) + x div 32 + 1 \<le> w * h" by simp
  then have "1024 * (w * (y div 32) + x div 32) + 1024 \<le> 32 * w * (32 * h)" by simp
  with tile_index_digits(7) [of x y] show "pixel_base (32 * w) x y < 32 * w * (32 * h)" by (simp add: pixel_base_tile)
  show "0 \<le> pixel_base (32 * w) x y" using t tile_index_digits(6) [of x y] by (simp add: pixel_base_tile)
qed

lemma pixel_base_inj:
  assumes "0 \<le> x" "x < 32 * w" "0 \<le> x'" "x' < 32 * w" "pixel_base (32 * w) x y = pixel_base (32 * w) x' y'"
  shows "x = x' \<and> y = y'"
proof -
  have t: "0 \<le> x div 32" "x div 32 < w" "0 \<le> x' div 32" "x' div 32 < w" using assms by auto
  have tile: "tile_index x y = tile_index x' y' \<and> w * (y div 32) + x div 32 = w * (y' div 32) + x' div 32"
    using assms(5) tile_index_digits(6,7) [of x y] tile_index_digits(6,7) [of x' y'] digit_inj unfolding pixel_base_tile by blast
  then have "x div 32 = x' div 32 \<and> y div 32 = y' div 32" using t digit_inj by blast
  with tile show ?thesis using tile_index_inj by blast
qed

lemma pixel_base_down: "pixel_base (32 * w) x (y + 32) = pixel_base (32 * w) x y + 1024 * w"
proof -
  have y: "(y + 32) div 8 = y div 8 + 2 * 2" "(y + 32) div 2 = y div 2 + 16" "(y + 32) div 32 = y div 32 + 1" by simp_all
  have m: "(a + (b + 2 * 2)) mod 2 = (a + b) mod 2" "(a + 16) mod 16 = a mod 16" "(a + 32) mod 2 = a mod 2" for a b :: int
    using mod_mult_self2 [of "a + b" 2 2] mod_mult_self2 [of a 2 16] by (simp_all add: add.assoc)
  have gen: "1024 * (w * (q + 1) + p) + t = 1024 * (w * q + p) + t + 1024 * w" for q p t by (simp add: algebra_simps)
  show ?thesis unfolding pixel_base_tile tile_index_def y m gen ..
qed

section \<open>Filling the frame buffer\<close>

lemma fill_words_other: "x \<notin> region a (4 * n) \<Longrightarrow> fill_words n a v m x = m x"
proof (induction n arbitrary: a m)
  case (Suc n)
  have "region a (4 * Suc n) = region a 4 \<union> region (a + 4) (4 * n)" using region_add [of a 4 "4 * n"] by simp
  with Suc show ?case by (simp add: store_be32_other)
qed simp

lemma word_at_fill:
  assumes "i + n \<le> sz" "j < sz" "4 * sz \<le> 2 ^ 64"
  shows "word_at fb (fill_words n (fb + of_nat (4 * i)) v m) j = (if i \<le> j \<and> j < i + n then v else word_at fb m j)"
  using assms
proof (induction n arbitrary: i m)
  case (Suc n)
  have "fb + of_nat (4 * i) + 4 = fb + of_nat (4 * Suc i)" by (simp add: algebra_simps)
  then have "word_at fb (fill_words (Suc n) (fb + of_nat (4 * i)) v m) j
      = word_at fb (fill_words n (fb + of_nat (4 * Suc i)) v (store_be32 (fb + of_nat (4 * i)) v m)) j"
    by (simp only: fill_words.simps)
  also have "\<dots> = (if Suc i \<le> j \<and> j < Suc i + n then v else word_at fb (store_be32 (fb + of_nat (4 * i)) v m) j)"
    using Suc.prems by (intro Suc.IH) auto
  also have "\<dots> = (if i \<le> j \<and> j < i + Suc n then v else word_at fb m j)"
    using word_at_store [of i sz j fb v m] Suc.prems by auto
  finally show ?case .
qed auto

section \<open>The screen as a plane of pixels\<close>

record geometry =
  g_width :: int
  g_height :: int
  g_cols :: int
  g_rows :: int
  g_left :: int
  g_top :: int
  g_back :: u32
  g_fore :: u32

definition geometry :: "xenos \<Rightarrow> geometry" where
  "geometry s = \<lparr>g_width = xenos_width s, g_height = xenos_height s, g_cols = max_x s, g_rows = max_y s, g_left = offset_x s, g_top = offset_y s,
     g_back = fst (xenos_color s), g_fore = snd (xenos_color s)\<rparr>"

record screen =
  sc_x :: int
  sc_y :: int
  sc_pixels :: "int \<Rightarrow> int \<Rightarrow> u32"

definition on_screen :: "geometry \<Rightarrow> int \<Rightarrow> int \<Rightarrow> bool" where
  "on_screen g x y \<longleftrightarrow> 0 \<le> x \<and> x < g_width g \<and> 0 \<le> y \<and> y < g_height g"

text \<open>What the screen shows: the words of the frame buffer, without the tiles.\<close>

definition pixels :: "xenos \<Rightarrow> int \<Rightarrow> int \<Rightarrow> u32" where
  "pixels s x y = (if on_screen (geometry s) x y then word_at (xenos_fb s) (xmem s) (nat (pixel_base (xenos_width s) x y)) else 0)"

definition view :: "xenos \<Rightarrow> screen" where
  "view s = \<lparr>sc_x = cursor_x s, sc_y = cursor_y s, sc_pixels = pixels s\<rparr>"

definition spec_glyph :: "(nat \<Rightarrow> u8) \<Rightarrow> geometry \<Rightarrow> u8 \<Rightarrow> int \<Rightarrow> int \<Rightarrow> (int \<Rightarrow> int \<Rightarrow> u32) \<Rightarrow> int \<Rightarrow> int \<Rightarrow> u32" where
  "spec_glyph fontdata g c x0 y0 p x y =
     (if x0 \<le> x \<and> x < x0 + 8 \<and> y0 \<le> y \<and> y < y0 + 16
      then if font_pixel fontdata c (nat (x - x0)) (nat (y - y0)) then g_fore g else g_back g
      else p x y)"

definition spec_scroll :: "geometry \<Rightarrow> (int \<Rightarrow> int \<Rightarrow> u32) \<Rightarrow> int \<Rightarrow> int \<Rightarrow> u32" where
  "spec_scroll g p x y = (if on_screen g x y then if y + 32 < g_height g then p x (y + 32) else g_back g else 0)"

definition spec_newline :: "geometry \<Rightarrow> screen \<Rightarrow> screen" where
  "spec_newline g c =
     (if sc_y c + 1 < g_rows g then c\<lparr>sc_x := 0, sc_y := sc_y c + 1\<rparr>
      else \<lparr>sc_x = 0, sc_y = sc_y c - 1, sc_pixels = spec_scroll g (sc_pixels c)\<rparr>)"

definition spec_putch :: "(nat \<Rightarrow> u8) \<Rightarrow> geometry \<Rightarrow> u8 \<Rightarrow> screen \<Rightarrow> screen" where
  "spec_putch fontdata g c t =
     (if c = 9 then t\<lparr>sc_x := 8 * ((sc_x t + 7) div 8)\<rparr>
      else if c = 13 then t\<lparr>sc_x := 0\<rparr>
      else if c = 10 then spec_newline g t
      else let t = \<lparr>sc_x = sc_x t + 1, sc_y = sc_y t,
             sc_pixels = spec_glyph fontdata g c (8 * sc_x t + g_left g) (16 * sc_y t + g_top g) (sc_pixels t)\<rparr>
           in if sc_x t \<ge> g_cols g then spec_newline g t else t)"

section \<open>Well-formed consoles\<close>

text \<open>The frame buffer has whole tiles, and there is room for all columns, also those that a tabulator reaches behind the last one, and all rows.\<close>

definition screen_ok :: "xenos \<Rightarrow> bool" where
  "screen_ok s \<longleftrightarrow> 32 dvd xenos_width s \<and> 32 dvd xenos_height s \<and> 32 \<le> xenos_width s \<and> 32 \<le> xenos_height s
     \<and> xenos_size s = xenos_width s * xenos_height s \<and> 4 * xenos_size s < 2 ^ 31"

definition console_ok :: "xenos \<Rightarrow> bool" where
  "console_ok s \<longleftrightarrow> screen_ok s \<and> 0 \<le> offset_x s \<and> 0 \<le> offset_y s \<and> 0 < max_x s \<and> 2 \<le> max_y s
     \<and> 64 * ((max_x s + 6) div 8) + 8 + offset_x s \<le> xenos_width s \<and> 16 * max_y s + offset_y s \<le> xenos_height s
     \<and> 0 \<le> cursor_x s \<and> cursor_x s \<le> 8 * ((max_x s + 6) div 8) \<and> 0 \<le> cursor_y s \<and> cursor_y s < max_y s"

text \<open>Only memory of the frame buffer changes.\<close>

definition fb_bytes :: "xenos \<Rightarrow> addr set" where
  "fb_bytes s = region (xenos_fb s) (nat (4 * xenos_size s))"

definition draws :: "xenos \<Rightarrow> xenos \<Rightarrow> bool" where
  "draws s s' \<longleftrightarrow> s' = s\<lparr>xmem := xmem s'\<rparr> \<and> (\<forall>a. a \<notin> fb_bytes s \<longrightarrow> xmem s' a = xmem s a)"

lemma draws_refl: "draws s s"
  by (simp add: draws_def)

lemma draws_fields:
  assumes "draws s s'"
  shows "xenos_width s' = xenos_width s" "xenos_height s' = xenos_height s" "xenos_size s' = xenos_size s" "xenos_color s' = xenos_color s"
    "xenos_fb s' = xenos_fb s" "cursor_x s' = cursor_x s" "cursor_y s' = cursor_y s" "max_x s' = max_x s" "max_y s' = max_y s"
    "offset_x s' = offset_x s" "offset_y s' = offset_y s" "bufpos s' = bufpos s" "buffer s' = buffer s"
    "fb_bytes s' = fb_bytes s" "geometry s' = geometry s" "screen_ok s' = screen_ok s"
proof -
  have "s' = s\<lparr>xmem := xmem s'\<rparr>" using assms by (simp add: draws_def)
  then obtain m where "s' = s\<lparr>xmem := m\<rparr>" by blast
  then show "xenos_width s' = xenos_width s" "xenos_height s' = xenos_height s" "xenos_size s' = xenos_size s" "xenos_color s' = xenos_color s"
    "xenos_fb s' = xenos_fb s" "cursor_x s' = cursor_x s" "cursor_y s' = cursor_y s" "max_x s' = max_x s" "max_y s' = max_y s"
    "offset_x s' = offset_x s" "offset_y s' = offset_y s" "bufpos s' = bufpos s" "buffer s' = buffer s"
    "fb_bytes s' = fb_bytes s" "geometry s' = geometry s" "screen_ok s' = screen_ok s"
    by (simp_all add: fb_bytes_def geometry_def screen_ok_def)
qed

lemma draws_trans: "draws s s' \<Longrightarrow> draws s' s'' \<Longrightarrow> draws s s''"
proof -
  assume d: "draws s s'" "draws s' s''"
  have fb: "fb_bytes s' = fb_bytes s" using d(1) by (rule draws_fields)
  obtain m m' where m: "s' = s\<lparr>xmem := m\<rparr>" "s'' = s'\<lparr>xmem := m'\<rparr>" using d unfolding draws_def by metis
  then show ?thesis using d fb by (simp add: draws_def)
qed

lemma drawsI: "s' = s\<lparr>xmem := m\<rparr> \<Longrightarrow> (\<And>a. a \<notin> fb_bytes s \<Longrightarrow> m a = xmem s a) \<Longrightarrow> draws s s'"
  by (simp add: draws_def)

lemma screen_tiles:
  assumes "screen_ok s"
  obtains w h where "xenos_width s = 32 * int w" "xenos_height s = 32 * int h" "0 < w" "0 < h"
    "nat (xenos_size s) = 1024 * w * h" "xenos_size s = int (1024 * w * h)" "4 * (1024 * w * h) < 2 ^ 31"
proof -
  obtain w h where wh: "xenos_width s = 32 * w" "xenos_height s = 32 * h" using assms by (auto simp: screen_ok_def dvd_def)
  then have "0 < w" "0 < h" using assms by (auto simp: screen_ok_def)
  then obtain w' h' where wh': "w = int w'" "h = int h'" "0 < w'" "0 < h'" by (metis zero_less_imp_eq_int)
  have sz: "xenos_size s = int (1024 * w' * h')" using assms wh wh' by (simp add: screen_ok_def)
  have "4 * xenos_size s < 2 ^ 31" using assms unfolding screen_ok_def by blast
  then have "int (4 * (1024 * w' * h')) < int (2 ^ 31)" by (simp add: sz)
  then have "4 * (1024 * w' * h') < 2 ^ 31" by (simp only: of_nat_less_iff)
  moreover have "nat (xenos_size s) = 1024 * w' * h'" using sz by (simp only: nat_int)
  ultimately show ?thesis using wh wh' sz that [of w' h'] by simp
qed

lemma pixel_index:
  assumes "screen_ok s" "on_screen (geometry s) x y"
  shows "0 \<le> pixel_base (xenos_width s) x y" "nat (pixel_base (xenos_width s) x y) < nat (xenos_size s)"
proof -
  obtain w h where t: "xenos_width s = 32 * int w" "xenos_height s = 32 * int h" "xenos_size s = int (1024 * w * h)"
    using screen_tiles [OF assms(1)] by metis
  have b: "0 \<le> x" "x < 32 * int w" "0 \<le> y" "y < 32 * int h" using assms(2) t by (auto simp: on_screen_def geometry_def)
  note p = pixel_base_bounds [OF b]
  from p show "0 \<le> pixel_base (xenos_width s) x y" by (simp only: t)
  have "pixel_base (xenos_width s) x y < xenos_size s" using p(2) by (simp add: t)
  with p(1) show "nat (pixel_base (xenos_width s) x y) < nat (xenos_size s)" by (simp only: t nat_mono_iff)
qed

lemma pixel_index_inj:
  assumes "screen_ok s" "on_screen (geometry s) x y" "on_screen (geometry s) x' y'"
  shows "nat (pixel_base (xenos_width s) x y) = nat (pixel_base (xenos_width s) x' y') \<longleftrightarrow> x = x' \<and> y = y'"
proof
  assume "nat (pixel_base (xenos_width s) x y) = nat (pixel_base (xenos_width s) x' y')"
  then have eq: "pixel_base (xenos_width s) x y = pixel_base (xenos_width s) x' y'"
    using pixel_index(1) [OF assms(1,2)] pixel_index(1) [OF assms(1,3)] by simp
  obtain w where t: "xenos_width s = 32 * int w" using screen_tiles [OF assms(1)] by metis
  have b: "0 \<le> x" "x < 32 * int w" "0 \<le> x'" "x' < 32 * int w" using assms(2,3) t by (auto simp: on_screen_def geometry_def)
  from pixel_base_inj [OF b] eq show "x = x' \<and> y = y'" by (simp add: t)
qed simp

section \<open>The operations draw what they should\<close>

lemma pixels_draws:
  assumes "draws s s'" "on_screen (geometry s) x y"
  shows "pixels s' x y = word_at (xenos_fb s) (xmem s') (nat (pixel_base (xenos_width s) x y))"
  using assms draws_fields [OF assms(1)] by (simp add: pixels_def)

lemma pixels_outside: "\<not> on_screen (geometry s) x y \<Longrightarrow> pixels s x y = 0"
  by (simp add: pixels_def)

lemma screen_bytes: "screen_ok s \<Longrightarrow> 4 * nat (xenos_size s) < 2 ^ 31" "screen_ok s \<Longrightarrow> nat (4 * xenos_size s) = 4 * nat (xenos_size s)"
proof -
  assume "screen_ok s"
  then have "4 * xenos_size s < 2 ^ 31" unfolding screen_ok_def by blast
  then have "xenos_size s < 536870912" by simp
  then have "nat (xenos_size s) < 536870912" by arith
  then show "4 * nat (xenos_size s) < 2 ^ 31" by simp
qed (simp add: nat_mult_distrib)

lemma word_bytes: "screen_ok s \<Longrightarrow> i + n \<le> nat (xenos_size s) \<Longrightarrow> a \<notin> fb_bytes s \<Longrightarrow> a \<notin> region (xenos_fb s + of_nat (4 * i)) (4 * n)"
  using region_sub [of "4 * i" "4 * n" "nat (4 * xenos_size s)" "xenos_fb s"] by (auto simp: fb_bytes_def screen_bytes(2))

lemma pset_address: "0 \<le> p \<Longrightarrow> (word_of_int (4 * p) :: addr) = of_nat (4 * nat p)"
  by (simp add: of_nat_nat)

lemma pset_draws:
  assumes "screen_ok s" "on_screen (geometry s) x y"
  shows "draws s (xenos_pset32 x y v s)"
    and "pixels (xenos_pset32 x y v s) = (pixels s)(x := (pixels s x)(y := v))"
proof -
  let ?i = "nat (pixel_base (xenos_width s) x y)"
  note i = pixel_index [OF assms]
  have addr: "word_of_int (4 * pixel_base (xenos_width s) x y) = (of_nat (4 * ?i) :: addr)" using i(1) by (rule pset_address)
  show d: "draws s (xenos_pset32 x y v s)"
  proof (rule drawsI)
    show "xenos_pset32 x y v s = s\<lparr>xmem := store_be32 (xenos_fb s + of_nat (4 * ?i)) v (xmem s)\<rparr>"
      by (simp only: xenos_pset32_def addr)
    show "store_be32 (xenos_fb s + of_nat (4 * ?i)) v (xmem s) a = xmem s a" if "a \<notin> fb_bytes s" for a
      using word_bytes [OF assms(1) _ that, of ?i 1] i(2) by (intro store_be32_other) simp
  qed
  have "4 * nat (xenos_size s) \<le> 2 ^ 64" using screen_bytes(1) [OF assms(1)] by simp
  then have "pixels (xenos_pset32 x y v s) x' y' = ((pixels s)(x := (pixels s x)(y := v))) x' y'" if on: "on_screen (geometry s) x' y'" for x' y'
    using word_at_store [OF i(2) pixel_index(2) [OF assms(1) on], of "xenos_fb s" v "xmem s"] pixel_index_inj [OF assms(1) on assms(2)]
      pixels_draws [OF d on] on addr by (auto simp: pixels_def xenos_pset32_def simp del: of_nat_mult)
  moreover have "pixels (xenos_pset32 x y v s) x' y' = ((pixels s)(x := (pixels s x)(y := v))) x' y'" if "\<not> on_screen (geometry s) x' y'" for x' y'
    using that assms(2) draws_fields(15) [OF d] by (auto simp: pixels_def)
  ultimately show "pixels (xenos_pset32 x y v s) = (pixels s)(x := (pixels s x)(y := v))" by blast
qed

definition glyph_color :: "(nat \<Rightarrow> u8) \<Rightarrow> xenos \<Rightarrow> u8 \<Rightarrow> int \<Rightarrow> int \<Rightarrow> u32" where
  "glyph_color fontdata s c i j = (if font_pixel fontdata c (nat i) (nat j) then snd (xenos_color s) else fst (xenos_color s))"

lemma glyph_color_cong: "xenos_color s' = xenos_color s \<Longrightarrow> glyph_color fontdata s' = glyph_color fontdata s"
  by (simp add: glyph_color_def fun_eq_iff)

lemma draw_row_draws:
  assumes "screen_ok s" "0 \<le> x" "x + int (lx + n) \<le> xenos_width s" "0 \<le> y" "y + int ly < xenos_height s"
  shows "draws s (draw_row n fontdata x y c lx ly s)
    \<and> pixels (draw_row n fontdata x y c lx ly s) = (\<lambda>px py. if py = y + int ly \<and> x + int lx \<le> px \<and> px < x + int (lx + n)
      then glyph_color fontdata s c (px - x) (int ly) else pixels s px py)"
  using assms
proof (induction n arbitrary: lx s)
  case (Suc n)
  let ?t = "xenos_pset32 (x + int lx) (y + int ly) (glyph_color fontdata s c (int lx) (int ly)) s"
  have eq: "draw_row (Suc n) fontdata x y c lx ly s = draw_row n fontdata x y c (lx + 1) ly ?t"
    by (simp add: glyph_color_def)
  have on: "on_screen (geometry s) (x + int lx) (y + int ly)"
    using Suc.prems by (simp add: on_screen_def geometry_def)
  note t = pset_draws [OF Suc.prems(1) on, of "glyph_color fontdata s c (int lx) (int ly)"]
  note f = draws_fields [OF t(1)]
  have ih: "draws ?t (draw_row n fontdata x y c (lx + 1) ly ?t)
    \<and> pixels (draw_row n fontdata x y c (lx + 1) ly ?t) = (\<lambda>px py. if py = y + int ly \<and> x + int (lx + 1) \<le> px \<and> px < x + int (lx + 1 + n)
      then glyph_color fontdata ?t c (px - x) (int ly) else pixels ?t px py)" using Suc.prems f by (intro Suc.IH) auto
  moreover have "glyph_color fontdata ?t = glyph_color fontdata s" using f(4) by (rule glyph_color_cong)
  ultimately have "pixels (draw_row n fontdata x y c (lx + 1) ly ?t) = (\<lambda>px py. if py = y + int ly \<and> x + int lx \<le> px \<and> px < x + int (lx + Suc n)
      then glyph_color fontdata s c (px - x) (int ly) else pixels s px py)" unfolding t(2) by (auto simp: fun_eq_iff)
  with ih t(1) show ?case unfolding eq by (blast intro: draws_trans)
qed (auto simp: draws_refl fun_eq_iff)

lemma draw_rows_draws:
  assumes "screen_ok s" "0 \<le> x" "x + 8 \<le> xenos_width s" "0 \<le> y" "y + int (ly + n) \<le> xenos_height s"
  shows "draws s (draw_rows n fontdata x y c ly s)
    \<and> pixels (draw_rows n fontdata x y c ly s) = (\<lambda>px py. if x \<le> px \<and> px < x + 8 \<and> y + int ly \<le> py \<and> py < y + int (ly + n)
      then glyph_color fontdata s c (px - x) (py - y) else pixels s px py)"
  using assms
proof (induction n arbitrary: ly s)
  case (Suc n)
  let ?t = "draw_row 8 fontdata x y c 0 ly s"
  have eq: "draw_rows (Suc n) fontdata x y c ly s = draw_rows n fontdata x y c (ly + 1) ?t" by (simp only: draw_rows.simps)
  have row: "draws s ?t \<and> pixels ?t = (\<lambda>px py. if py = y + int ly \<and> x + int 0 \<le> px \<and> px < x + int (0 + 8)
      then glyph_color fontdata s c (px - x) (int ly) else pixels s px py)" using Suc.prems by (intro draw_row_draws) auto
  note f = draws_fields [OF conjunct1 [OF row]]
  have ih: "draws ?t (draw_rows n fontdata x y c (ly + 1) ?t)
    \<and> pixels (draw_rows n fontdata x y c (ly + 1) ?t) = (\<lambda>px py. if x \<le> px \<and> px < x + 8 \<and> y + int (ly + 1) \<le> py \<and> py < y + int (ly + 1 + n)
      then glyph_color fontdata ?t c (px - x) (py - y) else pixels ?t px py)" using Suc.prems f by (intro Suc.IH) auto
  moreover have "glyph_color fontdata ?t = glyph_color fontdata s" using f(4) by (rule glyph_color_cong)
  ultimately have "pixels (draw_rows n fontdata x y c (ly + 1) ?t) = (\<lambda>px py. if x \<le> px \<and> px < x + 8 \<and> y + int ly \<le> py \<and> py < y + int (ly + Suc n)
      then glyph_color fontdata s c (px - x) (py - y) else pixels s px py)" unfolding conjunct2 [OF row] by (auto simp: fun_eq_iff)
  with ih row show ?case unfolding eq by (blast intro: draws_trans)
qed (auto simp: draws_refl fun_eq_iff)

lemma draw_char_draws:
  assumes "screen_ok s" "0 \<le> x" "x + 8 \<le> xenos_width s" "0 \<le> y" "y + 16 \<le> xenos_height s"
  shows "draws s (xenos_draw_char fontdata x y c s)"
    and "pixels (xenos_draw_char fontdata x y c s) = spec_glyph fontdata (geometry s) c x y (pixels s)"
  using draw_rows_draws [of s x y 0 16 fontdata c] assms
  by (auto simp: xenos_draw_char_def spec_glyph_def glyph_color_def geometry_def fun_eq_iff)

lemma clrscr_draws:
  assumes "screen_ok s"
  shows "draws s (xenos_clrscr v s)"
    and "pixels (xenos_clrscr v s) = (\<lambda>x y. if on_screen (geometry s) x y then v else 0)"
proof -
  let ?n = "nat (xenos_size s)"
  show d: "draws s (xenos_clrscr v s)"
    unfolding xenos_clrscr_def
    by (rule drawsI [OF refl], rule fill_words_other) (simp add: fb_bytes_def screen_bytes(2) [OF assms])
  show "pixels (xenos_clrscr v s) = (\<lambda>x y. if on_screen (geometry s) x y then v else 0)"
  proof (intro ext)
    fix x y
    show "pixels (xenos_clrscr v s) x y = (if on_screen (geometry s) x y then v else 0)"
    proof (cases "on_screen (geometry s) x y")
      case True
      have "4 * ?n \<le> 2 ^ 64" using screen_bytes(1) [OF assms] by simp
      with word_at_fill [of 0 ?n ?n _ "xenos_fb s" v "xmem s"] pixel_index(2) [OF assms True] True
      show ?thesis unfolding pixels_draws [OF d True] by (simp add: xenos_clrscr_def)
    next
      case False
      then show ?thesis using draws_fields(15) [OF d] by (simp add: pixels_def)
    qed
  qed
qed

lemma scroll_loop_words:
  assumes "xenos_width s = 32 * int w" "xenos_height s = 32 * int h" "0 < w" "4 * (1024 * w * h) < 2 ^ 31" "xenos_size s = int (1024 * w * h)"
    "0 < l" "l \<le> h"
  shows "draws s (scroll_loop (4 * int (1024 * w)) 1 (int l) s)
     \<and> (\<forall>j < 1024 * w * h. word_at (xenos_fb s) (xmem (scroll_loop (4 * int (1024 * w)) 1 (int l) s)) j
       = (if 1024 * w * (l - 1) \<le> j \<and> j + 1024 * w < 1024 * w * h then word_at (xenos_fb s) (xmem s) (j + 1024 * w) else word_at (xenos_fb s) (xmem s) j))"
  using assms
proof (induction "h - l" arbitrary: l s)
  case 0
  then have "l = h" by simp
  moreover have "scroll_loop (4 * int (1024 * w)) 1 (int h) s = s"
    using 0 by (subst scroll_loop.simps) simp
  moreover have "\<not> (1024 * w * (h - 1) \<le> j \<and> j + 1024 * w < 1024 * w * h)" for j
    using 0 by (cases h) auto
  ultimately show ?case using draws_refl by (metis of_nat_mult)
next
  case (Suc n)
  let ?b = "1024 * w"
  let ?m = "memcpy (xenos_fb s + of_nat (4 * (?b * (l - 1)))) (xenos_fb s + of_nat (4 * (?b * (l - 1) + ?b))) (of_nat (4 * ?b)) (xmem s)"
  let ?t = "s\<lparr>xmem := ?m\<rparr>"
  obtain k where l: "l = Suc k" using Suc.prems(6) by (cases l) auto
  have lh: "Suc l \<le> h" using Suc by simp
  have sz: "?b * (l - 1) + ?b + ?b \<le> ?b * h"
  proof -
    have "?b * (l - 1) + ?b + ?b = ?b * Suc l" by (simp add: l)
    also have "\<dots> \<le> ?b * h" using lh by (rule mult_le_mono2)
    finally show ?thesis .
  qed
  have loop: "scroll_loop (4 * int ?b) 1 (int l) s = scroll_loop (4 * int ?b) 1 (int (Suc l)) ?t"
  proof -
    have "int l * 32 < xenos_height s" using Suc.prems(2) lh by simp
    moreover have "word_of_int (4 * int ?b * (int l - 1)) = (of_nat (4 * (?b * (l - 1))) :: addr)"
      "word_of_int (4 * int ?b * int l) = (of_nat (4 * (?b * (l - 1) + ?b)) :: addr)" "word_of_int (4 * int ?b) = (of_nat (4 * ?b) :: addr)"
      by (simp_all add: l algebra_simps)
    ultimately show ?thesis by (subst scroll_loop.simps) (simp add: add.commute)
  qed
  have dt: "draws s ?t"
  proof (rule drawsI [OF refl])
    fix a assume a: "a \<notin> fb_bytes s"
    have f: "0 < ?b" "?b * (l - 1) + ?b + ?b \<le> ?b * h" "4 * (?b * h) < 2 ^ 64" using Suc.prems(3,4) sz by auto
    have "region (xenos_fb s + of_nat (4 * (?b * (l - 1)))) (4 * ?b) \<subseteq> fb_bytes s"
    proof -
      have "4 * xenos_size s = int (4 * (?b * h))" using Suc.prems(5) by simp
      then have "nat (4 * xenos_size s) = 4 * (?b * h)" by (simp only: nat_int)
      then show ?thesis using f(2) unfolding fb_bytes_def by (intro region_sub) linarith
    qed
    then show "?m a = xmem s a" using a copy_forward(1) [OF f] by (intro memcpy_copies_facts(2) [OF copy_forward(2) [OF f]]) auto
  qed
  have wt: "word_at (xenos_fb s) ?m j = (if ?b * (l - 1) \<le> j \<and> j < ?b * (l - 1) + ?b then word_at (xenos_fb s) (xmem s) (j + ?b) else word_at (xenos_fb s) (xmem s) j)"
    if "j < ?b * h" for j
    using Suc.prems(3,4) sz that by (intro word_at_memcpy) auto
  have ih: "draws ?t (scroll_loop (4 * int ?b) 1 (int (Suc l)) ?t)
     \<and> (\<forall>j < ?b * h. word_at (xenos_fb ?t) (xmem (scroll_loop (4 * int ?b) 1 (int (Suc l)) ?t)) j
       = (if ?b * (Suc l - 1) \<le> j \<and> j + ?b < ?b * h then word_at (xenos_fb ?t) (xmem ?t) (j + ?b) else word_at (xenos_fb ?t) (xmem ?t) j))"
    using Suc.prems lh Suc.hyps(2) by (intro Suc.hyps(1)) auto
  have "word_at (xenos_fb s) (xmem (scroll_loop (4 * int ?b) 1 (int l) s)) j
       = (if ?b * (l - 1) \<le> j \<and> j + ?b < ?b * h then word_at (xenos_fb s) (xmem s) (j + ?b) else word_at (xenos_fb s) (xmem s) j)" if j: "j < ?b * h" for j
  proof -
    have bl: "?b * (Suc l - 1) = ?b * (l - 1) + ?b" by (simp add: l)
    have r: "word_at (xenos_fb s) (xmem (scroll_loop (4 * int ?b) 1 (int l) s)) j
       = (if ?b * (l - 1) + ?b \<le> j \<and> j + ?b < ?b * h then word_at (xenos_fb s) ?m (j + ?b) else word_at (xenos_fb s) ?m j)"
      using conjunct2 [OF ih] j unfolding loop bl by simp
    show ?thesis
    proof (cases "?b * (l - 1) + ?b \<le> j \<and> j + ?b < ?b * h")
      case True
      then show ?thesis using wt [of "j + ?b"] unfolding r by auto
    next
      case False
      then show ?thesis using wt [OF j] sz unfolding r by auto
    qed
  qed
  moreover have "draws s (scroll_loop (4 * int ?b) 1 (int l) s)"
    using dt conjunct1 [OF ih] unfolding loop by (rule draws_trans)
  ultimately show ?case by blast
qed

lemma scroll_draws:
  assumes "screen_ok s"
  shows "draws s (xenos_scroll32 1 s)" and "pixels (xenos_scroll32 1 s) = spec_scroll (geometry s) (pixels s)"
proof -
  obtain w h where t: "xenos_width s = 32 * int w" "xenos_height s = 32 * int h" "0 < w" "0 < h"
    "nat (xenos_size s) = 1024 * w * h" "xenos_size s = int (1024 * w * h)" "4 * (1024 * w * h) < 2 ^ 31"
    using screen_tiles [OF assms] by metis
  let ?b = "1024 * w"
  let ?i = "?b * (h - 1)"
  define l where "l = scroll_loop (4 * int ?b) 1 (int 1) s"
  have hb: "?i + ?b = ?b * h" using t(4) by (cases h) auto
  have loop: "draws s l" and lw: "\<And>j. j < ?b * h \<Longrightarrow> word_at (xenos_fb s) (xmem l) j
      = (if j + ?b < ?b * h then word_at (xenos_fb s) (xmem s) (j + ?b) else word_at (xenos_fb s) (xmem s) j)"
    using scroll_loop_words [OF t(1,2,3,7,6), of 1] t(4) unfolding l_def by auto
  note f = draws_fields [OF loop]
  let ?m = "fill_words ?b (xenos_fb s + of_nat (4 * ?i)) (fst (xenos_color s)) (xmem l)"
  have eq: "xenos_scroll32 1 s = l\<lparr>xmem := ?m\<rparr>"
  proof -
    have bs: "xenos_width s * 32 * 4 = 4 * int ?b" using t(1) by simp
    have "xenos_size l * 4 - 4 * int ?b * 1 = int (4 * ?i)" using f(3) t(6) hb by (simp flip: hb)
    then have "word_of_int (xenos_size l * 4 - 4 * int ?b * 1) = (of_nat (4 * ?i) :: addr)" by (simp only: of_int_of_nat_eq)
    moreover have "nat (4 * int ?b * 1) div 4 = ?b" by simp
    moreover have "scroll_loop (4 * int ?b) 1 1 s = l" by (simp add: l_def)
    ultimately show ?thesis using f(4,5) unfolding xenos_scroll32_def Let_def bs by (simp only:)
  qed
  have "draws l (l\<lparr>xmem := ?m\<rparr>)"
  proof (rule drawsI [OF refl])
    fix a assume "a \<notin> fb_bytes l"
    then have "a \<notin> region (xenos_fb l + of_nat (4 * ?i)) (4 * ?b)"
      using f(3,16) t(5) hb assms by (intro word_bytes) auto
    then show "?m a = xmem l a" using f(5) by (intro fill_words_other) simp
  qed
  with loop show d: "draws s (xenos_scroll32 1 s)" unfolding eq by (rule draws_trans)
  have word: "word_at (xenos_fb s) ?m j = (if j + ?b < ?b * h then word_at (xenos_fb s) (xmem s) (j + ?b) else fst (xenos_color s))" if "j < ?b * h" for j
    using word_at_fill [of ?i ?b "?b * h" j "xenos_fb s" "fst (xenos_color s)" "xmem l"] lw [OF that] that hb t(7) by auto
  show "pixels (xenos_scroll32 1 s) = spec_scroll (geometry s) (pixels s)"
  proof (intro ext)
    fix x y
    show "pixels (xenos_scroll32 1 s) x y = spec_scroll (geometry s) (pixels s) x y"
    proof (cases "on_screen (geometry s) x y")
      case True
      let ?p = "nat (pixel_base (xenos_width s) x y)"
      note p = pixel_index [OF assms True]
      have down: "nat (pixel_base (xenos_width s) x (y + 32)) = ?p + ?b"
        using pixel_base_down [of "int w" x y] p(1) by (simp add: t(1) nat_add_distrib nat_mult_distrib)
      have on32: "on_screen (geometry s) x (y + 32) \<longleftrightarrow> y + 32 < xenos_height s"
        using True by (auto simp: on_screen_def geometry_def)
      moreover have "?p + ?b < ?b * h \<longleftrightarrow> y + 32 < xenos_height s"
      proof
        assume "y + 32 < xenos_height s"
        then show "?p + ?b < ?b * h" using pixel_index(2) [OF assms] on32 down t(5) by metis
      next
        assume less: "?p + ?b < ?b * h"
        show "y + 32 < xenos_height s"
        proof (rule ccontr)
          assume "\<not> y + 32 < xenos_height s"
          then have "int h - 1 \<le> y div 32" using t(2) by simp
          then have "int w * (int h - 1) \<le> int w * (y div 32)" by (intro mult_left_mono) auto
          moreover have "0 \<le> x div 32" using True by (simp add: on_screen_def pos_imp_zdiv_nonneg_iff)
          ultimately have "1024 * (int w * (int h - 1)) \<le> pixel_base (xenos_width s) x y"
          proof -
            have "1024 * a \<le> 1024 * (b + c) + d" if "a \<le> b" "0 \<le> c" "0 \<le> d" for a b c d :: int using that by simp
            then show "int w * (int h - 1) \<le> int w * (y div 32) \<Longrightarrow> 0 \<le> x div 32 \<Longrightarrow> ?thesis"
              using tile_index_digits(6) [of x y] unfolding t(1) pixel_base_tile by blast
          qed
          then have "int (?b * h) \<le> int (?p + ?b)" using p(1) by (simp add: algebra_simps)
          then show False using less by (simp only: of_nat_le_iff)
        qed
      qed
      ultimately show ?thesis
        using word [of ?p] p(2) True t(5) down pixels_draws [OF d True]
        by (simp add: eq spec_scroll_def pixels_def geometry_def)
    next
      case False
      then show ?thesis using draws_fields(15) [OF d] by (simp add: pixels_def spec_scroll_def)
    qed
  qed
qed

section \<open>The console refines the plane of pixels\<close>

lemma view_simps [simp]:
  "sc_x (view s) = cursor_x s" "sc_y (view s) = cursor_y s" "sc_pixels (view s) = pixels s"
  by (simp_all add: view_def)

lemma geometry_simps [simp]:
  "g_width (geometry s) = xenos_width s" "g_height (geometry s) = xenos_height s" "g_cols (geometry s) = max_x s" "g_rows (geometry s) = max_y s"
  "g_left (geometry s) = offset_x s" "g_top (geometry s) = offset_y s" "g_back (geometry s) = fst (xenos_color s)" "g_fore (geometry s) = snd (xenos_color s)"
  by (simp_all add: geometry_def)

lemma cursor_update [simp]:
  "pixels (s\<lparr>cursor_x := i\<rparr>) = pixels s" "pixels (s\<lparr>cursor_y := j\<rparr>) = pixels s"
  "geometry (s\<lparr>cursor_x := i\<rparr>) = geometry s" "geometry (s\<lparr>cursor_y := j\<rparr>) = geometry s"
  "screen_ok (s\<lparr>cursor_x := i\<rparr>) = screen_ok s" "screen_ok (s\<lparr>cursor_y := j\<rparr>) = screen_ok s"
  "fb_bytes (s\<lparr>cursor_x := i\<rparr>) = fb_bytes s" "fb_bytes (s\<lparr>cursor_y := j\<rparr>) = fb_bytes s"
  by (simp_all add: pixels_def geometry_def screen_ok_def fb_bytes_def fun_eq_iff)

text \<open>
  What holds between the states before and after an operation: it is well-formed again, only the cursor and the frame buffer have changed, and the
  view has changed as specified.
\<close>

definition refines :: "(geometry \<Rightarrow> screen \<Rightarrow> screen) \<Rightarrow> xenos \<Rightarrow> xenos \<Rightarrow> bool" where
  "refines f s s' \<longleftrightarrow> console_ok s' \<and> view s' = f (geometry s) (view s) \<and> geometry s' = geometry s \<and> xenos_fb s' = xenos_fb s \<and> fb_bytes s' = fb_bytes s
     \<and> bufpos s' = bufpos s \<and> buffer s' = buffer s \<and> (\<forall>a. a \<notin> fb_bytes s \<longrightarrow> xmem s' a = xmem s a)"

lemma and_not_7: "(z :: int) AND - 8 = 8 * (z div 8)"
proof -
  have "z AND NOT (mask 3) = push_bit 3 (drop_bit 3 z)" by (rule bit_eqI) (auto simp: bit_simps)
  then show ?thesis by (simp add: mask_eq_exp_minus_1 push_bit_eq_mult drop_bit_eq_div)
qed

lemma newline_refines:
  assumes "screen_ok s" "console_ok (s\<lparr>cursor_x := 0\<rparr>)"
  shows "refines spec_newline s (xenos_newline s)"
proof -
  let ?t = "s\<lparr>cursor_x := 0, cursor_y := cursor_y s + 1\<rparr>"
  have ok: "screen_ok ?t" using assms(1) by simp
  note d = scroll_draws [OF ok] and f = draws_fields [OF scroll_draws(1) [OF ok]]
  have frame: "xmem (xenos_scroll32 1 ?t) a = xmem s a" if "a \<notin> fb_bytes s" for a
    using d(1) that by (simp add: draws_def)
  show ?thesis
  proof (cases "cursor_y s + 1 \<ge> max_y s")
    case True
    then have "xenos_newline s = (xenos_scroll32 1 ?t)\<lparr>cursor_y := cursor_y s - 1\<rparr>"
      using f(7) by (simp add: xenos_newline_def Let_def)
    then show ?thesis using True assms(2) d(2) f frame
      by (simp add: refines_def console_ok_def spec_newline_def view_def)
  next
    case False
    then show ?thesis using assms
      by (simp add: refines_def console_ok_def spec_newline_def view_def xenos_newline_def Let_def)
  qed
qed

lemma putch_refines:
  assumes "console_ok s"
  shows "refines (\<lambda>g. spec_putch fontdata g c) s (xenos_putch_impl fontdata c s)"
proof -
  have ok: "screen_ok s" using assms by (simp add: console_ok_def)
  consider "c = 9" | "c = 13" | "c = 10" | (other) "c \<noteq> 9" "c \<noteq> 13" "c \<noteq> 10" by blast
  then show ?thesis
  proof cases
    case 1
    have "0 \<le> (cursor_x s + 7) div 8" "(cursor_x s + 7) div 8 \<le> (max_x s + 6) div 8"
      using assms by (auto simp: console_ok_def)
    then show ?thesis using 1 assms
      by (simp add: refines_def console_ok_def spec_putch_def view_def xenos_putch_impl_def and_not_7)
  next
    case 2
    then show ?thesis using assms by (simp add: refines_def console_ok_def spec_putch_def view_def xenos_putch_impl_def)
  next
    case 3
    have "refines spec_newline s (xenos_newline s)" using ok assms by (intro newline_refines) (auto simp: console_ok_def)
    then show ?thesis using 3 by (simp add: refines_def spec_putch_def xenos_putch_impl_def)
  next
    case other
    let ?x = "cursor_x s * 8 + offset_x s" and ?y = "cursor_y s * 16 + offset_y s"
    let ?t = "xenos_draw_char fontdata ?x ?y c s"
    have b: "0 \<le> ?x" "?x + 8 \<le> xenos_width s" "0 \<le> ?y" "?y + 16 \<le> xenos_height s"
      using assms by (auto simp: console_ok_def)
    note d = draw_char_draws [OF ok b, of fontdata c]
    note f = draws_fields [OF d(1)]
    have eq: "xenos_putch_impl fontdata c s = (let t = ?t\<lparr>cursor_x := cursor_x s + 1\<rparr> in if cursor_x s + 1 \<ge> max_x s then xenos_newline t else t)"
      using other f(6,8) by (simp add: xenos_putch_impl_def Let_def)
    have spec: "spec_putch fontdata (geometry s) c (view s) = (let t = view (?t\<lparr>cursor_x := cursor_x s + 1\<rparr>) in
        if cursor_x s + 1 \<ge> max_x s then spec_newline (geometry s) t else t)"
      using other f(6,7) d(2) by (simp add: spec_putch_def view_def Let_def mult.commute)
    have frame: "xmem ?t a = xmem s a" if "a \<notin> fb_bytes s" for a using d(1) that by (simp add: draws_def)
    show ?thesis
    proof (cases "cursor_x s + 1 \<ge> max_x s")
      case True
      have "refines spec_newline (?t\<lparr>cursor_x := cursor_x s + 1\<rparr>) (xenos_newline (?t\<lparr>cursor_x := cursor_x s + 1\<rparr>))"
        using ok assms f by (intro newline_refines) (auto simp: console_ok_def)
      then show ?thesis using True eq spec f frame by (simp add: refines_def Let_def)
    next
      case False
      have "cursor_x s + 1 \<le> 8 * ((max_x s + 6) div 8)" using False by simp
      then show ?thesis using False eq spec f frame assms by (simp add: refines_def Let_def console_ok_def)
    qed
  qed
qed

text \<open>Any console whose operation on one character follows a specification does so for every text.\<close>

locale console_ops =
  fixes put :: "u8 \<Rightarrow> xenos \<Rightarrow> xenos" and spec :: "geometry \<Rightarrow> u8 \<Rightarrow> screen \<Rightarrow> screen"
  assumes put_refines: "console_ok s \<Longrightarrow> refines (\<lambda>g. spec g c) s (put c s)"
begin

lemma text_refines: "console_ok s \<Longrightarrow> refines (\<lambda>g. fold (spec g) cs) s (fold put cs s)"
proof (induction cs arbitrary: s)
  case (Cons c cs)
  have "refines (\<lambda>g. spec g c) s (put c s)" using Cons.prems by (rule put_refines)
  moreover from this have "refines (\<lambda>g. fold (spec g) cs) (put c s) (fold put cs (put c s))"
    by (intro Cons.IH) (simp add: refines_def)
  ultimately show ?case by (simp add: refines_def)
qed (simp add: refines_def)

end

interpretation xenos_console: console_ops "xenos_putch_impl fontdata" "spec_putch fontdata" for fontdata
  by unfold_locales (rule putch_refines)

section \<open>The messages before the initialisation\<close>

lemma putch_buffers:
  assumes "xenos_fb s = 0" "length (buffer s) = BUFFER" "bufpos s \<le> BUFFER - 1"
  shows "xenos_putch fontdata c s = s\<lparr>buffer := (buffer s)[bufpos s := c], bufpos := min (bufpos s + 1) (BUFFER - 1)\<rparr>"
  using assms by (auto simp: xenos_putch_def Let_def BUFFER_def min_def)

lemma text_buffers:
  assumes "xenos_fb s = 0" "length (buffer s) = BUFFER" "bufpos s \<le> BUFFER - 1"
  shows "\<exists>b n. fold (xenos_putch fontdata) cs s = s\<lparr>buffer := b, bufpos := n\<rparr> \<and> length b = BUFFER
     \<and> n = min (bufpos s + length cs) (BUFFER - 1) \<and> take n b = take (BUFFER - 1) (take (bufpos s) (buffer s) @ cs)"
  using assms
proof (induction cs arbitrary: s)
  case Nil
  then show ?case by (intro exI [of _ "buffer s"] exI [of _ "bufpos s"]) (auto simp: min_def)
next
  case (Cons c cs)
  let ?t = "s\<lparr>buffer := (buffer s)[bufpos s := c], bufpos := min (bufpos s + 1) (BUFFER - 1)\<rparr>"
  obtain b n where b: "fold (xenos_putch fontdata) cs ?t = ?t\<lparr>buffer := b, bufpos := n\<rparr>" "length b = BUFFER"
    "n = min (bufpos ?t + length cs) (BUFFER - 1)" "take n b = take (BUFFER - 1) (take (bufpos ?t) (buffer ?t) @ cs)"
    using Cons.IH [of ?t] Cons.prems by auto
  have "take (BUFFER - 1) (take (bufpos ?t) (buffer ?t) @ cs) = take (BUFFER - 1) (take (bufpos s) (buffer s) @ c # cs)"
  proof (cases "bufpos s = BUFFER - 1")
    case True
    then show ?thesis using Cons.prems(2) by simp
  next
    case False
    then have "bufpos s < BUFFER - 1" using Cons.prems(3) by simp
    then have "take (bufpos ?t) (buffer ?t) = take (bufpos s) (buffer s) @ [c]"
      using Cons.prems(2) by (simp add: take_Suc_conv_app_nth min_def)
    then show ?thesis by simp
  qed
  moreover have "n = min (bufpos s + length (c # cs)) (BUFFER - 1)" using b(3) by (simp add: min_def)
  ultimately show ?case using b putch_buffers [OF Cons.prems, of fontdata c] by auto
qed

section \<open>The serial port sends what is printed\<close>

text \<open>What the code relies on: the port has what was sent, its transmitter is ready after some time, and a byte stored then is sent.\<close>

definition uart_law :: "'d uart \<Rightarrow> ('d \<Rightarrow> u8 list) \<Rightarrow> ('d \<Rightarrow> nat) \<Rightarrow> bool" where
  "uart_law U sent busy \<longleftrightarrow>
     (\<forall>d v d'. uart_load U 0x80000200ea001018 d = (v, d') \<longrightarrow> sent d' = sent d \<and> (v AND 0x02000000 = 0 \<longrightarrow> busy d' < busy d))
     \<and> (\<forall>d c. sent (uart_store U 0x80000200ea001014 (push_bit 24 (ucast c)) d) = sent d @ [c])"

definition crlf :: "u8 \<Rightarrow> u8 list" where
  "crlf c = (if c = 10 then [13, 10] else [c])"

lemma putch_sends:
  assumes "uart_law U sent busy"
  shows "\<exists>d'. putch U c d = Some d' \<and> sent d' = sent d @ [c]"
proof -
  have "\<exists>d'. putch_wait U d = Some d' \<and> sent d' = sent d"
  proof (induction "busy d" arbitrary: d rule: less_induct)
    case less
    obtain v d' where l: "uart_load U 0x80000200ea001018 d = (v, d')" by force
    with assms have law: "sent d' = sent d" "v AND 0x02000000 = 0 \<Longrightarrow> busy d' < busy d" by (auto simp: uart_law_def)
    show ?case
    proof (cases "v AND 0x02000000 = 0")
      case True
      with less [OF law(2)] law(1) show ?thesis by (subst putch_wait.simps) (simp add: l)
    next
      case False
      with law(1) show ?thesis by (subst putch_wait.simps) (simp add: l)
    qed
  qed
  then obtain d' where d': "putch_wait U d = Some d'" "sent d' = sent d" by blast
  have "push_bit 24 (ucast c :: u32) AND 0xFF000000 = push_bit 24 (ucast c)"
  proof -
    have "(ucast c :: u32) AND mask 8 = ucast c" by (rule bit_eqI) (auto simp: bit_simps dest: bit_imp_le_length)
    then have "push_bit 24 (ucast c :: u32) AND push_bit 24 (mask 8) = push_bit 24 (ucast c)" by (simp only: push_bit_and [symmetric])
    then show ?thesis by (simp add: mask_eq_exp_minus_1 push_bit_eq_mult)
  qed
  with d' assms show ?thesis by (simp add: putch_def uart_law_def)
qed

lemma putstring_sends:
  assumes "uart_law U sent busy"
  shows "\<exists>d'. putstring U fontdata cs (d, s) = Some (d', fold (xenos_putch fontdata) cs s) \<and> sent d' = sent d @ concat (map crlf cs)"
proof (induction cs arbitrary: d s)
  case (Cons c cs)
  have u: "(ucast c :: u32) = 10 \<longleftrightarrow> c = 10" "ucast (ucast c :: u32) = c"
  proof -
    show uu: "ucast (ucast c :: u32) = c" by (rule bit_eqI) (auto simp: bit_simps)
    show "(ucast c :: u32) = 10 \<longleftrightarrow> c = 10"
    proof
      assume "(ucast c :: u32) = 10"
      then have "ucast (ucast c :: u32) = (ucast (10 :: u32) :: u8)" by (rule arg_cong)
      then show "c = 10" unfolding uu by simp
    qed simp
  qed
  obtain d1 where d1: "(if c = 10 then putch U 13 d else Some d) = Some d1" "sent d1 = sent d @ (if c = 10 then [13] else [])"
    using putch_sends [OF assms, of 13 d] by (cases "c = 10") auto
  obtain d2 where d2: "putch U c d1 = Some d2" "sent d2 = sent d1 @ [c]" using putch_sends [OF assms] by blast
  obtain d3 where "putstring U fontdata cs (d2, xenos_putch fontdata c s) = Some (d3, fold (xenos_putch fontdata) cs (xenos_putch fontdata c s))"
    "sent d3 = sent d2 @ concat (map crlf cs)" using Cons.IH by blast
  then show ?case using d1 d2 by (intro exI [of _ d3]) (auto simp: putchar_def u crlf_def [of c] split: if_splits)
qed simp

section \<open>Starting the console\<close>

lemma putch_running: "xenos_fb s \<noteq> 0 \<Longrightarrow> xenos_putch fontdata c s = xenos_putch_impl fontdata c s"
  by (simp add: xenos_putch_def)

lemma text_running:
  assumes "console_ok s" "xenos_fb s \<noteq> 0"
  shows "fold (xenos_putch fontdata) cs s = fold (xenos_putch_impl fontdata) cs s"
  using assms
proof (induction cs arbitrary: s)
  case (Cons c cs)
  have "refines (\<lambda>g. spec_putch fontdata g c) s (xenos_putch_impl fontdata c s)" using Cons.prems(1) by (rule putch_refines)
  then show ?case using Cons by (simp add: putch_running refines_def)
qed simp

text \<open>The geometry of the one resolution that \<^verbatim>\<open>xenos_lowlevel_init\<close> sets up, and the empty screen.\<close>

definition vga :: "u32 \<times> u32 \<Rightarrow> geometry" where
  "vga color = \<lparr>g_width = 640, g_height = 480, g_cols = 67, g_rows = 23, g_left = 50, g_top = 50, g_back = fst color, g_fore = snd color\<rparr>"

definition blank :: "geometry \<Rightarrow> screen" where
  "blank g = \<lparr>sc_x = 0, sc_y = 0, sc_pixels = (\<lambda>x y. if on_screen g x y then g_back g else 0)\<rparr>"

lemma setup_view:
  fixes fontdata b s
  defines "t \<equiv> xenos_setup fontdata b 640 480 s"
  shows "console_ok t" and "view t = fold (spec_putch fontdata (vga (xenos_color s))) (take (bufpos s) (buffer s)) (blank (vga (xenos_color s)))"
    and "geometry t = vga (xenos_color s)" and "xenos_fb t = ucast b OR 0x8000000000000000" and "bufpos t = bufpos s"
    and "fb_bytes t = region (ucast b OR 0x8000000000000000) 1228800" and "a \<notin> fb_bytes t \<Longrightarrow> xmem t a = xmem s a"
proof -
  let ?g = "vga (xenos_color s)"
  define u where "u = s\<lparr>xenos_fb := ucast b OR 0x8000000000000000, xenos_width := 640, xenos_height := 480, xenos_size := 307200,
    offset_x := 50, offset_y := 50, cursor_x := 0, cursor_y := 0, max_x := 67, max_y := 23\<rparr>"
  define v where "v = xenos_clrscr (fst (xenos_color s)) u"
  have t: "t = fold (xenos_putch_impl fontdata) (take (bufpos s) (buffer s)) v"
    by (simp add: t_def v_def u_def xenos_setup_def Let_def xenos_clrscr_def push_bit_eq_mult drop_bit_eq_div)
  have u: "screen_ok u" "geometry u = ?g" by (simp_all add: u_def screen_ok_def geometry_def vga_def)
  note d = clrscr_draws [OF u(1), of "fst (xenos_color s)"]
  note f = draws_fields [OF d(1), folded v_def]
  have v: "console_ok v" "geometry v = ?g" using u f by (simp_all add: console_ok_def) (simp_all add: u_def)
  have "cursor_x v = 0" "cursor_y v = 0" "g_back ?g = fst (xenos_color s)" using f by (simp_all add: u_def vga_def)
  with d(2) u(2) have vv: "view v = blank ?g" by (simp add: view_def blank_def v_def [symmetric] fun_eq_iff)
  have r: "refines (\<lambda>g. fold (spec_putch fontdata g) (take (bufpos s) (buffer s))) v t"
    unfolding t using v(1) by (rule xenos_console.text_refines)
  show "console_ok t" "view t = fold (spec_putch fontdata ?g) (take (bufpos s) (buffer s)) (blank ?g)" "geometry t = ?g"
    using r v(2) vv by (simp_all add: refines_def)
  show "xenos_fb t = ucast b OR 0x8000000000000000" "bufpos t = bufpos s" "fb_bytes t = region (ucast b OR 0x8000000000000000) 1228800"
    using r f by (simp_all add: refines_def) (simp_all add: u_def fb_bytes_def)
  assume "a \<notin> fb_bytes t"
  then have "xmem t a = xmem v a" "xmem v a = xmem u a" using r f(14) d(1) by (simp_all add: refines_def draws_def v_def)
  then show "xmem t a = xmem s a" by (simp add: u_def)
qed

definition banner :: "u64 \<Rightarrow> u8 list" where
  "banner fb = bytes '' * Xenos FB with 67x23 (640x480) at '' @ zero_padded 16 fb 16 @ bytes '' initialized.'' @ [10]"

lemma printf_banner:
  "printf (bytes '' * Xenos FB with %dx%d (%dx%d) at %p initialized.'' @ [10]) [VInt 67, VInt 23, VInt 640, VInt 480, VPtr fb] = Some (banner fb)"
proof -
  have dec: "decimal 67 = bytes ''67''" "decimal 23 = bytes ''23''" "decimal 640 = bytes ''640''" "decimal 480 = bytes ''480''"
    by code_simp+
  have n: "number str (scast n) 10 (-1) (-1) 2 = Some (str @ decimal n)" for str and n :: u32
    using number_decimal [of str n] by (simp add: SIGN_def)
  note nums = n [of _ 67] n [of _ 23] n [of _ 640] n [of _ 480]
  have ptr: "number str fb 16 16 (-1) 1 = Some (str @ zero_padded 16 fb 16)" for str
    using number_zero_padded [of 16 ZEROPAD fb str 16] by (simp add: flag_defs)
  have "vsprintf (bytes '' * Xenos FB with %dx%d (%dx%d) at %p initialized.'' @ [10]) [VInt 67, VInt 23, VInt 640, VInt 480, VPtr fb]
      = Some (banner fb, [])"
    using nums by (simp add: vsprintf_def bytes_def parse_spec_def parse_width_def parse_precision_def
        parse_qualifier_def convert_def int_arg_def is_digit_def ptr flag_defs banner_def dec)
  moreover have "length (zero_padded 16 fb 16) = 16"
    using unsigned_less [of fb, where ?'a = nat] by (intro length_zero_padded) simp_all
  then have "length (banner fb) < 1024" by (simp add: banner_def bytes_def)
  moreover have "isxdigit c \<Longrightarrow> c \<noteq> 0" for c by (auto simp: isxdigit_iff)
  then have "\<forall>c \<in> set (banner fb). c \<noteq> 0"
    using zero_padded_chars [of 16 16 fb] by (fastforce simp: banner_def bytes_def)
  then have "takeWhile (\<lambda>c. c \<noteq> 0) (banner fb) = banner fb" by (simp add: takeWhile_eq_all_conv)
  ultimately show ?thesis by (simp add: printf_def)
qed

definition overrun_message :: "u8 list" where
  "overrun_message = bytes '' * Xenos FB BUFFER overrun!'' @ [10]"

lemma printf_overrun: "printf overrun_message [] = Some overrun_message"
  by (simp add: printf_def vsprintf_def overrun_message_def bytes_def)

section \<open>The contracts of the console\<close>

text \<open>C19: Text on a running console appears as on a plane of pixels: each character is drawn in its cell, lines break at the last column, tabulators move
  to the next multiple of eight, and at the end of the last row everything moves up by 32 lines of pixels, although the frame buffer holds the pixels in tiles.
  The cursor stays where everything drawn is on the screen, and no memory outside the frame buffer changes.\<close>

theorem console_text:
  assumes "console_ok s" "xenos_fb s \<noteq> 0"
  shows "let s' = fold (xenos_putch fontdata) cs s in
    console_ok s' \<and> geometry s' = geometry s \<and> view s' = fold (spec_putch fontdata (geometry s)) cs (view s)
    \<and> (\<forall>a. a \<notin> fb_bytes s \<longrightarrow> xmem s' a = xmem s a)"
proof -
  have "refines (\<lambda>g. fold (spec_putch fontdata g) cs) s (fold (xenos_putch_impl fontdata) cs s)"
    using assms(1) by (rule xenos_console.text_refines)
  then show ?thesis by (simp add: text_running [OF assms] refines_def)
qed

definition vga_example :: xenos where
  "vga_example = \<lparr>xmem = \<lambda>_. 0, xenos_width = 640, xenos_height = 480, xenos_size = 307200, xenos_color = (0xD8444E00, 0xFF96A300), xenos_fb = 0x9e000000,
     cursor_x = 66, cursor_y = 22, max_x = 67, max_y = 23, offset_x = 50, offset_y = 50, bufpos = 0, buffer = replicate 2048 0\<rparr>"

theorem console_text_witness:
  "let s' = fold (xenos_putch (\<lambda>_. 0xFF)) [9, 65, 66] vga_example in
    console_ok s' \<and> cursor_x s' = 1 \<and> cursor_y s' = 21 \<and> pixels s' 50 386 = 0xFF96A300"
proof -
  have h: "console_ok vga_example" "xenos_fb vga_example \<noteq> 0"
    by (simp_all add: vga_example_def console_ok_def screen_ok_def)
  let ?s = "fold (xenos_putch (\<lambda>_. 0xFF)) [9, 65, 66] vga_example"
  have "view ?s = fold (spec_putch (\<lambda>_. 0xFF) (geometry vga_example)) [9, 65, 66] (view vga_example)" and ok: "console_ok ?s"
    using console_text [OF h, of "\<lambda>_. 0xFF" "[9, 65, 66]"] unfolding Let_def by blast+
  moreover have "geometry vga_example = vga (0xD8444E00, 0xFF96A300)" "sc_x (view vga_example) = 66" "sc_y (view vga_example) = 22"
    by (simp_all add: vga_example_def geometry_def vga_def)
  moreover have "sc_x t' = 1 \<and> sc_y t' = 21 \<and> sc_pixels t' 50 386 = 0xFF96A300"
    if "t' = fold (spec_putch (\<lambda>_. 0xFF) (vga (0xD8444E00, 0xFF96A300))) [9, 65, 66] t" "sc_x t = 66" "sc_y t = 22" for t t'
    using that by (simp add: spec_putch_def spec_newline_def vga_def spec_glyph_def font_pixel_def drop_bit_eq_div)
  ultimately have "sc_x (view ?s) = 1 \<and> sc_y (view ?s) = 21 \<and> sc_pixels (view ?s) 50 386 = 0xFF96A300" by metis
  with ok show ?thesis by (simp only: view_simps Let_def)
qed

text \<open>C30: \<^verbatim>\<open>xenos_init\<close> returns at the resolution of 640 by 480, and the screen then shows, from its upper left corner, the first 2047 characters printed
  before, a message if there were that many, the banner and the picture; the serial port gets the two messages, with a carriage return before
  each newline. Only the frame buffer has changed.\<close>

theorem console_start:
  assumes "uart_law U sent busy" "xenos_fb s = 0" "bufpos s = 0" "length (buffer s) = BUFFER"
  shows "\<exists>d' s'. xenos_init U fontdata version b 640 480 (d, fold (xenos_putch fontdata) cs s) = Some (d', s')
    \<and> (let fb = ucast b OR 0x8000000000000000;
          msgs = (if BUFFER - 1 \<le> length cs then overrun_message else []) @ banner fb
        in console_ok s' \<and> geometry s' = vga (xenos_color s)
          \<and> view s' = fold (spec_putch fontdata (geometry s')) (take (BUFFER - 1) cs @ msgs @ xenos_ascii version) (blank (geometry s'))
          \<and> sent d' = sent d @ concat (map crlf msgs)
          \<and> (\<forall>a. a \<notin> region fb 1228800 \<longrightarrow> xmem s' a = xmem s a))"
proof -
  obtain bf n where pre: "fold (xenos_putch fontdata) cs s = s\<lparr>buffer := bf, bufpos := n\<rparr>"
    "n = min (length cs) (BUFFER - 1)" "take n bf = take (BUFFER - 1) cs"
    using text_buffers [OF assms(2,4), of fontdata cs] assms(3) by auto
  let ?fb = "ucast b OR 0x8000000000000000 :: u64" and ?g = "vga (xenos_color s)"
  define t where "t = xenos_setup fontdata b 640 480 (s\<lparr>buffer := bf, bufpos := n\<rparr>)"
  note st = setup_view [where fontdata = fontdata and b = b and s = "s\<lparr>buffer := bf, bufpos := n\<rparr>", folded t_def, simplified]
  define over where "over = (if BUFFER - 1 \<le> length cs then overrun_message else [])"
  have fb: "xenos_fb t \<noteq> 0"
  proof
    assume "xenos_fb t = 0"
    then have "bit (?fb) 63 = bit (0 :: u64) 63" using st by simp
    then show False by (simp add: bit_simps)
  qed
  have over: "(if bufpos t = BUFFER - 1 then printf (bytes '' * Xenos FB BUFFER overrun!'' @ [10]) [] else Some []) = Some over"
    using printf_overrun st(5) pre(2) by (auto simp: over_def overrun_message_def)
  define s1 where "s1 = fold (xenos_putch_impl fontdata) over t"
  define s2 where "s2 = fold (xenos_putch_impl fontdata) (banner ?fb) s1"
  define s3 where "s3 = fold (xenos_putch_impl fontdata) (xenos_ascii version) s2"
  have r1: "refines (\<lambda>g. fold (spec_putch fontdata g) over) t s1"
    unfolding s1_def using st(1) by (rule xenos_console.text_refines)
  have ok1: "console_ok s1" "geometry s1 = ?g" "xenos_fb s1 = ?fb" "xenos_fb s1 \<noteq> 0" using r1 st(3,4) fb by (simp_all add: refines_def)
  have r2: "refines (\<lambda>g. fold (spec_putch fontdata g) (banner ?fb)) s1 s2"
    unfolding s2_def using ok1(1) by (rule xenos_console.text_refines)
  have ok2: "console_ok s2" using r2 by (simp add: refines_def)
  have r3: "refines (\<lambda>g. fold (spec_putch fontdata g) (xenos_ascii version)) s2 s3"
    unfolding s3_def using ok2 by (rule xenos_console.text_refines)
  obtain d1 where d1: "putstring U fontdata over (d, t) = Some (d1, s1)" "sent d1 = sent d @ concat (map crlf over)"
    using putstring_sends [OF assms(1)] text_running [OF st(1) fb] unfolding s1_def by metis
  obtain d2 where d2: "putstring U fontdata (banner ?fb) (d1, s1) = Some (d2, s2)" "sent d2 = sent d1 @ concat (map crlf (banner ?fb))"
    using putstring_sends [OF assms(1)] text_running [OF ok1(1,4)] unfolding s2_def by metis
  have "max_x s1 = 67" "max_y s1 = 23" using ok1(2) geometry_simps(3,4) [of s1] by (simp_all add: vga_def)
  then have "xenos_init U fontdata version b 640 480 (d, s\<lparr>buffer := bf, bufpos := n\<rparr>) = Some (d2, s3)"
    using printf_banner [of ?fb] over d1(1) d2(1) ok1(3)
    by (simp add: xenos_init_def t_def [symmetric] xenos_asciiart_def s3_def [symmetric])
  moreover have "view s3 = fold (spec_putch fontdata ?g) (take (BUFFER - 1) cs @ (over @ banner ?fb) @ xenos_ascii version) (blank ?g)"
    using r1 r2 r3 st(2,3) pre(3) by (simp add: refines_def)
  moreover have "console_ok s3" "geometry s3 = ?g" using r1 r2 r3 st(3) by (simp_all add: refines_def)
  moreover have "xmem s3 a = xmem s a" if "a \<notin> region ?fb 1228800" for a
    using r1 r2 r3 st(6,7) that by (simp add: refines_def)
  ultimately show ?thesis using d1(2) d2(2) pre(1)
    by (intro exI [of _ d2] exI [of _ s3]) (simp add: over_def Let_def)
qed

definition ready_uart :: "u8 list uart" where
  "ready_uart = \<lparr>uart_load = \<lambda>a d. (0x02000000, d), uart_store = \<lambda>a v d. d @ [ucast (drop_bit 24 v)]\<rparr>"

theorem console_start_witness:
  "\<exists>d' s'. xenos_init ready_uart (\<lambda>_. 0xFF) [49] 0x1e000000 640 480 ([], fold (xenos_putch (\<lambda>_. 0xFF)) [72, 105] (vga_example\<lparr>xenos_fb := 0\<rparr>)) = Some (d', s')
    \<and> console_ok s' \<and> d' = concat (map crlf (banner 0x800000001e000000))
    \<and> view s' = fold (spec_putch (\<lambda>_. 0xFF) (geometry s')) ([72, 105] @ banner 0x800000001e000000 @ xenos_ascii [49]) (blank (geometry s'))"
proof -
  have "ucast (drop_bit 24 (push_bit 24 (ucast c :: u32))) = c" for c :: u8 by (rule bit_eqI) (auto simp: bit_simps)
  then have "uart_law ready_uart id (\<lambda>_. 0)" by (simp add: uart_law_def ready_uart_def)
  from console_start [OF this, of "vga_example\<lparr>xenos_fb := 0\<rparr>" "\<lambda>_. 0xFF" "[49]" "0x1e000000" "[]" "[72, 105]"]
  show ?thesis by (auto simp: vga_example_def BUFFER_def Let_def)
qed

text \<open>
  Without a margin on the left, as for more than 576 lines, a tabulator may leave the cursor behind the last column. A character drawn there is in the first
  column, two rows below, and behind the frame buffer when it is on the last rows.
\<close>

lemma pixel_behind_line: "pixel_base (32 * w) (32 * w + x) y = pixel_base (32 * w) x (y + 32)"
proof -
  have x: "(32 * w + x) mod 4 = x mod 4" "(32 * w + x) div 4 = x div 4 + 4 * (2 * w)" "(32 * w + x) div 16 = x div 16 + 2 * w"
    "(32 * w + x) div 32 = x div 32 + w"
    using div_mult_self1 [of 4 x "8 * w"] div_mult_self1 [of 16 x "2 * w"] div_mult_self1 [of 32 x w] mod_mult_self1 [of x "8 * w" 4] by (simp_all add: ac_simps)
  have "(x div 4 + 4 * (2 * w)) mod 4 = x div 4 mod 4" by (rule mod_mult_self2)
  moreover have "(x div 16 + 2 * w + y div 8) mod 2 = (x div 16 + y div 8) mod 2"
    using mod_mult_self2 [of "x div 16 + y div 8" 2 w] by (simp only: ac_simps)
  ultimately have "tile_index (32 * w + x) y = tile_index x y" by (simp only: tile_index_def x)
  moreover have "1024 * (a + (q + w)) + t = 1024 * (a + q) + t + 1024 * w" for a q t by (simp add: algebra_simps)
  ultimately show ?thesis unfolding pixel_base_down unfolding pixel_base_tile x by (simp only:)
qed

end
