(* ===== verification/Xell_Enet.thy ===== *)
theory Xell_Enet
  imports Xell_Words "HOL-Library.Monad_Syntax"
begin
unbundle bit_operations_syntax

text \<open>
  The driver of the network chip, \<^verbatim>\<open>src/lwip/arch/xenon/netif/enet.c\<close>: rings of descriptors and buffers in memory, shared with the chip. The chip is
  a parameter: what loads from and stores to its registers do, and \<open>dma\<close>, what it does to memory and its own state before the driver looks at a descriptor again. The buffers of lwIP are
  chains of an address and a length, and \<^verbatim>\<open>pbuf_alloc\<close> is a parameter. Statistics, the messages and the cache are left out.
\<close>

section \<open>The context and the registers\<close>

definition TX_DESCRIPTOR_NUM :: nat where "TX_DESCRIPTOR_NUM = 0x10"
definition RX_DESCRIPTOR_NUM :: nat where "RX_DESCRIPTOR_NUM = 0x10"
definition MTU :: nat where "MTU = 1528"

definition MEM :: "u64 \<Rightarrow> addr" where
  "MEM x = 0x8000000000000000 OR x"

record enet_context =
  rx_descriptor_base :: addr
  rx_receive_base :: addr
  rx_descriptor_rptr :: nat
  tx_descriptor_base :: addr
  tx_descriptor_wptr :: nat
  tx_buffer_base :: addr

record 'd enet =
  ctx :: enet_context
  nmem :: mem
  chip :: 'd

record 'd nic =
  reg_load :: "addr \<Rightarrow> 'd \<Rightarrow> u32 \<times> 'd"
  reg_store :: "addr \<Rightarrow> u32 \<Rightarrow> 'd \<Rightarrow> 'd"
  dma :: "'d \<Rightarrow> mem \<Rightarrow> 'd \<times> mem"

definition swap32 :: "u32 \<Rightarrow> u32" where
  "swap32 v = push_bit 24 (v AND 0xFF) OR push_bit 8 (v AND 0xFF00) OR drop_bit 8 (v AND 0xFF0000) OR drop_bit 24 (v AND 0xFF000000)"

definition enet_write32 :: "'d nic \<Rightarrow> u32 \<Rightarrow> u32 \<Rightarrow> 'd enet \<Rightarrow> 'd enet" where
  "enet_write32 E a v s = s\<lparr>chip := reg_store E (0x8000020000000000 OR ucast a) v (chip s)\<rparr>"

definition enet_read32 :: "'d nic \<Rightarrow> u32 \<Rightarrow> 'd enet \<Rightarrow> u32 \<times> 'd enet" where
  "enet_read32 E a s = (case reg_load E (0x8000020000000000 OR ucast a) (chip s) of (v, d) \<Rightarrow> (v, s\<lparr>chip := d\<rparr>))"

partial_function (option) phy_wait :: "'d nic \<Rightarrow> 'd enet \<Rightarrow> 'd enet option" where
  "phy_wait E s = (case enet_read32 E 0xea001444 s of (v, s) \<Rightarrow> if swap32 v AND 0x10 \<noteq> 0 then phy_wait E s else Some s)"

definition phy_read :: "'d nic \<Rightarrow> u32 \<Rightarrow> 'd enet \<Rightarrow> (u16 \<times> 'd enet) option" where
  "phy_read E a s = do {
     s \<leftarrow> phy_wait E (enet_write32 E 0xea001444 (swap32 (push_bit 11 a OR 0x50)) s);
     let (v, s) = enet_read32 E 0xea001444 s;
     Some (ucast (drop_bit 16 (swap32 v)), s)
   }"

definition phy_write :: "'d nic \<Rightarrow> u32 \<Rightarrow> u16 \<Rightarrow> 'd enet \<Rightarrow> 'd enet option" where
  "phy_write E a v s = phy_wait E (enet_write32 E 0xea001444 (swap32 (push_bit 11 a OR 0x70 OR push_bit 16 (ucast v))) s)"

definition gpio_control :: "'d nic \<Rightarrow> nat \<Rightarrow> u32 \<Rightarrow> u32 \<Rightarrow> 'd enet \<Rightarrow> 'd enet" where
  "gpio_control E reg clear sets s =
     (let r = [0x20, 0x24, 0x28, 0x30, 0x34, 0x38, 0x40, 0x44, 0x48];
          (b, s) = enet_read32 E (0xea001000 OR r ! reg) s
      in enet_write32 E (0xea001000 OR r ! reg) (swap32 ((swap32 b AND NOT clear) OR sets)) s)"

section \<open>Sending\<close>

definition descr :: "addr \<Rightarrow> nat \<Rightarrow> nat \<Rightarrow> addr" where
  "descr base i k = base + of_nat (4 * (i * 4 + k))"

definition virt_to_phys :: "addr \<Rightarrow> u32" where
  "virt_to_phys a = ucast (a AND 0xFFFFFFFF)"

partial_function (option) wait_empty_tx :: "'d nic \<Rightarrow> 'd enet \<Rightarrow> 'd enet option" where
  "wait_empty_tx E s =
     (case dma E (chip s) (nmem s) of (d, m) \<Rightarrow>
        let s = s\<lparr>chip := d, nmem := m\<rparr>
        in if swap32 (load_be32 m (descr (tx_descriptor_base (ctx s)) (tx_descriptor_wptr (ctx s)) 1)) AND 0x80000000 \<noteq> 0
           then wait_empty_tx E s else Some s)"

definition tx_data :: "'d nic \<Rightarrow> addr \<Rightarrow> u32 \<Rightarrow> 'd enet \<Rightarrow> 'd enet option" where
  "tx_data E data len s = do {
     s \<leftarrow> wait_empty_tx E s;
     let descnr = tx_descriptor_wptr (ctx s);
     let d = descr (tx_descriptor_base (ctx s)) descnr;
     let m = nmem s;
     let m = store_be32 (d 0) (swap32 len) m;
     let m = store_be32 (d 2) (swap32 (virt_to_phys data)) m;
     let m = store_be32 (d 3) (swap32 (len OR (if descnr = TX_DESCRIPTOR_NUM - 1 then 0x80000000 else 0))) m;
     let m = store_be32 (d 1) (swap32 0xc0230000) m;
     let s = s\<lparr>nmem := m\<rparr>;
     let (v, s) = enet_read32 E 0xea001400 s;
     let s = enet_write32 E 0xea001400 (v OR swap32 0x10) s;
     let s = s\<lparr>ctx := (ctx s)\<lparr>tx_descriptor_wptr := (descnr + 1) mod TX_DESCRIPTOR_NUM\<rparr>\<rparr>;
     Some (enet_write32 E 0xea001410 (swap32 0x00101c11) s)
   }"

section \<open>Initialisation\<close>

fun tx_init_loop :: "nat \<Rightarrow> addr \<Rightarrow> nat \<Rightarrow> mem \<Rightarrow> mem" where
  "tx_init_loop 0 base i m = m"
| "tx_init_loop (Suc n) base i m =
     (let m = store_be32 (descr base i 0) 0 m;
          m = store_be32 (descr base i 1) 0 m;
          m = store_be32 (descr base i 2) 0 m;
          m = (if i \<noteq> TX_DESCRIPTOR_NUM - 1 then store_be32 (descr base i 3) 0 m else store_be32 (descr base i 3) (swap32 0x80000000) m)
      in tx_init_loop n base (i + 1) m)"

definition tx_init :: "'d nic \<Rightarrow> addr \<Rightarrow> 'd enet \<Rightarrow> 'd enet" where
  "tx_init E base s =
     (let s = s\<lparr>ctx := (ctx s)\<lparr>tx_descriptor_base := base, tx_descriptor_wptr := 0\<rparr>\<rparr>;
          s = s\<lparr>nmem := tx_init_loop TX_DESCRIPTOR_NUM base 0 (nmem s)\<rparr>;
          s = s\<lparr>ctx := (ctx s)\<lparr>tx_buffer_base := base + of_nat (TX_DESCRIPTOR_NUM * 0x10)\<rparr>\<rparr>;
          s = enet_write32 E 0xea001400 (swap32 0x00001c00) s;
          s = enet_write32 E 0xea001404 (swap32 (virt_to_phys base)) s;
          s = enet_write32 E 0xea001400 (swap32 0x00011c00) s;
          s = enet_write32 E 0xea001404 (swap32 (virt_to_phys base)) s
      in enet_write32 E 0xea001400 (swap32 0x00001c00) s)"

fun rx_init_loop :: "nat \<Rightarrow> addr \<Rightarrow> addr \<Rightarrow> nat \<Rightarrow> mem \<Rightarrow> mem" where
  "rx_init_loop 0 base rcv i m = m"
| "rx_init_loop (Suc n) base rcv i m =
     (let m = store_be32 (descr base i 0) (swap32 0) m;
          m = store_be32 (descr base i 1) (swap32 0xc0000000) m;
          m = store_be32 (descr base i 2) (swap32 (virt_to_phys (rcv + of_nat (i * MTU)))) m;
          m = store_be32 (descr base i 3) (swap32 (of_nat MTU OR (if i = RX_DESCRIPTOR_NUM - 1 then 0x80000000 else 0))) m
      in rx_init_loop n base rcv (i + 1) m)"

definition rx_init :: "'d nic \<Rightarrow> addr \<Rightarrow> 'd enet \<Rightarrow> 'd enet" where
  "rx_init E base s =
     (let rcv = base + of_nat (RX_DESCRIPTOR_NUM * 0x10);
          s = s\<lparr>ctx := (ctx s)\<lparr>rx_descriptor_base := base, rx_receive_base := rcv, rx_descriptor_rptr := 0\<rparr>\<rparr>;
          s = s\<lparr>nmem := rx_init_loop RX_DESCRIPTOR_NUM base rcv 0 (nmem s)\<rparr>;
          s = enet_write32 E 0xea001414 (swap32 (virt_to_phys base)) s;
          s = enet_write32 E 0xea001440 0x1100004 s
      in enet_write32 E 0xea001450 0 s)"

text \<open>The six bytes of the address; the registers that are only read for a message are read.\<close>

definition enet_open :: "'d nic \<Rightarrow> u8 list \<Rightarrow> 'd enet \<Rightarrow> 'd enet" where
  "enet_open E hwaddr s =
     (let hi = push_bit 8 (ucast (hwaddr ! 0)) OR ucast (hwaddr ! 1) :: u32;
          lo = push_bit 24 (ucast (hwaddr ! 2)) OR push_bit 16 (ucast (hwaddr ! 3)) OR push_bit 8 (ucast (hwaddr ! 4)) OR ucast (hwaddr ! 5) :: u32;
          s = enet_write32 E 0xea001424 0 s;
          s = enet_write32 E 0xea001428 0x01805508 s;
          s = snd (enet_read32 E 0xea001428 s);
          s = enet_write32 E 0xea001428 0x01005508 s;
          s = enet_write32 E 0xea001444 (swap32 4) s;
          s = enet_write32 E 0xea001444 (swap32 0) s;
          s = snd (enet_read32 E 0xea001478 s);
          s = enet_write32 E 0xea001478 0xf2050000 s;
          s = snd (enet_read32 E 0xea001478 s);
          s = enet_write32 E 0xea001450 0x60230000 s;
          s = enet_write32 E 0xea001478 (0xF2050000 OR hi) s;
          s = enet_write32 E 0xea00147c lo s;
          s = enet_write32 E 0xea001460 (0x380e0000 OR hi) s;
          s = enet_write32 E 0xea001464 lo s;
          s = enet_write32 E 0xea001468 0 s;
          s = enet_write32 E 0xea00146c 0 s;
          s = enet_write32 E 0xea001400 0x001c0000 s;
          s = enet_write32 E 0xea001410 (swap32 0x00101c00) s;
          s = enet_write32 E 0xea001440 0x01190004 s;
          s = tx_init E (MEM 0x2000000) s;
          s = rx_init E (MEM (0x2000000 + 0x8000)) s;
          s = enet_write32 E 0xea001428 0x01005508 s;
          s = enet_write32 E 0xea001410 (swap32 0x00101c11) s
      in enet_write32 E 0xea001400 (swap32 0x00001c01) s)"

definition enet_quiesce :: "'d nic \<Rightarrow> 'd enet \<Rightarrow> 'd enet" where
  "enet_quiesce E s = enet_write32 E 0xea001410 0 (enet_write32 E 0xea001400 0 s)"

section \<open>Frames in and out\<close>

type_synonym pbuf = "(addr \<times> u16) list"

fun fill_chain :: "pbuf \<Rightarrow> addr \<Rightarrow> mem \<Rightarrow> mem" where
  "fill_chain [] src m = m"
| "fill_chain ((payload, len) # q) src m = fill_chain q (src + ucast len) (memcpy payload src (ucast len) m)"

definition enet_linkinput :: "(u32 \<Rightarrow> pbuf option) \<Rightarrow> 'd enet \<Rightarrow> pbuf option \<times> 'd enet" where
  "enet_linkinput pbuf_alloc s =
     (let c = ctx s; rptr = rx_descriptor_rptr c;
          d = descr (rx_descriptor_base c) rptr
      in if swap32 (load_be32 (nmem s) (d 1)) AND 0x80000000 \<noteq> 0 then (None, s)
         else let len = swap32 (load_be32 (nmem s) (d 0)) AND 0xFFFF;
                  phys_addr = rx_receive_base c + of_nat (rptr * MTU);
                  p = pbuf_alloc len;
                  m = (case p of None \<Rightarrow> nmem s | Some q \<Rightarrow> fill_chain q phys_addr (nmem s));
                  m = store_be32 (d 2) (swap32 (virt_to_phys phys_addr)) m;
                  m = store_be32 (d 3) (swap32 (of_nat MTU OR (if rptr = RX_DESCRIPTOR_NUM - 1 then 0x80000000 else 0))) m;
                  m = store_be32 (d 0) (swap32 0) m;
                  m = store_be32 (d 1) (swap32 0xc0000000) m
              in (p, s\<lparr>nmem := m, ctx := c\<lparr>rx_descriptor_rptr := (rptr + 1) mod RX_DESCRIPTOR_NUM\<rparr>\<rparr>))"

fun gather_chain :: "pbuf \<Rightarrow> addr \<Rightarrow> mem \<Rightarrow> mem" where
  "gather_chain [] dst m = m"
| "gather_chain ((payload, len) # q) dst m = gather_chain q (dst + ucast len) (memcpy dst payload (ucast len) m)"

text \<open>The chain with its \<^verbatim>\<open>tot_len\<close>.\<close>

definition enet_linkoutput :: "'d nic \<Rightarrow> pbuf \<Rightarrow> u16 \<Rightarrow> 'd enet \<Rightarrow> 'd enet option" where
  "enet_linkoutput E p tot_len s =
     (let dstptr = tx_buffer_base (ctx s) + of_nat (tx_descriptor_wptr (ctx s) * MTU)
      in tx_data E dstptr (ucast tot_len) (s\<lparr>nmem := gather_chain p dstptr (nmem s)\<rparr>))"

text \<open>Which function of lwIP gets a frame: \<^verbatim>\<open>etharp_ip_input\<close> and then \<^verbatim>\<open>netif->input\<close> behind the header of 14 bytes, \<^verbatim>\<open>etharp_arp_input\<close>, or \<^verbatim>\<open>pbuf_free\<close>.\<close>

datatype eth_call = Ip_input pbuf int | Arp_input pbuf | Pbuf_free pbuf

definition ETHTYPE_ARP :: u16 where "ETHTYPE_ARP = 0x0806"
definition ETHTYPE_IP :: u16 where "ETHTYPE_IP = 0x0800"

definition eth_type :: "addr \<Rightarrow> mem \<Rightarrow> u16" where
  "eth_type ethhdr m = push_bit 8 (ucast (m (ethhdr + 12))) OR ucast (m (ethhdr + 13))"

definition enet_input :: "(u32 \<Rightarrow> pbuf option) \<Rightarrow> 'd enet \<Rightarrow> eth_call option \<times> 'd enet" where
  "enet_input pbuf_alloc s =
     (case enet_linkinput pbuf_alloc s of
        (None, s) \<Rightarrow> (None, s)
      | (Some p, s) \<Rightarrow>
          let ty = eth_type (fst (hd p)) (nmem s)
          in (Some (if ty = ETHTYPE_IP then Ip_input p (-14) else if ty = ETHTYPE_ARP then Arp_input p else Pbuf_free p), s))"

definition enet_poll :: "(u32 \<Rightarrow> pbuf option) \<Rightarrow> 'd enet \<Rightarrow> eth_call option \<times> 'd enet" where
  "enet_poll pbuf_alloc s = enet_input pbuf_alloc s"

section \<open>Rings of descriptors and buffers\<close>

text \<open>Both areas have the descriptors first and then a buffer for each.\<close>

definition dword :: "addr \<Rightarrow> mem \<Rightarrow> nat \<Rightarrow> nat \<Rightarrow> u32" where
  "dword B m i k = swap32 (load_be32 m (descr B i k))"

definition owned :: "addr \<Rightarrow> mem \<Rightarrow> nat \<Rightarrow> bool" where
  "owned B m i \<longleftrightarrow> dword B m i 1 AND 0x80000000 \<noteq> 0"

definition buf :: "addr \<Rightarrow> nat \<Rightarrow> addr" where
  "buf B i = B + of_nat (0x100 + 1528 * i)"

definition slot_bytes :: "addr \<Rightarrow> nat \<Rightarrow> addr set" where
  "slot_bytes B i = region (B + of_nat (16 * i)) 16 \<union> region (buf B i) 1528"

definition area :: "addr \<Rightarrow> addr set" where
  "area B = region B 0x6080"

definition desc_ok :: "addr \<Rightarrow> mem \<Rightarrow> nat \<Rightarrow> bool" where
  "desc_ok B m i \<longleftrightarrow> dword B m i 2 = virt_to_phys (buf B i) \<and> (dword B m i 3 AND 0x80000000 \<noteq> 0 \<longleftrightarrow> i = 15)"

definition holds :: "addr \<Rightarrow> mem \<Rightarrow> nat \<Rightarrow> u8 list \<Rightarrow> bool" where
  "holds B m i f \<longleftrightarrow> length f \<le> 1528 \<and> dword B m i 0 AND 0xFFFF = of_nat (length f) \<and> load_list m (buf B i) (length f) = f \<and> desc_ok B m i"

definition ring :: "addr \<Rightarrow> mem \<Rightarrow> bool \<Rightarrow> nat \<Rightarrow> u8 list list \<Rightarrow> bool" where
  "ring B m b p fs \<longleftrightarrow> p < 16 \<and> length fs \<le> 16 \<and> (\<forall>j < length fs. holds B m ((p + j) mod 16) (fs ! j))
     \<and> (\<forall>j < 16. owned B m ((p + j) mod 16) = (if j < length fs then b else \<not> b))"

lemma swap32_swap32 [simp]: "swap32 (swap32 v) = v"
proof -
  have "swap32 = bswap_32" by (simp add: fun_eq_iff swap32_def bswap_32_def)
  then show ?thesis by simp
qed

lemma dword_cong:
  assumes "i < 16" "k < 4" "\<And>a. a \<in> region (B + of_nat (16 * i)) 16 \<Longrightarrow> m' a = m a"
  shows "dword B m' i k = dword B m i k"
proof -
  have "load_be32 m' (descr B i k) = load_be32 m (descr B i k)"
  proof (rule load_be32_bytes, rule assms(3))
    fix l :: nat assume "l < 4"
    have "B + of_nat (16 * i) + of_nat (4 * k + l) \<in> region (B + of_nat (16 * i)) 16" using assms(2) \<open>l < 4\<close> by (intro region_memI) simp
    then show "descr B i k + of_nat l \<in> region (B + of_nat (16 * i)) 16" by (simp add: descr_def algebra_simps)
  qed
  then show ?thesis by (simp add: dword_def)
qed

lemma slot_cong:
  assumes "i < 16" "\<And>a. a \<in> slot_bytes B i \<Longrightarrow> m' a = m a"
  shows "owned B m' i = owned B m i" "desc_ok B m' i = desc_ok B m i" "holds B m' i f = holds B m i f"
proof -
  have d: "dword B m' i k = dword B m i k" if "k < 4" for k
    using assms that by (intro dword_cong) (auto simp: slot_bytes_def)
  then show o: "owned B m' i = owned B m i" "desc_ok B m' i = desc_ok B m i" by (simp_all add: owned_def desc_ok_def)
  have "load_list m' (buf B i) (length f) = load_list m (buf B i) (length f)" if "length f \<le> 1528"
    using that region_mono [of "length f" 1528 "buf B i"] assms(2) by (intro load_list_cong) (auto simp: slot_bytes_def)
  then show "holds B m' i f = holds B m i f" using d [of 0] o by (auto simp: holds_def)
qed

lemma mod_16: "x < 32 \<Longrightarrow> x mod 16 = (if x < 16 then x else x - 16 :: nat)"
  by (simp add: mod_if)

lemma ring_positions:
  assumes "p < 16" "j < 16" "k < 16"
  shows "(p + j) mod 16 = (p + k) mod 16 \<longleftrightarrow> j = (k :: nat)"
  using assms by (auto simp: mod_16)

lemma ring_shift: "((p + 1) mod 16 + j) mod 16 = (p + Suc j) mod (16 :: nat)"
  using mod_add_left_eq [of "p + 1" 16 j] by simp

lemma ring_push:
  assumes "ring B m b p fs" "length fs < 16" "i = (p + length fs) mod 16" "holds B m' i f" "owned B m' i = b"
    and "\<And>i'. i' < 16 \<Longrightarrow> i' \<noteq> i \<Longrightarrow> owned B m' i' = owned B m i'" and "\<And>i' f. i' < 16 \<Longrightarrow> i' \<noteq> i \<Longrightarrow> holds B m i' f \<Longrightarrow> holds B m' i' f"
  shows "ring B m' b p (fs @ [f])"
proof -
  have p: "p < 16" using assms(1) by (simp add: ring_def)
  have ne: "(p + j) mod 16 \<noteq> i" if "j < 16" "j \<noteq> length fs" for j
    using ring_positions [OF p that(1) assms(2)] that(2) assms(3) by simp
  have "holds B m' ((p + j) mod 16) ((fs @ [f]) ! j)" if "j < length fs + 1" for j
  proof (cases "j = length fs")
    case True
    then show ?thesis using assms(3,4) by simp
  next
    case False
    then have "j < length fs" using that by simp
    then show ?thesis using assms(1,2) ne [of j] assms(7) [of "(p + j) mod 16" "fs ! j"] by (auto simp: ring_def nth_append)
  qed
  moreover have "owned B m' ((p + j) mod 16) = (if j < length fs + 1 then b else \<not> b)" if "j < 16" for j
  proof (cases "j = length fs")
    case True
    then show ?thesis using assms(3,5) by simp
  next
    case False
    then show ?thesis using assms(1) ne [OF that] assms(6) [of "(p + j) mod 16"] that by (auto simp: ring_def)
  qed
  ultimately show ?thesis using p assms(2) by (simp add: ring_def)
qed

lemma ring_pop:
  assumes "ring B m b p (f # fs)" "owned B m' p = (\<not> b)"
    and "\<And>i'. i' < 16 \<Longrightarrow> i' \<noteq> p \<Longrightarrow> owned B m' i' = owned B m i'" and "\<And>i' f. i' < 16 \<Longrightarrow> i' \<noteq> p \<Longrightarrow> holds B m i' f \<Longrightarrow> holds B m' i' f"
  shows "ring B m' b ((p + 1) mod 16) fs"
proof -
  have p: "p < 16" "length fs < 16" using assms(1) by (simp_all add: ring_def)
  have ne: "(p + Suc j) mod 16 \<noteq> p" if "j < 15" for j
    using ring_positions [OF p(1), of "Suc j" 0] that p by simp
  have "holds B m' ((p + Suc j) mod 16) (fs ! j)" if "j < length fs" for j
  proof -
    have "holds B m ((p + Suc j) mod 16) ((f # fs) ! Suc j)" using assms(1) that by (auto simp: ring_def simp del: nth_Cons_Suc)
    then show ?thesis using assms(4) ne [of j] that p by simp
  qed
  moreover have "owned B m' ((p + Suc j) mod 16) = (if j < length fs then b else \<not> b)" if "j < 16" for j
  proof (cases "j = 15")
    case True
    then show ?thesis using assms(2) p by simp
  next
    case False
    then have j: "j < 15" "Suc j < 16" using that by auto
    have "owned B m ((p + Suc j) mod 16) = (if Suc j < length (f # fs) then b else \<not> b)" using assms(1) j(2) by (simp only: ring_def)
    then show ?thesis using assms(3) [of "(p + Suc j) mod 16"] ne [OF j(1)] by simp
  qed
  ultimately show ?thesis using p unfolding ring_def ring_shift by simp
qed

lemma ring_cong:
  assumes "\<And>a. a \<in> area B \<Longrightarrow> m' a = m a"
  shows "ring B m' b p fs = ring B m b p fs" and "i < 16 \<Longrightarrow> desc_ok B m' i = desc_ok B m i" and "i < 16 \<Longrightarrow> k < 4 \<Longrightarrow> dword B m' i k = dword B m i k"
proof -
  have sub: "slot_bytes B i \<subseteq> area B" if "i < 16" for i
    using that region_sub [of "16 * i" 16 "0x6080" B] region_sub [of "0x100 + 1528 * i" 1528 "0x6080" B]
    by (simp add: slot_bytes_def area_def buf_def)
  have c: "m' a = m a" if "a \<in> slot_bytes B i" "i < 16" for a i using sub that assms by blast
  then show "i < 16 \<Longrightarrow> desc_ok B m' i = desc_ok B m i" by (intro slot_cong(2)) auto
  show "i < 16 \<Longrightarrow> k < 4 \<Longrightarrow> dword B m' i k = dword B m i k" using c by (intro dword_cong) (auto simp: slot_bytes_def)
  show "ring B m' b p fs = ring B m b p fs" using slot_cong(1,3) [OF _ c] by (simp add: ring_def)
qed

lemma offset_disjoint:
  assumes "n + k \<le> n' \<or> n' + k' \<le> n" "n + k \<le> 2 ^ 64" "n' + k' \<le> 2 ^ 64"
  shows "region (B + of_nat n) k \<inter> region (B + of_nat n') k' = {}"
proof (rule ccontr)
  assume "\<not> ?thesis"
  then obtain a where a: "a \<in> region (B + of_nat n) k" "a \<in> region (B + of_nat n') k'" by blast
  then obtain j where "a = B + of_nat (n + j)" "j < k" by (auto simp: region_def add.assoc)
  with a(2) assms offset_region_iff [of n' k' "n + j" B] show False by auto
qed

lemma slots_disjoint:
  assumes "i < 16" "i' < 16" "i \<noteq> i'"
  shows "slot_bytes B i \<inter> slot_bytes B i' = {}"
proof -
  have "region (B + of_nat (16 * i)) 16 \<inter> region (B + of_nat (16 * i')) 16 = {}" "region (buf B i) 1528 \<inter> region (buf B i') 1528 = {}"
    "region (B + of_nat (16 * i)) 16 \<inter> region (buf B i') 1528 = {}" "region (buf B i) 1528 \<inter> region (B + of_nat (16 * i')) 16 = {}"
    using assms unfolding buf_def by (intro offset_disjoint; auto)+
  then show ?thesis by (auto simp: slot_bytes_def)
qed

lemma buffer_descr_disjoint: "i < 16 \<Longrightarrow> i' < 16 \<Longrightarrow> region (buf B i) 1528 \<inter> region (B + of_nat (16 * i')) 16 = {}"
  unfolding buf_def by (intro offset_disjoint) auto

lemma slot_area: "i < 16 \<Longrightarrow> slot_bytes B i \<subseteq> area B"
  using region_sub [of "16 * i" 16 "0x6080" B] region_sub [of "0x100 + 1528 * i" 1528 "0x6080" B]
  by (simp add: slot_bytes_def area_def buf_def)

lemma descr_region: "k < 4 \<Longrightarrow> region (descr B i k) 4 \<subseteq> region (B + of_nat (16 * i)) 16"
  using region_sub [of "4 * k" 4 16 "B + of_nat (16 * i)"] by (simp add: descr_def algebra_simps)

definition TX_AREA :: addr where "TX_AREA = 0x8000000002000000"
definition RX_AREA :: addr where "RX_AREA = 0x8000000002008000"

lemma areas_disjoint: "area TX_AREA \<inter> area RX_AREA = {}"
  using offset_disjoint [of 0 "0x6080" "0x8000" "0x6080" TX_AREA] by (simp add: area_def TX_AREA_def RX_AREA_def)

lemma MEM_phys:
  assumes "i < 16" "B = TX_AREA \<or> B = RX_AREA"
  shows "MEM (ucast (virt_to_phys (buf B i))) = buf B i"
proof -
  have "\<forall>i \<in> set [0..<16]. MEM (ucast (virt_to_phys (buf TX_AREA i))) = buf TX_AREA i \<and> MEM (ucast (virt_to_phys (buf RX_AREA i))) = buf RX_AREA i"
    by (simp add: MEM_def virt_to_phys_def buf_def TX_AREA_def RX_AREA_def upt_rec)
  then show ?thesis using assms by auto
qed

section \<open>What the chip does\<close>

text \<open>
  The driver relies on this: the chip goes round each ring, following the flag in the last descriptor. It receives a frame into the buffer of a descriptor that it owns, stores the
  length and gives the descriptor away; it sends the frame of a descriptor that it owns and gives the descriptor away. It changes nothing else in memory. Storing an address
  in one of two registers sets up a ring.
\<close>

record chip_view =
  tx_ring :: addr
  rx_ring :: addr
  tx_pos :: nat
  rx_pos :: nat
  received :: "u8 list list"
  sent :: "u8 list list"

definition next_pos :: "addr \<Rightarrow> mem \<Rightarrow> nat \<Rightarrow> nat" where
  "next_pos B m p = (if dword B m p 3 AND 0x80000000 \<noteq> 0 then 0 else p + 1)"

definition chip_receives :: "u8 list \<Rightarrow> chip_view \<times> mem \<Rightarrow> chip_view \<times> mem \<Rightarrow> bool" where
  "chip_receives f x x' \<longleftrightarrow>
     (let (v, m) = x; (v', m') = x'; B = rx_ring v; p = rx_pos v; a = MEM (ucast (dword B m p 2))
      in owned B m p \<and> length f \<le> unat (dword B m p 3 AND 0xFFFF)
         \<and> load_list m' a (length f) = f \<and> dword B m' p 0 AND 0xFFFF = of_nat (length f) \<and> \<not> owned B m' p
         \<and> (\<forall>b. b \<notin> region a (length f) \<union> region (descr B p 0) 8 \<longrightarrow> m' b = m b)
         \<and> v' = v\<lparr>rx_pos := next_pos B m p, received := received v @ [f]\<rparr>)"

definition chip_transmits :: "chip_view \<times> mem \<Rightarrow> chip_view \<times> mem \<Rightarrow> bool" where
  "chip_transmits x x' \<longleftrightarrow>
     (let (v, m) = x; (v', m') = x'; B = tx_ring v; p = tx_pos v; a = MEM (ucast (dword B m p 2))
      in owned B m p \<and> \<not> owned B m' p \<and> (\<forall>b. b \<notin> region (descr B p 0) 8 \<longrightarrow> m' b = m b)
         \<and> v' = v\<lparr>tx_pos := next_pos B m p, sent := sent v @ [load_list m a (unat (dword B m p 0 AND 0xFFFF))]\<rparr>)"

inductive chip_runs :: "chip_view \<times> mem \<Rightarrow> chip_view \<times> mem \<Rightarrow> bool" where
  chip_idle: "chip_runs x x"
| chip_receive: "chip_runs x y \<Longrightarrow> chip_receives f y z \<Longrightarrow> chip_runs x z"
| chip_transmit: "chip_runs x y \<Longrightarrow> chip_transmits y z \<Longrightarrow> chip_runs x z"

definition nic_law :: "'d nic \<Rightarrow> ('d \<Rightarrow> chip_view) \<Rightarrow> bool" where
  "nic_law E view \<longleftrightarrow>
     (\<forall>a d. view (snd (reg_load E a d)) = view d)
     \<and> (\<forall>a v d. view (reg_store E a v d) =
          (if a = 0x80000200ea001404 then (view d)\<lparr>tx_ring := MEM (ucast (swap32 v)), tx_pos := 0\<rparr>
           else if a = 0x80000200ea001414 then (view d)\<lparr>rx_ring := MEM (ucast (swap32 v)), rx_pos := 0\<rparr> else view d))
     \<and> (\<forall>d m. case dma E d m of (d', m') \<Rightarrow> chip_runs (view d, m) (view d', m'))"

section \<open>The invariant\<close>

definition enet_inv :: "enet_context \<Rightarrow> chip_view \<Rightarrow> mem \<Rightarrow> u8 list list \<Rightarrow> u8 list list \<Rightarrow> bool" where
  "enet_inv c v m pend q \<longleftrightarrow>
     rx_descriptor_base c = RX_AREA \<and> rx_receive_base c = RX_AREA + 0x100 \<and> tx_descriptor_base c = TX_AREA \<and> tx_buffer_base c = TX_AREA + 0x100
     \<and> rx_ring v = RX_AREA \<and> tx_ring v = TX_AREA
     \<and> rx_pos v = (rx_descriptor_rptr c + length pend) mod 16 \<and> tx_descriptor_wptr c = (tx_pos v + length q) mod 16
     \<and> ring RX_AREA m False (rx_descriptor_rptr c) pend \<and> (\<forall>i < 16. desc_ok RX_AREA m i \<and> dword RX_AREA m i 3 AND 0xFFFF = 1528)
     \<and> ring TX_AREA m True (tx_pos v) q"

lemma enet_inv_cong:
  assumes "enet_inv c v m pend q" "\<And>a. a \<in> area RX_AREA \<union> area TX_AREA \<Longrightarrow> m' a = m a"
  shows "enet_inv c v m' pend q"
  using assms(1) ring_cong [of RX_AREA m' m, OF assms(2)] ring_cong(1) [of TX_AREA m' m, OF assms(2)] by (simp add: enet_inv_def)

lemma dword_same: "(\<And>a. a \<in> region (descr B i k) 4 \<Longrightarrow> m' a = m a) \<Longrightarrow> dword B m' i k = dword B m i k"
  unfolding dword_def by (intro arg_cong [of _ _ swap32] load_be32_bytes) (auto intro: region_memI)

lemma descr_tail:
  assumes "k = 2 \<or> k = 3"
  shows "region (descr B i k) 4 \<inter> region (descr B i 0) 8 = {}"
proof -
  have "region (descr B i 0 + of_nat (4 * k)) 4 \<inter> region (descr B i 0 + of_nat 0) 8 = {}"
    using assms by (intro offset_disjoint) auto
  then show ?thesis by (simp add: descr_def algebra_simps)
qed

lemma descr_head: "region (descr B i 0) 8 \<subseteq> region (B + of_nat (16 * i)) 16"
  using region_mono [of 8 16 "B + of_nat (16 * i)"] by (simp add: descr_def algebra_simps)

lemma desc_next: "desc_ok B m p \<Longrightarrow> p < 16 \<Longrightarrow> next_pos B m p = (p + 1) mod 16"
  by (auto simp: desc_ok_def next_pos_def)

text \<open>A change within one slot that keeps the address and the flags of its descriptor.\<close>

lemma slot_change:
  assumes "i < 16" "i' < 16" "i' \<noteq> i" "\<And>a. a \<notin> slot_bytes B i \<Longrightarrow> m' a = m a"
  shows "owned B m' i' = owned B m i'" "desc_ok B m' i' = desc_ok B m i'" "holds B m' i' f = holds B m i' f" "k < 4 \<Longrightarrow> dword B m' i' k = dword B m i' k"
proof -
  have c: "m' a = m a" if "a \<in> slot_bytes B i'" for a using slots_disjoint [of i i' B] assms that by blast
  from slot_cong [OF assms(2) c] show "owned B m' i' = owned B m i'" "desc_ok B m' i' = desc_ok B m i'" "holds B m' i' f = holds B m i' f" by auto
  show "k < 4 \<Longrightarrow> dword B m' i' k = dword B m i' k" using c by (intro dword_cong [OF assms(2)]) (auto simp: slot_bytes_def)
qed

lemma ring_owned: "ring B m b p fs \<Longrightarrow> j < 16 \<Longrightarrow> owned B m ((p + j) mod 16) = (if j < length fs then b else \<not> b)"
  unfolding ring_def by blast

lemma ring_first: "ring B m b p fs \<Longrightarrow> owned B m p = (if fs = [] then \<not> b else b)"
proof -
  assume r: "ring B m b p fs"
  then have "(p + 0) mod 16 = p" by (simp add: ring_def)
  with ring_owned [OF r, of 0] show ?thesis by simp
qed

lemma ring_free: "ring B m b p fs \<Longrightarrow> owned B m ((p + length fs) mod 16) = (if length fs < 16 then \<not> b else b)"
proof -
  assume r: "ring B m b p fs"
  show ?thesis
  proof (cases "length fs < 16")
    case True
    then show ?thesis using ring_owned [OF r True] by simp
  next
    case False
    then have l: "length fs = 16" "p < 16" using r by (simp_all add: ring_def)
    then have "fs \<noteq> []" "(p + length fs) mod 16 = p" by auto
    with l ring_first [OF r] show ?thesis by simp
  qed
qed

lemma receives_inv:
  assumes inv: "enet_inv c v m pend q" and r: "chip_receives f (v, m) (v', m')"
  shows "enet_inv c v' m' (pend @ [f]) q \<and> received v' = received v @ [f] \<and> sent v' = sent v
    \<and> (\<forall>a. a \<notin> area RX_AREA \<longrightarrow> m' a = m a)"
proof -
  let ?B = RX_AREA and ?p = "rx_pos v" and ?r = "rx_descriptor_rptr c"
  have p: "?p = (?r + length pend) mod 16" "?p < 16" and ring: "ring ?B m False ?r pend" and d: "\<And>i. i < 16 \<Longrightarrow> desc_ok ?B m i \<and> dword ?B m i 3 AND 0xFFFF = 1528"
    and rr: "rx_ring v = ?B" using inv by (auto simp: enet_inv_def)
  have a: "MEM (ucast (dword ?B m ?p 2)) = buf ?B ?p" using d [OF p(2)] MEM_phys [OF p(2)] by (simp add: desc_ok_def)
  have e: "owned ?B m ?p" "length f \<le> 1528" "load_list m' (buf ?B ?p) (length f) = f" "dword ?B m' ?p 0 AND 0xFFFF = of_nat (length f)" "\<not> owned ?B m' ?p"
    "\<And>b. b \<notin> region (buf ?B ?p) (length f) \<union> region (descr ?B ?p 0) 8 \<Longrightarrow> m' b = m b"
    "v' = v\<lparr>rx_pos := next_pos ?B m ?p, received := received v @ [f]\<rparr>"
    using r d [OF p(2)] unfolding chip_receives_def by (simp_all add: rr a Let_def)
  have len: "length pend < 16"
    using ring_free [OF ring] e(1) p(1) by (auto split: if_splits)
  have out: "m' a = m a" if "a \<notin> slot_bytes ?B ?p" for a
    using e(6) [of a] that region_mono [OF e(2), of "buf ?B ?p"] descr_head [of ?B ?p] by (auto simp: slot_bytes_def)
  note ch = slot_change [OF p(2) _ _ out]
  have tail: "dword ?B m' ?p k = dword ?B m ?p k" if "k = 2 \<or> k = 3" for k
  proof (rule dword_same, rule e(6))
    fix x assume "x \<in> region (descr ?B ?p k) 4"
    moreover have "k < 4" using that by auto
    ultimately show "x \<notin> region (buf ?B ?p) (length f) \<union> region (descr ?B ?p 0) 8"
      using descr_tail [OF that, of ?B ?p] descr_region [of k ?B ?p] buffer_descr_disjoint [OF p(2) p(2), of ?B] region_mono [OF e(2), of "buf ?B ?p"] by blast
  qed
  have dp: "desc_ok ?B m' ?p" using d [OF p(2)] tail by (simp add: desc_ok_def)
  have "ring ?B m' False ?r (pend @ [f])"
  proof (rule ring_push [OF ring len p(1)])
    show "holds ?B m' ?p f" using e(2-4) dp by (simp add: holds_def)
  qed (use e(5) ch in auto)
  moreover have "desc_ok ?B m' i \<and> dword ?B m' i 3 AND 0xFFFF = 1528" if "i < 16" for i
    using d [OF that] ch [of i] tail dp that by (cases "i = ?p") auto
  moreover have "next_pos ?B m ?p = (?r + length (pend @ [f])) mod 16"
    using desc_next [of ?B m ?p] d [OF p(2)] p(2) p(1) by (simp add: mod_Suc_eq)
  moreover have tx: "m' a = m a" if "a \<in> area TX_AREA" for a using out slot_area [OF p(2), of ?B] areas_disjoint that by blast
  then have "ring TX_AREA m' True (tx_pos v) q" using ring_cong(1) [of TX_AREA m' m] inv by (simp add: enet_inv_def)
  ultimately have "enet_inv c v' m' (pend @ [f]) q" using inv e(7) by (simp add: enet_inv_def)
  moreover have "m' a = m a" if "a \<notin> area RX_AREA" for a using out slot_area [OF p(2)] that by blast
  ultimately show ?thesis using e(7) by simp
qed

lemma transmits_inv:
  assumes inv: "enet_inv c v m pend q" and r: "chip_transmits (v, m) (v', m')"
  shows "\<exists>f fs. q = f # fs \<and> enet_inv c v' m' pend fs \<and> sent v' = sent v @ [f] \<and> received v' = received v
    \<and> (\<forall>a. a \<notin> region (TX_AREA + of_nat (16 * tx_pos v)) 16 \<longrightarrow> m' a = m a)"
proof -
  let ?B = TX_AREA and ?p = "tx_pos v"
  have ring: "ring ?B m True ?p q" and p: "?p < 16" and tr: "tx_ring v = ?B" and w: "tx_descriptor_wptr c = (?p + length q) mod 16"
    using inv by (auto simp: enet_inv_def ring_def)
  have own: "owned ?B m ?p" using r by (simp add: chip_transmits_def tr Let_def)
  have "q \<noteq> []" using ring_first [OF ring] own by auto
  then obtain f fs where q: "q = f # fs" by (cases q) auto
  have "holds ?B m ((?p + 0) mod 16) (q ! 0)" using ring q unfolding ring_def by blast
  then have h: "holds ?B m ?p f" using p q by simp
  then have a: "MEM (ucast (dword ?B m ?p 2)) = buf ?B ?p" using MEM_phys [OF p] by (simp add: holds_def desc_ok_def)
  have "unat (dword ?B m ?p 0 AND 0xFFFF) = length f" using h by (simp add: holds_def unat_of_nat)
  then have e: "\<not> owned ?B m' ?p" "\<And>b. b \<notin> region (descr ?B ?p 0) 8 \<Longrightarrow> m' b = m b" "v' = v\<lparr>tx_pos := next_pos ?B m ?p, sent := sent v @ [f]\<rparr>"
    using r h unfolding chip_transmits_def by (simp_all add: tr a holds_def Let_def)
  have fr: "m' a = m a" if "a \<notin> region (?B + of_nat (16 * ?p)) 16" for a using e(2) [of a] that descr_head [of ?B ?p] by auto
  then have out: "m' a = m a" if "a \<notin> slot_bytes ?B ?p" for a using that by (auto simp: slot_bytes_def)
  note ch = slot_change [OF p _ _ out]
  have rx: "m' a = m a" if "a \<in> area RX_AREA" for a using out slot_area [OF p, of ?B] areas_disjoint that by blast
  have "ring ?B m' True ((?p + 1) mod 16) fs"
    using ring [unfolded q] by (rule ring_pop) (use e(1) ch in auto)
  moreover have "next_pos ?B m ?p = (?p + 1) mod 16" using desc_next h p by (simp add: holds_def)
  moreover have "tx_descriptor_wptr c = ((?p + 1) mod 16 + length fs) mod 16" using w q unfolding ring_shift by simp
  moreover have "ring RX_AREA m' False (rx_descriptor_rptr c) pend" "\<forall>i < 16. desc_ok RX_AREA m' i \<and> dword RX_AREA m' i 3 AND 0xFFFF = 1528"
    using ring_cong [of RX_AREA m' m, OF rx] inv by (simp_all add: enet_inv_def)
  ultimately have "enet_inv c v' m' pend fs" using inv e(3) by (simp add: enet_inv_def)
  with q e(3) fr show ?thesis by auto
qed

lemma runs_inv:
  assumes "chip_runs x y" "enet_inv c (fst x) (snd x) pend q"
  shows "\<exists>new k. enet_inv c (fst y) (snd y) (pend @ new) (drop k q) \<and> received (fst y) = received (fst x) @ new \<and> sent (fst y) = sent (fst x) @ take k q
    \<and> (\<forall>a. a \<notin> area RX_AREA \<union> region TX_AREA 256 \<longrightarrow> snd y a = snd x a)"
  using assms
proof (induction rule: chip_runs.induct)
  case (chip_idle x)
  then show ?case by (intro exI [of _ "[]"] exI [of _ 0]) simp
next
  case (chip_receive x y f z)
  obtain new k where y: "enet_inv c (fst y) (snd y) (pend @ new) (drop k q)" "received (fst y) = received (fst x) @ new" "sent (fst y) = sent (fst x) @ take k q"
    "\<forall>a. a \<notin> area RX_AREA \<union> region TX_AREA 256 \<longrightarrow> snd y a = snd x a" using chip_receive.IH chip_receive.prems by blast
  have "chip_receives f (fst y, snd y) (fst z, snd z)" using chip_receive.hyps by simp
  from receives_inv [OF y(1) this] y show ?case by (intro exI [of _ "new @ [f]"] exI [of _ k]) simp
next
  case (chip_transmit x y z)
  obtain new k where y: "enet_inv c (fst y) (snd y) (pend @ new) (drop k q)" "received (fst y) = received (fst x) @ new" "sent (fst y) = sent (fst x) @ take k q"
    "\<forall>a. a \<notin> area RX_AREA \<union> region TX_AREA 256 \<longrightarrow> snd y a = snd x a" using chip_transmit.IH chip_transmit.prems by blast
  have "chip_transmits (fst y, snd y) (fst z, snd z)" using chip_transmit.hyps by simp
  from transmits_inv [OF y(1) this] obtain f fs where z: "drop k q = f # fs" "enet_inv c (fst z) (snd z) (pend @ new) fs" "sent (fst z) = sent (fst y) @ [f]"
    "received (fst z) = received (fst y)" "\<forall>a. a \<notin> region (TX_AREA + of_nat (16 * tx_pos (fst y))) 16 \<longrightarrow> snd z a = snd y a" by blast
  have k: "k < length q" "drop (Suc k) q = fs" "take (Suc k) q = take k q @ [f]"
    using z(1) by (metis drop_eq_Nil2 linorder_not_le list.discI, metis drop_Suc drop_tl list.sel(3), metis Cons_nth_drop_Suc drop_eq_Nil2 linorder_not_le list.discI list.inject take_Suc_conv_app_nth)
  have "tx_pos (fst y) < 16" using y(1) by (simp add: enet_inv_def ring_def)
  then have "region (TX_AREA + of_nat (16 * tx_pos (fst y))) 16 \<subseteq> region TX_AREA 256" by (intro region_sub) simp
  with y z k show ?case by (intro exI [of _ new] exI [of _ "Suc k"]) auto
qed

section \<open>Chains of buffers\<close>

definition pbuf_len :: "pbuf \<Rightarrow> nat" where
  "pbuf_len p = sum_list (map (\<lambda>(a, l). unat l) p)"

definition pbuf_bytes :: "mem \<Rightarrow> pbuf \<Rightarrow> u8 list" where
  "pbuf_bytes m p = concat (map (\<lambda>(a, l). load_list m a (unat l)) p)"

definition pbuf_region :: "pbuf \<Rightarrow> addr set" where
  "pbuf_region p = (\<Union>(a, l) \<in> set p. region a (unat l))"

fun pbuf_disjoint :: "pbuf \<Rightarrow> bool" where
  "pbuf_disjoint [] \<longleftrightarrow> True"
| "pbuf_disjoint ((a, l) # p) \<longleftrightarrow> region a (unat l) \<inter> pbuf_region p = {} \<and> pbuf_disjoint p"

lemma pbuf_simps [simp]:
  "pbuf_len [] = 0" "pbuf_len ((a, l) # p) = unat l + pbuf_len p" "pbuf_bytes m [] = []" "pbuf_bytes m ((a, l) # p) = load_list m a (unat l) @ pbuf_bytes m p"
  "pbuf_region [] = {}" "pbuf_region ((a, l) # p) = region a (unat l) \<union> pbuf_region p"
  by (simp_all add: pbuf_len_def pbuf_bytes_def pbuf_region_def)

lemma length_pbuf_bytes [simp]: "length (pbuf_bytes m p) = pbuf_len p"
  by (induction p) auto

lemma pbuf_bytes_cong: "(\<And>a. a \<in> pbuf_region p \<Longrightarrow> m' a = m a) \<Longrightarrow> pbuf_bytes m' p = pbuf_bytes m p"
proof (induction p)
  case (Cons x p)
  obtain a l where x: "x = (a, l)" by force
  have "load_list m' a (unat l) = load_list m a (unat l)" using Cons.prems by (intro load_list_cong) (simp add: x)
  with Cons show ?case by (simp add: x)
qed simp

lemma unat_u16: "unat (ucast l :: u64) = unat (l :: u16)" "unat l < 2 ^ 16" "(ucast l :: u64) = of_nat (unat l)"
proof -
  show b: "unat l < 2 ^ 16" using unsigned_less [of l, where ?'a = nat] by simp
  show u: "unat (ucast l :: u64) = unat l" using b by (simp add: unsigned_ucast_eq take_bit_nat_eq_self)
  show "(ucast l :: u64) = of_nat (unat l)" by (simp only: of_nat_unat)
qed

lemma gather_chain_bytes:
  assumes "pbuf_region p \<inter> region dst (pbuf_len p) = {}" "pbuf_len p \<le> 2 ^ 32"
  shows "load_list (gather_chain p dst m) dst (pbuf_len p) = pbuf_bytes m p \<and> (\<forall>a. a \<notin> region dst (pbuf_len p) \<longrightarrow> gather_chain p dst m a = m a)"
  using assms
proof (induction p arbitrary: dst m)
  case (Cons x p)
  obtain a l where x: "x = (a, l)" by force
  define n where "n = unat l"
  have un: "(ucast l :: u64) = of_nat n" "unat (ucast l :: u64) = n" "n < 2 ^ 16" using unat_u16 [of l] by (simp_all only: n_def)
  note cs = pbuf_simps(2,4,6) [where l = l, folded n_def]
  let ?d = "dst + of_nat n" and ?m = "memcpy dst a (ucast l) m"
  have split: "region dst (pbuf_len (x # p)) = region dst n \<union> region ?d (pbuf_len p)" unfolding x cs by (rule region_add)
  have dj: "region dst n \<inter> region ?d (pbuf_len p) = {}" using Cons.prems(2) un(3) by (intro region_split_disjoint) (simp add: x)
  have pa: "pbuf_region p \<inter> region dst n = {}" "pbuf_region p \<inter> region ?d (pbuf_len p) = {}" "region dst n \<inter> region a n = {}"
    using Cons.prems(1) unfolding split unfolding x cs by blast+
  have cp: "?m = store_list m dst (load_list m a n)"
    using memcpy_disjoint [of dst "ucast l" a m, unfolded un(2), OF pa(3)] .
  have m: "load_list ?m dst n = load_list m a n" using load_store_list [of "load_list m a n" m dst] un(3) by (simp add: cp)
  have out: "?m b = m b" if "b \<notin> region dst n" for b using that store_list_other [of b dst "load_list m a n" m] by (simp add: cp)
  have "pbuf_bytes ?m p = pbuf_bytes m p" using pa(1) out by (intro pbuf_bytes_cong) blast
  moreover have "pbuf_len p \<le> 2 ^ 32" using Cons.prems(2) by (simp add: x)
  ultimately have ih: "load_list (gather_chain p ?d ?m) ?d (pbuf_len p) = pbuf_bytes m p" "\<forall>b. b \<notin> region ?d (pbuf_len p) \<longrightarrow> gather_chain p ?d ?m b = ?m b"
    using Cons.IH [OF pa(2), of ?m] by simp_all
  have "load_list (gather_chain p ?d ?m) dst n = load_list ?m dst n" using ih(2) dj by (intro load_list_cong) blast
  then have "load_list (gather_chain p ?d ?m) dst (pbuf_len (x # p)) = pbuf_bytes m (x # p)"
    using ih(1) m unfolding x cs load_list_add by simp
  moreover have "gather_chain p ?d ?m b = m b" if "b \<notin> region dst (pbuf_len (x # p))" for b using that ih(2) out unfolding split by (metis UnI1 UnI2)
  ultimately show ?case unfolding x gather_chain.simps fill_chain.simps un(1) by blast
qed simp

lemma fill_chain_bytes:
  assumes "pbuf_region p \<inter> region src (pbuf_len p) = {}" "pbuf_disjoint p" "pbuf_len p \<le> 2 ^ 32"
  shows "pbuf_bytes (fill_chain p src m) p = load_list m src (pbuf_len p) \<and> (\<forall>a. a \<notin> pbuf_region p \<longrightarrow> fill_chain p src m a = m a)"
  using assms
proof (induction p arbitrary: src m)
  case (Cons x p)
  obtain a l where x: "x = (a, l)" by force
  define n where "n = unat l"
  have un: "(ucast l :: u64) = of_nat n" "unat (ucast l :: u64) = n" "n < 2 ^ 16" using unat_u16 [of l] by (simp_all only: n_def)
  note cs = pbuf_simps(2,4,6) [where l = l, folded n_def]
  let ?s = "src + of_nat n" and ?m = "memcpy a src (ucast l) m"
  have split: "region src (pbuf_len (x # p)) = region src n \<union> region ?s (pbuf_len p)" unfolding x cs by (rule region_add)
  have pa: "pbuf_region p \<inter> region ?s (pbuf_len p) = {}" "region a n \<inter> region src n = {}" "region a n \<inter> region ?s (pbuf_len p) = {}"
    using Cons.prems(1) unfolding split unfolding x cs by blast+
  have pd: "region a n \<inter> pbuf_region p = {}" "pbuf_disjoint p" "pbuf_len p \<le> 2 ^ 32" using Cons.prems(2,3) unfolding n_def by (simp_all add: x)
  have cp: "?m = store_list m a (load_list m src n)"
    using memcpy_disjoint [of a "ucast l" src m, unfolded un(2), OF pa(2)] .
  have m: "load_list ?m a n = load_list m src n" using load_store_list [of "load_list m src n" m a] un(3) by (simp add: cp)
  have out: "?m b = m b" if "b \<notin> region a n" for b using that store_list_other [of b a "load_list m src n" m] by (simp add: cp)
  have "load_list ?m ?s (pbuf_len p) = load_list m ?s (pbuf_len p)" using pa(3) out by (intro load_list_cong) blast
  then have ih: "pbuf_bytes (fill_chain p ?s ?m) p = load_list m ?s (pbuf_len p)" "\<forall>b. b \<notin> pbuf_region p \<longrightarrow> fill_chain p ?s ?m b = ?m b"
    using Cons.IH [OF pa(1) pd(2,3), of ?m] by simp_all
  have "load_list (fill_chain p ?s ?m) a n = load_list ?m a n" using ih(2) pd(1) by (intro load_list_cong) blast
  then have "pbuf_bytes (fill_chain p ?s ?m) (x # p) = load_list m src (pbuf_len (x # p))"
    using ih(1) m unfolding x cs load_list_add by simp
  moreover have "fill_chain p ?s ?m b = m b" if "b \<notin> pbuf_region (x # p)" for b using that ih(2) out unfolding x cs by (metis UnI1 UnI2)
  ultimately show ?case unfolding x gather_chain.simps fill_chain.simps un(1) by blast
qed simp

section \<open>The driver keeps the rings\<close>

lemma dword_store:
  assumes "i < 16" "j < 16" "k < 4" "l < 4"
  shows "dword B (store_be32 (descr B i k) v m) j l = (if j = i \<and> l = k then swap32 v else dword B m j l)"
proof -
  have "word_at B (store_be32 (B + of_nat (4 * (i * 4 + k))) v m) (j * 4 + l) = (if j * 4 + l = i * 4 + k then v else word_at B m (j * 4 + l))"
    using assms by (intro word_at_store [of _ 64]) auto
  moreover have "j * 4 + l = i * 4 + k \<longleftrightarrow> j = i \<and> l = k" using assms(3,4) by presburger
  ultimately show ?thesis by (simp add: dword_def descr_def word_at_def del: of_nat_mult of_nat_add)
qed

lemma descr_store_other: "k < 4 \<Longrightarrow> a \<notin> region (B + of_nat (16 * i)) 16 \<Longrightarrow> store_be32 (descr B i k) v m a = m a"
  using descr_region [of k B i] by (intro store_be32_other) blast

text \<open>A change of a slot behind the frames of a ring.\<close>

lemma ring_change:
  assumes "ring B m b p fs" "length fs < 16" "i = (p + length fs) mod 16" "owned B m' i = owned B m i" "\<And>a. a \<notin> slot_bytes B i \<Longrightarrow> m' a = m a"
  shows "ring B m' b p fs"
proof -
  have p: "p < 16" "i < 16" using assms(1,3) by (simp_all add: ring_def)
  note ch = slot_change [OF p(2) _ _ assms(5)]
  have ne: "(p + j) mod 16 \<noteq> i" if "j < 16" "j \<noteq> length fs" for j
    using ring_positions [OF p(1) that(1) assms(2)] that(2) assms(3) by simp
  have "holds B m' ((p + j) mod 16) (fs ! j)" if "j < length fs" for j
    using that ne [of j] ch(3) [of "(p + j) mod 16"] assms(1,2) by (auto simp: ring_def)
  moreover have "owned B m' ((p + j) mod 16) = owned B m ((p + j) mod 16)" if "j < 16" for j
    using ne [OF that] ch(1) [of "(p + j) mod 16"] assms(3,4) by (cases "j = length fs") auto
  ultimately show ?thesis using assms(1) ring_owned [OF assms(1)] unfolding ring_def by auto
qed

lemma rx_buffer: "RX_AREA + 0x100 + of_nat (i * MTU) = buf RX_AREA i" and tx_buffer: "TX_AREA + 0x100 + of_nat (i * MTU) = buf TX_AREA i"
  by (simp_all add: buf_def MTU_def algebra_simps)

definition alloc_ok :: "(u32 \<Rightarrow> pbuf option) \<Rightarrow> bool" where
  "alloc_ok pbuf_alloc \<longleftrightarrow> (\<forall>n p. pbuf_alloc n = Some p \<longrightarrow>
     pbuf_len p = unat n \<and> pbuf_disjoint p \<and> pbuf_region p \<inter> (area RX_AREA \<union> area TX_AREA) = {})"

lemma linkinput_empty: "enet_inv (ctx s) v (nmem s) [] q \<Longrightarrow> enet_linkinput pbuf_alloc s = (None, s)"
proof -
  assume inv: "enet_inv (ctx s) v (nmem s) [] q"
  then have "owned RX_AREA (nmem s) (rx_descriptor_rptr (ctx s))" using ring_first [of RX_AREA "nmem s" False] by (auto simp: enet_inv_def)
  then show ?thesis using inv by (simp add: enet_linkinput_def owned_def dword_def enet_inv_def Let_def)
qed

lemma linkinput_frame:
  assumes inv: "enet_inv (ctx s) v (nmem s) (f # fs) q" and al: "alloc_ok pbuf_alloc" and r: "enet_linkinput pbuf_alloc s = (p, s')"
  shows "p = pbuf_alloc (of_nat (length f)) \<and> enet_inv (ctx s') v (nmem s') fs q \<and> chip s' = chip s \<and> (\<forall>c. p = Some c \<longrightarrow> pbuf_bytes (nmem s') c = f)"
proof -
  let ?B = RX_AREA and ?r = "rx_descriptor_rptr (ctx s)" and ?m = "nmem s"
  have c: "rx_descriptor_base (ctx s) = ?B" "rx_receive_base (ctx s) = ?B + 0x100" and ring: "ring ?B ?m False ?r (f # fs)"
    and d: "\<And>i. i < 16 \<Longrightarrow> desc_ok ?B ?m i \<and> dword ?B ?m i 3 AND 0xFFFF = 1528" using inv by (auto simp: enet_inv_def)
  have r16: "?r < 16" "length f \<le> 1528" and h: "holds ?B ?m ?r f" and no: "\<not> owned ?B ?m ?r"
  proof -
    show r16: "?r < 16" using ring by (simp add: ring_def)
    have "holds ?B ?m ((?r + 0) mod 16) ((f # fs) ! 0)" using ring unfolding ring_def by (metis length_greater_0_conv list.discI)
    then show h: "holds ?B ?m ?r f" using r16 by simp
    then show "length f \<le> 1528" by (simp add: holds_def)
    show "\<not> owned ?B ?m ?r" using ring_first [OF ring] by simp
  qed
  define m1 where "m1 = (case pbuf_alloc (of_nat (length f)) of None \<Rightarrow> ?m | Some c \<Rightarrow> fill_chain c (buf ?B ?r) ?m)"
  define m2 where "m2 = store_be32 (descr ?B ?r 1) (swap32 0xc0000000) (store_be32 (descr ?B ?r 0) (swap32 0) (store_be32 (descr ?B ?r 3)
    (swap32 (of_nat MTU OR (if ?r = RX_DESCRIPTOR_NUM - 1 then 0x80000000 else 0))) (store_be32 (descr ?B ?r 2) (swap32 (virt_to_phys (buf ?B ?r))) m1)))"
  have rs: "p = pbuf_alloc (of_nat (length f))" "s' = s\<lparr>nmem := m2, ctx := (ctx s)\<lparr>rx_descriptor_rptr := (?r + 1) mod 16\<rparr>\<rparr>"
  proof -
    have "swap32 (load_be32 ?m (descr ?B ?r 1)) AND 0x80000000 = 0" "swap32 (load_be32 ?m (descr ?B ?r 0)) AND 0xFFFF = of_nat (length f)"
      using no h by (simp_all add: owned_def dword_def holds_def)
    then have "enet_linkinput pbuf_alloc s = (pbuf_alloc (of_nat (length f)), s\<lparr>nmem := m2, ctx := (ctx s)\<lparr>rx_descriptor_rptr := (?r + 1) mod 16\<rparr>\<rparr>)"
      unfolding enet_linkinput_def Let_def c rx_buffer by (simp add: m2_def m1_def RX_DESCRIPTOR_NUM_def)
    with r show "p = pbuf_alloc (of_nat (length f))" "s' = s\<lparr>nmem := m2, ctx := (ctx s)\<lparr>rx_descriptor_rptr := (?r + 1) mod 16\<rparr>\<rparr>" by simp_all
  qed
  have m1: "\<And>a. a \<in> area RX_AREA \<union> area TX_AREA \<Longrightarrow> m1 a = ?m a" "\<And>c. p = Some c \<Longrightarrow> pbuf_bytes m1 c = f \<and> pbuf_region c \<inter> area ?B = {}"
  proof -
    have "region (buf ?B ?r) (length f) \<subseteq> area ?B"
      using region_mono [OF r16(2), of "buf ?B ?r"] slot_area [OF r16(1), of ?B] by (auto simp: slot_bytes_def)
    moreover have "unat (of_nat (length f) :: u32) = length f" using r16(2) by (simp add: unat_of_nat)
    ultimately have fc: "pbuf_bytes (fill_chain c (buf ?B ?r) ?m) c = f \<and> (\<forall>a. a \<notin> pbuf_region c \<longrightarrow> fill_chain c (buf ?B ?r) ?m a = ?m a)"
      "pbuf_region c \<inter> (area RX_AREA \<union> area TX_AREA) = {}" if "pbuf_alloc (of_nat (length f)) = Some c" for c
    proof -
      have k: "pbuf_len c = length f" "pbuf_disjoint c" "pbuf_region c \<inter> (area RX_AREA \<union> area TX_AREA) = {}"
        using al that \<open>unat (of_nat (length f) :: u32) = length f\<close> unfolding alloc_ok_def by metis+
      have "pbuf_region c \<inter> region (buf ?B ?r) (pbuf_len c) = {}" using k(3) \<open>region (buf ?B ?r) (length f) \<subseteq> area ?B\<close> unfolding k(1) by blast
      moreover have "pbuf_len c \<le> 2 ^ 32" using k(1) r16(2) by simp
      moreover have "load_list ?m (buf ?B ?r) (pbuf_len c) = f" using h by (simp add: holds_def k(1))
      ultimately show "pbuf_bytes (fill_chain c (buf ?B ?r) ?m) c = f \<and> (\<forall>a. a \<notin> pbuf_region c \<longrightarrow> fill_chain c (buf ?B ?r) ?m a = ?m a)"
        using fill_chain_bytes [OF _ k(2), of "buf ?B ?r" ?m] by simp
      show "pbuf_region c \<inter> (area RX_AREA \<union> area TX_AREA) = {}" by (rule k(3))
    qed
    show "m1 a = ?m a" if "a \<in> area RX_AREA \<union> area TX_AREA" for a
    proof (cases "pbuf_alloc (of_nat (length f))")
      case (Some c)
      then have "a \<notin> pbuf_region c" using fc(2) [OF Some] that by blast
      with fc(1) [OF Some] Some show ?thesis by (simp add: m1_def)
    qed (simp add: m1_def)
    show "pbuf_bytes m1 c = f \<and> pbuf_region c \<inter> area ?B = {}" if "p = Some c" for c
    proof -
      have a: "pbuf_alloc (of_nat (length f)) = Some c" using that rs(1) by simp
      then have "m1 = fill_chain c (buf ?B ?r) ?m" by (simp add: m1_def)
      with fc [OF a] show ?thesis by blast
    qed
  qed
  have inv1: "enet_inv (ctx s) v m1 (f # fs) q" using inv m1(1) by (rule enet_inv_cong)
  then have ring1: "ring ?B m1 False ?r (f # fs)" by (simp add: enet_inv_def)
  have out: "m2 a = m1 a" if "a \<notin> region (?B + of_nat (16 * ?r)) 16" for a
    using that by (simp add: m2_def descr_store_other)
  then have out': "m2 a = m1 a" if "a \<notin> slot_bytes ?B ?r" for a using that by (simp add: slot_bytes_def)
  note ch = slot_change [OF r16(1) _ _ out']
  have dw: "dword ?B m2 ?r 1 = 0xc0000000" "dword ?B m2 ?r 2 = virt_to_phys (buf ?B ?r)" "dword ?B m2 ?r 3 = 1528 OR (if ?r = 15 then 0x80000000 else 0)"
    using r16 unfolding m2_def by (simp_all add: dword_store MTU_def RX_DESCRIPTOR_NUM_def)
  have ring2: "ring ?B m2 False ((?r + 1) mod 16) fs"
    using ring1 by (rule ring_pop) (use dw(1) ch in \<open>auto simp: owned_def\<close>)
  have "desc_ok ?B m2 i \<and> dword ?B m2 i 3 AND 0xFFFF = 1528" if "i < 16" for i
    using that inv1 ch(2,4) [of i] dw(2,3) by (cases "i = ?r") (auto simp: enet_inv_def desc_ok_def)
  moreover have "m2 a = m1 a" if "a \<in> area TX_AREA" for a using out' slot_area [OF r16(1), of ?B] areas_disjoint that by blast
  then have "ring TX_AREA m2 True (tx_pos v) q" using inv1 ring_cong(1) [of TX_AREA m2 m1] by (simp add: enet_inv_def)
  moreover have "rx_pos v = ((?r + 1) mod 16 + length fs) mod 16" using inv unfolding ring_shift by (simp add: enet_inv_def)
  ultimately have "enet_inv (ctx s') v (nmem s') fs q" using inv1 ring2 rs(2) by (simp add: enet_inv_def)
  moreover have "pbuf_bytes (nmem s') c = f" if "p = Some c" for c
  proof -
    have "pbuf_bytes m2 c = pbuf_bytes m1 c" using m1(2) [OF that] out' slot_area [OF r16(1), of ?B] by (intro pbuf_bytes_cong) blast
    then show ?thesis using m1(2) [OF that] rs(2) by simp
  qed
  ultimately show ?thesis using rs by simp
qed

lemma law_reads: "nic_law E view \<Longrightarrow> view (chip (snd (enet_read32 E a s))) = view (chip s)"
  by (simp add: nic_law_def enet_read32_def split: prod.splits) (metis snd_conv)

lemma read_fields: "ctx (snd (enet_read32 E a s)) = ctx s" "nmem (snd (enet_read32 E a s)) = nmem s"
  by (simp_all add: enet_read32_def split: prod.splits)

lemma write_fields [simp]: "ctx (enet_write32 E a v s) = ctx s" "nmem (enet_write32 E a v s) = nmem s"
  by (simp_all add: enet_write32_def)

lemma law_writes: "nic_law E view \<Longrightarrow> 0x8000020000000000 OR ucast a \<noteq> (0x80000200ea001404 :: u64) \<Longrightarrow> 0x8000020000000000 OR ucast a \<noteq> (0x80000200ea001414 :: u64)
    \<Longrightarrow> view (chip (enet_write32 E a v s)) = view (chip s)"
  by (simp add: nic_law_def enet_write32_def)

lemma u16_mask: "(ucast (w :: u16) :: u32) AND 0xFFFF = ucast w"
proof -
  have "(ucast w :: u32) AND mask 16 = ucast w" by (rule bit_eqI) (auto simp: bit_simps dest: bit_imp_le_length)
  then show ?thesis by (simp add: mask_eq_exp_minus_1)
qed

lemma u16_or: "(ucast (w :: u16) OR x) AND 0x80000000 = x AND (0x80000000 :: u32)"
proof -
  have e: "(0x80000000 :: u32) = push_bit 31 1" by (simp add: push_bit_eq_mult)
  have w: "\<not> bit w n" if "31 \<le> n" for n using bit_imp_le_length [of w n] that by auto
  show ?thesis unfolding e
    by (rule bit_eqI) (use w in \<open>auto simp only: bit_and_iff bit_or_iff bit_push_bit_iff bit_unsigned_iff\<close>)
qed

lemma linkoutput_inv:
  assumes law: "nic_law E view" and inv: "enet_inv (ctx s) (view (chip s)) (nmem s) pend q" and len: "length q < 16"
    and p: "pbuf_len p = unat tot_len" "unat tot_len \<le> 1528" "pbuf_region p \<inter> area TX_AREA = {}"
  shows "\<exists>s' new k. enet_linkoutput E p tot_len s = Some s'
    \<and> enet_inv (ctx s') (view (chip s')) (nmem s') (pend @ new) (drop k q @ [pbuf_bytes (nmem s) p])
    \<and> received (view (chip s')) = received (view (chip s)) @ new \<and> sent (view (chip s')) = sent (view (chip s)) @ take k q"
proof -
  let ?B = TX_AREA and ?w = "tx_descriptor_wptr (ctx s)" and ?v = "view (chip s)" and ?f = "pbuf_bytes (nmem s) p"
  have c: "tx_descriptor_base (ctx s) = ?B" "tx_buffer_base (ctx s) = ?B + 0x100" and w: "?w = (tx_pos ?v + length q) mod 16" "?w < 16"
    and ring: "ring ?B (nmem s) True (tx_pos ?v) q" using inv by (auto simp: enet_inv_def)
  define m1 where "m1 = gather_chain p (buf ?B ?w) (nmem s)"
  have sub: "region (buf ?B ?w) (pbuf_len p) \<subseteq> region (buf ?B ?w) 1528" using region_mono p(1,2) by simp
  have "pbuf_region p \<inter> region (buf ?B ?w) (pbuf_len p) = {}" using sub slot_area [OF w(2), of ?B] p(3) by (auto simp: slot_bytes_def)
  then have m1: "load_list m1 (buf ?B ?w) (pbuf_len p) = ?f" "\<And>a. a \<notin> region (buf ?B ?w) 1528 \<Longrightarrow> m1 a = nmem s a"
    using gather_chain_bytes [of p "buf ?B ?w" "nmem s"] sub p(1,2) unfolding m1_def by (auto simp: )
  have out1: "m1 a = nmem s a" if "a \<notin> slot_bytes ?B ?w" for a using m1(2) that by (simp add: slot_bytes_def)
  have "dword ?B m1 ?w 1 = dword ?B (nmem s) ?w 1"
    using m1(2) buffer_descr_disjoint [OF w(2) w(2), of ?B] by (intro dword_cong [OF w(2)]) auto
  then have "ring ?B m1 True (tx_pos ?v) q"
    using ring_change [OF ring len w(1)] out1 by (simp add: owned_def)
  moreover have "m1 a = nmem s a" if "a \<in> area RX_AREA" for a using out1 slot_area [OF w(2), of ?B] areas_disjoint that by blast
  then have "ring RX_AREA m1 False (rx_descriptor_rptr (ctx s)) pend" "\<forall>i < 16. desc_ok RX_AREA m1 i \<and> dword RX_AREA m1 i 3 AND 0xFFFF = 1528"
    using ring_cong [of RX_AREA m1 "nmem s"] inv by (simp_all add: enet_inv_def)
  ultimately have inv1: "enet_inv (ctx s) ?v m1 pend q" using inv by (simp add: enet_inv_def)
  obtain d2 m2 where dma: "dma E (chip s) m1 = (d2, m2)" by force
  then have "chip_runs (?v, m1) (view d2, m2)" using law unfolding nic_law_def by (metis case_prod_conv)
  from runs_inv [OF this, of "ctx s" pend q] inv1 obtain new k where
    inv2: "enet_inv (ctx s) (view d2) m2 (pend @ new) (drop k q)" "received (view d2) = received ?v @ new" "sent (view d2) = sent ?v @ take k q"
    "\<And>a. a \<notin> area RX_AREA \<union> region ?B 256 \<Longrightarrow> m2 a = m1 a" by auto
  have w2: "?w = (tx_pos (view d2) + length (drop k q)) mod 16" and ring2: "ring ?B m2 True (tx_pos (view d2)) (drop k q)" and len2: "length (drop k q) < 16"
    using inv2(1) len by (auto simp: enet_inv_def)
  have free: "\<not> owned ?B m2 ?w" using ring_free [OF ring2] len2 w2 by simp
  have f2: "load_list m2 (buf ?B ?w) (length ?f) = ?f"
  proof -
    have "region (buf ?B ?w) 1528 \<inter> region (?B + of_nat 0) 256 = {}" using w(2) unfolding buf_def by (intro offset_disjoint) auto
    moreover have "region (buf ?B ?w) 1528 \<inter> area RX_AREA = {}" using slot_area [OF w(2), of ?B] areas_disjoint by (auto simp: slot_bytes_def)
    ultimately have "load_list m2 (buf ?B ?w) (pbuf_len p) = load_list m1 (buf ?B ?w) (pbuf_len p)"
      using sub by (intro load_list_cong inv2(4)) auto
    then show ?thesis using m1(1) by simp
  qed
  define m3 where "m3 = store_be32 (descr ?B ?w 1) (swap32 0xc0230000) (store_be32 (descr ?B ?w 3) (swap32 (ucast tot_len OR (if ?w = TX_DESCRIPTOR_NUM - 1 then 0x80000000 else 0)))
    (store_be32 (descr ?B ?w 2) (swap32 (virt_to_phys (buf ?B ?w))) (store_be32 (descr ?B ?w 0) (swap32 (ucast tot_len)) m2)))"
  obtain s' where s': "enet_linkoutput E p tot_len s = Some s'" "ctx s' = (ctx s)\<lparr>tx_descriptor_wptr := (?w + 1) mod 16\<rparr>" "nmem s' = m3" "view (chip s') = view d2"
  proof -
    let ?s1 = "s\<lparr>nmem := m1\<rparr>" and ?s2 = "s\<lparr>nmem := m2, chip := d2\<rparr>" and ?s3 = "s\<lparr>nmem := m3, chip := d2\<rparr>"
    have "swap32 (load_be32 m2 (descr ?B ?w 1)) AND 0x80000000 = 0" using free by (simp add: owned_def dword_def)
    then have wait: "wait_empty_tx E ?s1 = Some ?s2" by (subst wait_empty_tx.simps) (simp add: dma c)
    obtain v3 s4 where rd: "enet_read32 E 0xea001400 ?s3 = (v3, s4)" by force
    then have s4: "ctx s4 = ctx s" "nmem s4 = m3" "view (chip s4) = view d2"
      using read_fields [of E "0xea001400" ?s3] law_reads [OF law, of "0xea001400" ?s3] by simp_all
    let ?s5 = "enet_write32 E 0xea001400 (v3 OR swap32 0x10) s4"
    let ?s6 = "?s5\<lparr>ctx := (ctx ?s5)\<lparr>tx_descriptor_wptr := (?w + 1) mod 16\<rparr>\<rparr>"
    have "enet_linkoutput E p tot_len s = Some (enet_write32 E 0xea001410 (swap32 0x00101c11) ?s6)"
    proof -
      have eqs: "ctx ?s2 = ctx s" "nmem ?s2 = m2" "?s2\<lparr>nmem := m3\<rparr> = ?s3" and n16: "TX_DESCRIPTOR_NUM = 16" by (simp_all add: TX_DESCRIPTOR_NUM_def)
      show ?thesis
        unfolding enet_linkoutput_def Let_def c tx_buffer m1_def [symmetric] tx_data_def wait bind.bind_lunit eqs(1,2) c
        unfolding m3_def [symmetric] unfolding eqs(3) rd prod.case n16 ..
    qed
    moreover have "view (chip (enet_write32 E 0xea001410 (swap32 0x00101c11) ?s6)) = view d2"
      using s4(3) by (simp add: law_writes [OF law])
    ultimately show ?thesis using s4 that by simp
  qed
  have out: "m3 a = m2 a" if "a \<notin> region (?B + of_nat (16 * ?w)) 16" for a
    using that by (simp add: m3_def descr_store_other)
  then have out': "m3 a = m2 a" if "a \<notin> slot_bytes ?B ?w" for a using that by (simp add: slot_bytes_def)
  note ch = slot_change [OF w(2) _ _ out']
  have dw: "dword ?B m3 ?w 0 = ucast tot_len" "dword ?B m3 ?w 1 = 0xc0230000" "dword ?B m3 ?w 2 = virt_to_phys (buf ?B ?w)"
    "dword ?B m3 ?w 3 = ucast tot_len OR (if ?w = 15 then 0x80000000 else 0)"
    using w(2) unfolding m3_def by (simp_all add: dword_store TX_DESCRIPTOR_NUM_def)
  have "holds ?B m3 ?w ?f"
  proof -
    have "region (buf ?B ?w) (pbuf_len p) \<inter> region (?B + of_nat (16 * ?w)) 16 = {}" using sub buffer_descr_disjoint [OF w(2) w(2), of ?B] by blast
    then have "load_list m3 (buf ?B ?w) (length ?f) = ?f" using f2 load_list_cong [of "buf ?B ?w" "length ?f" m3 m2] out by (metis disjoint_iff length_pbuf_bytes)
    moreover have "(ucast tot_len :: u32) AND 0xFFFF = of_nat (length ?f)" using p(1) by (simp add: u16_mask)
    moreover have "(ucast tot_len OR x) AND 0x80000000 = x AND (0x80000000 :: u32)" for x by (rule u16_or)
    ultimately show ?thesis using dw p(1,2) by (simp add: holds_def desc_ok_def)
  qed
  then have "ring ?B m3 True (tx_pos (view d2)) (drop k q @ [?f])"
    using ring2 len2 w2 dw(2) ch by (intro ring_push [where m = m2 and i = ?w]) (auto simp: owned_def)
  moreover have "m3 a = m2 a" if "a \<in> area RX_AREA" for a using out' slot_area [OF w(2), of ?B] areas_disjoint that by blast
  then have "ring RX_AREA m3 False (rx_descriptor_rptr (ctx s)) (pend @ new)" "\<forall>i < 16. desc_ok RX_AREA m3 i \<and> dword RX_AREA m3 i 3 AND 0xFFFF = 1528"
    using ring_cong [of RX_AREA m3 m2] inv2(1) by (simp_all add: enet_inv_def)
  moreover have "(?w + 1) mod 16 = (tx_pos (view d2) + length (drop k q @ [?f])) mod 16" using w2 by (simp add: mod_Suc_eq)
  ultimately have "enet_inv (ctx s') (view (chip s')) (nmem s') (pend @ new) (drop k q @ [?f])"
    using inv2(1) s'(2-4) by (simp add: enet_inv_def)
  with s'(1,4) inv2(2,3) show ?thesis by auto
qed

lemma descr_store_area: "i < 16 \<Longrightarrow> k < 4 \<Longrightarrow> a \<notin> area B \<Longrightarrow> store_be32 (descr B i k) v m a = m a"
  using slot_area [of i B] by (intro descr_store_other) (auto simp: slot_bytes_def)

lemma tx_init_loop_words:
  "i + n \<le> 16 \<Longrightarrow> (\<forall>j < 16. dword B (tx_init_loop n B i m) j 1 = (if i \<le> j \<and> j < i + n then 0 else dword B m j 1))
     \<and> (\<forall>a. a \<notin> area B \<longrightarrow> tx_init_loop n B i m a = m a)"
proof (induction n arbitrary: i m)
  case (Suc n)
  define m1 where "m1 = store_be32 (descr B i 2) 0 (store_be32 (descr B i 1) 0 (store_be32 (descr B i 0) 0 m))"
  define m2 where "m2 = (if i \<noteq> TX_DESCRIPTOR_NUM - 1 then store_be32 (descr B i 3) 0 m1 else store_be32 (descr B i 3) (swap32 0x80000000) m1)"
  have step: "tx_init_loop (Suc n) B i m = tx_init_loop n B (i + 1) m2" by (simp add: m1_def m2_def Let_def)
  have i: "i < 16" using Suc.prems by simp
  have m2: "dword B m2 j 1 = (if j = i then 0 else dword B m j 1)" if "j < 16" for j
    using i that by (simp add: m2_def m1_def dword_store) (simp add: swap32_def)
  have outside: "m2 a = m a" if "a \<notin> area B" for a using i that by (simp add: m2_def m1_def descr_store_area)
  have "(\<forall>j < 16. dword B (tx_init_loop n B (i + 1) m2) j 1 = (if i + 1 \<le> j \<and> j < i + 1 + n then 0 else dword B m2 j 1))
     \<and> (\<forall>a. a \<notin> area B \<longrightarrow> tx_init_loop n B (i + 1) m2 a = m2 a)" using Suc.prems by (intro Suc.IH) simp
  then show ?case unfolding step using m2 outside by auto
qed auto

definition rx_ready :: "addr \<Rightarrow> mem \<Rightarrow> nat \<Rightarrow> bool" where
  "rx_ready B m j \<longleftrightarrow> owned B m j \<and> desc_ok B m j \<and> dword B m j 3 AND 0xFFFF = 1528"

lemma rx_ready_cong: "(\<And>k. k < 4 \<Longrightarrow> dword B m' j k = dword B m j k) \<Longrightarrow> rx_ready B m' j = rx_ready B m j"
  by (simp add: rx_ready_def owned_def desc_ok_def)

lemma rx_init_loop_words:
  "i + n \<le> 16 \<Longrightarrow> (\<forall>j < i + n. i \<le> j \<or> rx_ready B m j \<longrightarrow> rx_ready B (rx_init_loop n B (B + 0x100) i m) j)
     \<and> (\<forall>a. a \<notin> area B \<longrightarrow> rx_init_loop n B (B + 0x100) i m a = m a)"
proof (induction n arbitrary: i m)
  case (Suc n)
  define m1 where "m1 = store_be32 (descr B i 3) (swap32 (of_nat MTU OR (if i = RX_DESCRIPTOR_NUM - 1 then 0x80000000 else 0)))
    (store_be32 (descr B i 2) (swap32 (virt_to_phys (B + 0x100 + of_nat (i * MTU)))) (store_be32 (descr B i 1) (swap32 0xc0000000) (store_be32 (descr B i 0) (swap32 0) m)))"
  have step: "rx_init_loop (Suc n) B (B + 0x100) i m = rx_init_loop n B (B + 0x100) (i + 1) m1" by (simp add: m1_def Let_def)
  have i: "i < 16" using Suc.prems by simp
  have b: "B + 0x100 + of_nat (i * MTU) = buf B i" by (simp add: buf_def MTU_def algebra_simps)
  have "dword B m1 i 1 = 0xc0000000" "dword B m1 i 2 = virt_to_phys (buf B i)" "dword B m1 i 3 = 1528 OR (if i = 15 then 0x80000000 else 0)"
    using i unfolding m1_def b by (simp_all add: dword_store MTU_def RX_DESCRIPTOR_NUM_def)
  then have here: "rx_ready B m1 i" by (simp add: rx_ready_def owned_def desc_ok_def)
  have other: "rx_ready B m1 j = rx_ready B m j" if "j < 16" "j \<noteq> i" for j
    using i that by (intro rx_ready_cong) (simp add: m1_def dword_store)
  have outside: "m1 a = m a" if "a \<notin> area B" for a using i that by (simp add: m1_def descr_store_area)
  have "(\<forall>j < i + 1 + n. i + 1 \<le> j \<or> rx_ready B m1 j \<longrightarrow> rx_ready B (rx_init_loop n B (B + 0x100) (i + 1) m1) j)
     \<and> (\<forall>a. a \<notin> area B \<longrightarrow> rx_init_loop n B (B + 0x100) (i + 1) m1 a = m1 a)" using Suc.prems by (intro Suc.IH) simp
  moreover have "i + 1 \<le> j \<or> rx_ready B m1 j" if "i \<le> j \<or> rx_ready B m j" "j < i + Suc n" for j
    using that here other [of j] Suc.prems by (cases "j = i") auto
  ultimately show ?case unfolding step using outside by auto
qed simp

lemma law_rings:
  assumes "nic_law E view"
  shows "view (chip (enet_write32 E 0xea001404 v s)) = (view (chip s))\<lparr>tx_ring := MEM (ucast (swap32 v)), tx_pos := 0\<rparr>"
    and "view (chip (enet_write32 E 0xea001414 v s)) = (view (chip s))\<lparr>rx_ring := MEM (ucast (swap32 v)), rx_pos := 0\<rparr>"
  using assms by (simp_all add: nic_law_def enet_write32_def)

lemma enet_open_inv:
  assumes law: "nic_law E view"
  shows "enet_inv (ctx (enet_open E hw s)) (view (chip (enet_open E hw s))) (nmem (enet_open E hw s)) [] []
    \<and> received (view (chip (enet_open E hw s))) = received (view (chip s)) \<and> sent (view (chip (enet_open E hw s))) = sent (view (chip s))"
proof -
  let ?t = "enet_open E hw s"
  define m1 where "m1 = tx_init_loop 16 TX_AREA 0 (nmem s)"
  define m2 where "m2 = rx_init_loop 16 RX_AREA (RX_AREA + 0x100) 0 m1"
  have A: "MEM 0x2000000 = TX_AREA" "MEM (0x2000000 + 0x8000) = RX_AREA" "MEM (ucast (virt_to_phys TX_AREA)) = TX_AREA" "MEM (ucast (virt_to_phys RX_AREA)) = RX_AREA"
    by (simp_all add: MEM_def TX_AREA_def RX_AREA_def virt_to_phys_def)
  have t: "nmem ?t = m2" "ctx ?t = (ctx s)\<lparr>rx_descriptor_base := RX_AREA, rx_receive_base := RX_AREA + 0x100, rx_descriptor_rptr := 0,
     tx_descriptor_base := TX_AREA, tx_descriptor_wptr := 0, tx_buffer_base := TX_AREA + 0x100\<rparr>"
    unfolding enet_open_def tx_init_def rx_init_def Let_def A
    by (simp_all add: read_fields m2_def m1_def TX_DESCRIPTOR_NUM_def RX_DESCRIPTOR_NUM_def del: tx_init_loop.simps rx_init_loop.simps)
  have v: "view (chip ?t) = (view (chip s))\<lparr>tx_ring := TX_AREA, tx_pos := 0, rx_ring := RX_AREA, rx_pos := 0\<rparr>"
    unfolding enet_open_def tx_init_def rx_init_def Let_def A
    by (simp add: law_rings [OF law] law_writes [OF law] law_reads [OF law] A)
  have "\<not> owned TX_AREA m1 j" if "j < 16" for j using tx_init_loop_words [of 0 16 TX_AREA "nmem s"] that by (simp add: m1_def owned_def)
  moreover have rx: "rx_ready RX_AREA m2 j" if "j < 16" for j using rx_init_loop_words [of 0 16 RX_AREA m1] that by (simp add: m2_def)
  moreover have "m2 a = m1 a" if "a \<in> area TX_AREA" for a
    using rx_init_loop_words [of 0 16 RX_AREA m1] areas_disjoint that by (auto simp: m2_def simp del: rx_init_loop.simps)
  then have "ring TX_AREA m2 True 0 [] = ring TX_AREA m1 True 0 []" by (rule ring_cong(1))
  ultimately have "ring TX_AREA m2 True 0 []" "ring RX_AREA m2 False 0 []" by (simp_all add: ring_def rx_ready_def)
  then show ?thesis using t v rx by (simp add: enet_inv_def rx_ready_def)
qed

section \<open>Runs of the driver and the chip\<close>

text \<open>
  After \<^verbatim>\<open>enet_open\<close>, with a chip that has not received or sent anything, the chip and the calls of the driver follow each other in any order. The first list has, for each frame
  that \<^verbatim>\<open>enet_linkinput\<close> took from the ring, what it handed to lwIP, or \<^term>\<open>None\<close> when there was no buffer for it, the second the frames given to \<^verbatim>\<open>enet_linkoutput\<close>. That is called when the
  next descriptor is free.
\<close>

inductive enet_reach :: "'d nic \<Rightarrow> ('d \<Rightarrow> chip_view) \<Rightarrow> u8 list option list \<Rightarrow> u8 list list \<Rightarrow> 'd enet \<Rightarrow> bool" for E view where
  reach_open: "received (view (chip s)) = [] \<Longrightarrow> sent (view (chip s)) = [] \<Longrightarrow> enet_reach E view [] [] (enet_open E hw s)"
| reach_chip: "enet_reach E view dl out s \<Longrightarrow> dma E (chip s) (nmem s) = (d, m) \<Longrightarrow> enet_reach E view dl out (s\<lparr>chip := d, nmem := m\<rparr>)"
| reach_none: "enet_reach E view dl out s \<Longrightarrow> enet_linkinput pbuf_alloc s = (p, s') \<Longrightarrow> owned RX_AREA (nmem s) (rx_descriptor_rptr (ctx s))
    \<Longrightarrow> enet_reach E view dl out s'"
| reach_input: "enet_reach E view dl out s \<Longrightarrow> alloc_ok pbuf_alloc \<Longrightarrow> enet_linkinput pbuf_alloc s = (p, s') \<Longrightarrow> \<not> owned RX_AREA (nmem s) (rx_descriptor_rptr (ctx s))
    \<Longrightarrow> enet_reach E view (dl @ [map_option (pbuf_bytes (nmem s')) p]) out s'"
| reach_output: "enet_reach E view dl out s \<Longrightarrow> \<not> owned TX_AREA (nmem s) (tx_descriptor_wptr (ctx s)) \<Longrightarrow> pbuf_len p = unat tot_len \<Longrightarrow> unat tot_len \<le> MTU
    \<Longrightarrow> pbuf_region p \<inter> area TX_AREA = {} \<Longrightarrow> enet_linkoutput E p tot_len s = Some s' \<Longrightarrow> enet_reach E view dl (out @ [pbuf_bytes (nmem s) p]) s'"

definition in_order :: "chip_view \<Rightarrow> u8 list option list \<Rightarrow> u8 list list \<Rightarrow> u8 list list \<Rightarrow> u8 list list \<Rightarrow> bool" where
  "in_order v dl out pend q \<longleftrightarrow> (\<exists>taken. received v = taken @ pend \<and> list_all2 (\<lambda>x f. x = None \<or> x = Some f) dl taken) \<and> out = sent v @ q"

lemma reach_inv:
  assumes law: "nic_law E view" and reach: "enet_reach E view dl out s"
  shows "\<exists>pend q. enet_inv (ctx s) (view (chip s)) (nmem s) pend q \<and> in_order (view (chip s)) dl out pend q"
  using reach
proof (induction rule: enet_reach.induct)
  case (reach_open s hw)
  with enet_open_inv [OF law, of hw s] show ?case by (intro exI [of _ "[]"]) (simp add: in_order_def)
next
  case (reach_chip dl out s d m)
  then obtain pend q where i: "enet_inv (ctx s) (view (chip s)) (nmem s) pend q" "in_order (view (chip s)) dl out pend q" by blast
  have "chip_runs (view (chip s), nmem s) (view d, m)" using law reach_chip.hyps(2) unfolding nic_law_def by (metis case_prod_conv)
  from runs_inv [OF this, of "ctx s" pend q] i(1) obtain new k where
    n: "enet_inv (ctx s) (view d) m (pend @ new) (drop k q)" "received (view d) = received (view (chip s)) @ new" "sent (view d) = sent (view (chip s)) @ take k q" by auto
  then have "in_order (view d) dl out (pend @ new) (drop k q)" using i(2) by (auto simp: in_order_def)
  with n(1) show ?case by auto
next
  case (reach_none dl out s pbuf_alloc p s')
  then obtain pend q where i: "enet_inv (ctx s) (view (chip s)) (nmem s) pend q" "in_order (view (chip s)) dl out pend q" by blast
  then have "pend = []" using ring_first [of RX_AREA "nmem s" False "rx_descriptor_rptr (ctx s)" pend] reach_none.hyps(3) by (auto simp: enet_inv_def split: if_splits)
  then have "s' = s" using linkinput_empty [of s "view (chip s)" q pbuf_alloc] i(1) reach_none.hyps(2) by simp
  with i show ?case by blast
next
  case (reach_input dl out s pbuf_alloc p s')
  then obtain pend q where i: "enet_inv (ctx s) (view (chip s)) (nmem s) pend q" "in_order (view (chip s)) dl out pend q" by blast
  then have "pend \<noteq> []" using ring_first [of RX_AREA "nmem s" False "rx_descriptor_rptr (ctx s)" pend] reach_input.hyps(4) by (auto simp: enet_inv_def split: if_splits)
  then obtain f fs where pend: "pend = f # fs" by (cases pend) auto
  have r: "enet_inv (ctx s') (view (chip s)) (nmem s') fs q" "chip s' = chip s" "\<forall>c. p = Some c \<longrightarrow> pbuf_bytes (nmem s') c = f"
    using linkinput_frame [OF _ reach_input.hyps(2,3), of "view (chip s)" f fs q] i(1) pend by auto
  obtain taken where t: "received (view (chip s)) = taken @ pend" "list_all2 (\<lambda>x f. x = None \<or> x = Some f) dl taken" "out = sent (view (chip s)) @ q"
    using i(2) by (auto simp: in_order_def)
  have "list_all2 (\<lambda>x f. x = None \<or> x = Some f) (dl @ [map_option (pbuf_bytes (nmem s')) p]) (taken @ [f])"
    using t(2) r(3) by (cases p) (auto intro!: list_all2_appendI)
  then have "in_order (view (chip s)) (dl @ [map_option (pbuf_bytes (nmem s')) p]) out fs q"
    using t(1,3) pend unfolding in_order_def by (intro conjI exI [of _ "taken @ [f]"]) auto
  with r(1,2) show ?case by auto
next
  case (reach_output dl out s p tot_len s')
  then obtain pend q where i: "enet_inv (ctx s) (view (chip s)) (nmem s) pend q" "in_order (view (chip s)) dl out pend q" by blast
  have len: "length q < 16"
    using ring_free [of TX_AREA "nmem s" True "tx_pos (view (chip s))" q] reach_output.hyps(2) i(1) by (auto simp: enet_inv_def split: if_splits)
  obtain new k where o: "enet_inv (ctx s') (view (chip s')) (nmem s') (pend @ new) (drop k q @ [pbuf_bytes (nmem s) p])"
    "received (view (chip s')) = received (view (chip s)) @ new" "sent (view (chip s')) = sent (view (chip s)) @ take k q"
    using linkoutput_inv [OF law i(1) len reach_output.hyps(3)] reach_output.hyps(4-6) by (auto simp: MTU_def)
  then have "in_order (view (chip s')) dl (out @ [pbuf_bytes (nmem s) p]) (pend @ new) (drop k q @ [pbuf_bytes (nmem s) p])"
    using i(2) by (auto simp: in_order_def)
  with o(1) show ?case by blast
qed


text \<open>C31: In every run, as long as a received frame has not been handed over, \<^verbatim>\<open>enet_linkinput\<close> takes the next one and hands it over if there is a buffer, and
  \<^verbatim>\<open>enet_linkoutput\<close> returns when the next descriptor is free.\<close>

theorem enet_serves:
  assumes "nic_law E view" "enet_reach E view dl out s"
  shows "(length dl < length (received (view (chip s))) \<longrightarrow> (\<forall>pbuf_alloc p s'. alloc_ok pbuf_alloc \<longrightarrow> enet_linkinput pbuf_alloc s = (p, s') \<longrightarrow>
      (let f = received (view (chip s)) ! length dl in p = pbuf_alloc (of_nat (length f)) \<and> (\<forall>c. p = Some c \<longrightarrow> pbuf_bytes (nmem s') c = f))))
    \<and> (\<not> owned TX_AREA (nmem s) (tx_descriptor_wptr (ctx s)) \<longrightarrow> (\<forall>p tot_len. pbuf_len p = unat tot_len \<longrightarrow> unat tot_len \<le> MTU \<longrightarrow>
      pbuf_region p \<inter> area TX_AREA = {} \<longrightarrow> (\<exists>s'. enet_linkoutput E p tot_len s = Some s')))"
proof -
  obtain pend q where i: "enet_inv (ctx s) (view (chip s)) (nmem s) pend q" "in_order (view (chip s)) dl out pend q" using reach_inv [OF assms] by blast
  then obtain taken where t: "received (view (chip s)) = taken @ pend" and "list_all2 (\<lambda>x f. x = None \<or> x = Some f) dl taken" unfolding in_order_def by blast
  then have tl: "length taken = length dl" by (simp add: list_all2_lengthD)
  have 1: "p = pbuf_alloc (of_nat (length f)) \<and> (\<forall>c. p = Some c \<longrightarrow> pbuf_bytes (nmem s') c = f)"
    if a: "length dl < length (received (view (chip s)))" "alloc_ok pbuf_alloc" "enet_linkinput pbuf_alloc s = (p, s')" "f = received (view (chip s)) ! length dl" for pbuf_alloc p s' f
  proof -
    obtain fs where "pend = f # fs" using a(1,4) t tl by (cases pend) (auto simp: nth_append)
    with i(1) have "enet_inv (ctx s) (view (chip s)) (nmem s) (f # fs) q" by simp
    from linkinput_frame [OF this a(2,3)] show ?thesis by blast
  qed
  have 2: "\<exists>s'. enet_linkoutput E p tot_len s = Some s'"
    if "\<not> owned TX_AREA (nmem s) (tx_descriptor_wptr (ctx s))" "pbuf_len p = unat tot_len" "unat tot_len \<le> MTU" "pbuf_region p \<inter> area TX_AREA = {}" for p tot_len
  proof -
    have "length q < 16"
      using ring_free [of TX_AREA "nmem s" True "tx_pos (view (chip s))" q] that(1) i(1) by (auto simp: enet_inv_def split: if_splits)
    from linkoutput_inv [OF assms(1) i(1) this that(2)] that(3,4) show ?thesis by (auto simp: MTU_def)
  qed
  show ?thesis unfolding Let_def using 1 2 by (intro conjI allI impI) simp_all
qed

text \<open>
  When the ring is full, the frame is copied before the driver waits for the descriptor: the oldest frame, which the chip has not sent yet, is overwritten.
\<close>

lemma full_ring_overwritten:
  assumes inv: "enet_inv (ctx s) v (nmem s) pend q" and full: "length q = 16" and p: "pbuf_len p \<le> 1528" "pbuf_region p \<inter> area TX_AREA = {}"
  defines "m' \<equiv> gather_chain p (tx_buffer_base (ctx s) + of_nat (tx_descriptor_wptr (ctx s) * MTU)) (nmem s)"
  shows "owned TX_AREA m' (tx_pos v) \<and> load_list m' (buf TX_AREA (tx_pos v)) (pbuf_len p) = pbuf_bytes (nmem s) p"
proof -
  let ?B = TX_AREA and ?w = "tx_pos v"
  have w: "tx_descriptor_wptr (ctx s) = ?w" "?w < 16" and ring: "ring ?B (nmem s) True ?w q" and b: "tx_buffer_base (ctx s) = ?B + 0x100"
    using inv full by (auto simp: enet_inv_def ring_def)
  have m': "m' = gather_chain p (buf ?B ?w) (nmem s)" unfolding m'_def w(1) b tx_buffer ..
  have sub: "region (buf ?B ?w) (pbuf_len p) \<subseteq> region (buf ?B ?w) 1528" using region_mono p(1) by simp
  have "pbuf_region p \<inter> region (buf ?B ?w) (pbuf_len p) = {}" using sub slot_area [OF w(2), of ?B] p(2) by (auto simp: slot_bytes_def)
  then have g: "load_list m' (buf ?B ?w) (pbuf_len p) = pbuf_bytes (nmem s) p" "\<And>a. a \<notin> region (buf ?B ?w) 1528 \<Longrightarrow> m' a = nmem s a"
    using gather_chain_bytes [of p "buf ?B ?w" "nmem s"] sub p(1) unfolding m' by auto
  have "dword ?B m' ?w 1 = dword ?B (nmem s) ?w 1"
    using g(2) buffer_descr_disjoint [OF w(2) w(2), of ?B] by (intro dword_cong [OF w(2)]) auto
  moreover have "owned ?B (nmem s) ?w" using ring_first [OF ring] full by auto
  ultimately show ?thesis using g(1) by (simp add: owned_def)
qed

section \<open>A small chip\<close>

text \<open>It receives one frame of three bytes as soon as it can.\<close>

definition demo_receive :: "chip_view \<Rightarrow> mem \<Rightarrow> mem" where
  "demo_receive d m = (let p = rx_pos d
     in store_be32 (descr RX_AREA p 1) 0 (store_be32 (descr RX_AREA p 0) (swap32 3) (store_list m (buf RX_AREA p) [1, 2, 3])))"

definition demo_ready :: "chip_view \<Rightarrow> mem \<Rightarrow> bool" where
  "demo_ready d m \<longleftrightarrow> received d = [] \<and> rx_ring d = RX_AREA \<and> rx_pos d < 16 \<and> rx_ready RX_AREA m (rx_pos d)"

definition demo_nic :: "chip_view nic" where
  "demo_nic = \<lparr>reg_load = \<lambda>a d. (0, d),
     reg_store = \<lambda>a v d. (if a = 0x80000200ea001404 then d\<lparr>tx_ring := MEM (ucast (swap32 v)), tx_pos := 0\<rparr>
        else if a = 0x80000200ea001414 then d\<lparr>rx_ring := MEM (ucast (swap32 v)), rx_pos := 0\<rparr> else d),
     dma = \<lambda>d m. if demo_ready d m then (d\<lparr>rx_pos := next_pos RX_AREA m (rx_pos d), received := [[1, 2, 3]]\<rparr>, demo_receive d m) else (d, m)\<rparr>"

definition demo_alloc :: "u32 \<Rightarrow> pbuf option" where
  "demo_alloc n = (if n \<le> 1528 then Some [(0x1000, ucast n)] else None)"

lemma demo_nic_law: "nic_law demo_nic id"
proof -
  have "chip_receives [1, 2, 3] (d, m) (d\<lparr>rx_pos := next_pos RX_AREA m (rx_pos d), received := [[1, 2, 3]]\<rparr>, demo_receive d m)" if r: "demo_ready d m" for d m
  proof -
    let ?B = RX_AREA and ?p = "rx_pos d" and ?m = "demo_receive d m"
    have p: "?p < 16" "rx_ring d = ?B" "received d = []" and rd: "owned ?B m ?p" "desc_ok ?B m ?p" "dword ?B m ?p 3 AND 0xFFFF = 1528"
      using r by (auto simp: demo_ready_def rx_ready_def)
    have a: "MEM (ucast (dword ?B m ?p 2)) = buf ?B ?p" using rd(2) MEM_phys [OF p(1)] by (simp add: desc_ok_def)
    have dw: "dword ?B ?m ?p 0 = 3" "dword ?B ?m ?p 1 = 0"
      using p(1) unfolding demo_receive_def Let_def by (simp_all add: dword_store) (simp add: swap32_def)
    have d8: "region (descr ?B ?p 0) 4 \<subseteq> region (descr ?B ?p 0) 8" "region (descr ?B ?p 1) 4 \<subseteq> region (descr ?B ?p 0) 8"
      using region_mono [of 4 8 "descr ?B ?p 0"] region_sub [of 4 4 8 "descr ?B ?p 0"] by (simp_all add: descr_def algebra_simps)
    have out: "?m b = m b" if "b \<notin> region (buf ?B ?p) 3" "b \<notin> region (descr ?B ?p 0) 8" for b
    proof -
      have "b \<notin> region (descr ?B ?p 0) 4" "b \<notin> region (descr ?B ?p 1) 4" using d8 that by blast+
      then show ?thesis using that(1) store_list_other [of b "buf ?B ?p" "[1, 2, 3]" m]
        unfolding demo_receive_def Let_def by (simp add: store_be32_other numeral_3_eq_3 del: store_list.simps)
    qed
    have "region (buf ?B ?p) 3 \<inter> region (descr ?B ?p k) 4 = {}" if "k < 4" for k
      using buffer_descr_disjoint [OF p(1) p(1), of ?B] descr_region [OF that, of ?B ?p] region_mono [of 3 1528 "buf ?B ?p"] by auto
    then have "load_list ?m (buf ?B ?p) 3 = load_list (store_list m (buf ?B ?p) [1, 2, 3]) (buf ?B ?p) 3"
      unfolding demo_receive_def Let_def by (intro load_list_cong) (metis (no_types) disjoint_iff one_less_numeral_iff semiring_norm(76) store_be32_other zero_less_numeral)
    also have "\<dots> = [1, 2, 3]" using load_store_list [of "[1, 2, 3]" m "buf ?B ?p"] by (simp add: numeral_3_eq_3 del: store_list.simps load_list.simps)
    finally have ll: "load_list ?m (buf ?B ?p) 3 = [1, 2, 3]" .
    show ?thesis unfolding chip_receives_def using p rd dw ll out by (simp add: a Let_def owned_def numeral_3_eq_3)
  qed
  then have "chip_runs (d, m) (d\<lparr>rx_pos := next_pos RX_AREA m (rx_pos d), received := [[1, 2, 3]]\<rparr>, demo_receive d m)" if "demo_ready d m" for d m
    using that chip_receive [OF chip_idle] by blast
  then show ?thesis by (simp add: nic_law_def demo_nic_def chip_idle)
qed

lemma demo_alloc_ok: "alloc_ok demo_alloc"
proof -
  have "unat (ucast n :: u16) = unat n \<and> unat n \<le> 1528" if "n \<le> 1528" for n :: u32
    using that by (simp add: word_le_nat_alt unsigned_ucast_eq take_bit_nat_eq_self)
  moreover have "region (0x1000 :: addr) k \<inter> (area RX_AREA \<union> area TX_AREA) = {}" if "k \<le> 1528" for k
    using that region_disjoint_nat(1) [of "0x1000" k RX_AREA "0x6080"] region_disjoint_nat(1) [of "0x1000" k TX_AREA "0x6080"]
    by (simp add: area_def RX_AREA_def TX_AREA_def Int_Un_distrib)
  ultimately show ?thesis by (auto simp: alloc_ok_def demo_alloc_def)
qed

definition demo_open :: "chip_view enet" where
  "demo_open = enet_open demo_nic [0, 1, 0x30, 0x44, 0x55, 0x66]
     \<lparr>ctx = \<lparr>rx_descriptor_base = 0, rx_receive_base = 0, rx_descriptor_rptr = 0, tx_descriptor_base = 0, tx_descriptor_wptr = 0, tx_buffer_base = 0\<rparr>,
      nmem = \<lambda>_. 0, chip = \<lparr>tx_ring = 0, rx_ring = 0, tx_pos = 0, rx_pos = 0, received = [], sent = []\<rparr>\<rparr>"

definition demo_run :: "chip_view enet" where
  "demo_run = (case dma demo_nic (chip demo_open) (nmem demo_open) of (d, m) \<Rightarrow> demo_open\<lparr>chip := d, nmem := m\<rparr>)"

lemma demo_reach: "enet_reach demo_nic id [] [] demo_run" "received (chip demo_run) = [[1, 2, 3]]"
proof -
  let ?s = demo_open
  have o: "enet_inv (ctx ?s) (chip ?s) (nmem ?s) [] []" "received (chip ?s) = []" using enet_open_inv [OF demo_nic_law] by (simp_all add: demo_open_def)
  have p: "rx_pos (chip ?s) = rx_descriptor_rptr (ctx ?s)" "rx_descriptor_rptr (ctx ?s) < 16" using o(1) by (simp_all add: enet_inv_def ring_def)
  have "owned RX_AREA (nmem ?s) (rx_pos (chip ?s))" using ring_first [of RX_AREA "nmem ?s" False "rx_pos (chip ?s)" "[]"] o(1) p(1) by (simp add: enet_inv_def)
  then have "demo_ready (chip ?s) (nmem ?s)" using o p by (simp add: demo_ready_def rx_ready_def enet_inv_def)
  then have d: "dma demo_nic (chip ?s) (nmem ?s) = ((chip ?s)\<lparr>rx_pos := next_pos RX_AREA (nmem ?s) (rx_pos (chip ?s)), received := [[1, 2, 3]]\<rparr>, demo_receive (chip ?s) (nmem ?s))"
    by (simp add: demo_nic_def)
  have "enet_reach demo_nic id [] [] ?s" unfolding demo_open_def by (rule reach_open) simp_all
  from reach_chip [OF this d] show "enet_reach demo_nic id [] [] demo_run" by (simp add: demo_run_def d)
  show "received (chip demo_run) = [[1, 2, 3]]" by (simp add: demo_run_def d)
qed

lemma demo_waiting: "\<not> owned RX_AREA (nmem demo_run) (rx_descriptor_rptr (ctx demo_run))" "\<not> owned TX_AREA (nmem demo_run) (tx_descriptor_wptr (ctx demo_run))"
  and demo_taken: "enet_linkinput demo_alloc demo_run = (p, s') \<Longrightarrow> p = Some [(0x1000, 3)] \<and> chip s' = chip demo_run"
proof -
  obtain pend q where i: "enet_inv (ctx demo_run) (chip demo_run) (nmem demo_run) pend q" "in_order (chip demo_run) [] [] pend q"
    using reach_inv [OF demo_nic_law demo_reach(1)] by auto
  then have pq: "pend = [[1, 2, 3]]" "q = []" using demo_reach(2) by (auto simp: in_order_def)
  show "\<not> owned RX_AREA (nmem demo_run) (rx_descriptor_rptr (ctx demo_run))"
    using ring_first [of RX_AREA "nmem demo_run" False "rx_descriptor_rptr (ctx demo_run)" pend] i(1) pq by (simp add: enet_inv_def)
  show "\<not> owned TX_AREA (nmem demo_run) (tx_descriptor_wptr (ctx demo_run))"
    using ring_free [of TX_AREA "nmem demo_run" True "tx_pos (chip demo_run)" q] i(1) pq by (simp add: enet_inv_def)
  assume "enet_linkinput demo_alloc demo_run = (p, s')"
  from linkinput_frame [OF i(1) [unfolded pq] demo_alloc_ok this] show "p = Some [(0x1000, 3)] \<and> chip s' = chip demo_run"
    by (simp add: demo_alloc_def)
qed


theorem enet_serves_witness:
  "(\<exists>s'. enet_linkinput demo_alloc demo_run = (Some [(0x1000, 3)], s') \<and> load_list (nmem s') 0x1000 3 = [1, 2, 3])
    \<and> (\<exists>s'. enet_linkoutput demo_nic [(0x1000, 60)] 60 demo_run = Some s')"
proof -
  obtain p s' where l: "enet_linkinput demo_alloc demo_run = (p, s')" by force
  note t = demo_taken [OF l]
  have dj: "pbuf_region [(0x1000, 60)] \<inter> area TX_AREA = {}"
    using region_disjoint_nat(1) [of "0x1000" 60 TX_AREA "0x6080"] by (simp add: area_def TX_AREA_def)
  note e = enet_serves [OF demo_nic_law demo_reach(1)]
  have "load_list (nmem s') 0x1000 3 = [1, 2, 3]"
    using conjunct1 [OF e] demo_alloc_ok l t demo_reach(2) by (auto simp: Let_def simp del: load_list.simps)
  moreover have "\<exists>s'. enet_linkoutput demo_nic [(0x1000, 60)] 60 demo_run = Some s'"
    using conjunct2 [OF e] demo_waiting(2) dj by (simp add: MTU_def)
  ultimately show ?thesis using l t by blast
qed

end
