(* ===== verification/Spec2Isabelle.thy ===== *)
theory Spec2Isabelle
  imports Xell_Prelude Xell_Ctype Xell_String Xell_Vsprintf Xell_Queue Xell_Malloc Xell_Fat_Files Xell_Mount Xell_Time Xell_Diskio Xell_Inet Xell_Tftp
    Xell_Httpd_Pages Xell_Cdrom Xell_Flash Xell_Update Xell_Elf Xell_Boot Xell_Usb_Boot Xell_Smc Xell_Network Xell_Console Xell_Enet
begin

text \<open>
  XeLL, the Xenon Linux Loader (\<^verbatim>\<open>src/\<close>), brings up the Xbox 360 processor and starts an image from a USB disk, from the network or from
  a DVD; it can also update itself in flash, and serves web pages when nothing could be booted. This development models its own C code
  and proves it correct, up to the errors the findings name.

  \<^bold>\<open>Parts and how they interact.\<close> \<^verbatim>\<open>main.c\<close> places jumps into the exception vectors, waits for the six processors, dumps the
  fuses, and then tries its boot methods in turn: the FAT file system (\<^verbatim>\<open>fat.c\<close>) on the first block device (\<^verbatim>\<open>diskio.c\<close>) that the USB stack
  registers, the TFTP client (\<^verbatim>\<open>tftp.c\<close>) on the lwIP stack that \<^verbatim>\<open>network.c\<close> polls and whose frames the chip driver (\<^verbatim>\<open>enet.c\<close>) carries, and the ISO 9660 loader (\<^verbatim>\<open>cdrom.c\<close>). Each
  puts a file at \<open>LOADER_RAW\<close> and calls the ELF loader of \<^verbatim>\<open>main.c\<close>. A file \<^verbatim>\<open>updxell.bin\<close> goes through \<^verbatim>\<open>update_xell_flash\<close> and the flash
  driver (\<^verbatim>\<open>flash.c\<close>) instead. Below them are the C library (\<^verbatim>\<open>ctype.c\<close>, \<^verbatim>\<open>string.c\<close>, \<^verbatim>\<open>vsprintf.c\<close>, \<^verbatim>\<open>time.c\<close>), the heap
  and the queues of the USB stack (\<^verbatim>\<open>nocfe/\<close>), the checksum and address functions of lwIP (\<^verbatim>\<open>lwip/core/inet.c\<close>) and the messages to the
  system management controller (\<^verbatim>\<open>xenon_smc.c\<close>). What is printed goes to the serial port and to a text console on the frame buffer (\<^verbatim>\<open>xenos.c\<close>).

  \<^bold>\<open>Conventions.\<close> \<^verbatim>\<open>Xell_Prelude\<close>: memory is a function from 64-bit addresses to bytes, big-endian as the machine; machine integers
  are words, and C \<^verbatim>\<open>int\<close>s are integers where they cannot leave their 32 bits or are wrapped by \<open>s32\<close>. Read-only strings are byte lists.
  Hardware and code outside the modelled files (drives, the flash controller, the system management controller, the USB and network stacks) are parameters:
  records of functions on a state of any type, with what the code relies on as a named predicate (\<open>cd_drive\<close>, \<open>ready_law\<close>, \<open>smc_law\<close>,
  \<open>uart_law\<close>, \<open>nic_law\<close>, \<open>good_dev\<close>), and with a concrete instance in the witnesses. Loops that need not end are \<^verbatim>\<open>partial_function (option)\<close>, and the theorems about them show
  that they return; all other loops have termination proofs. Messages to the console are left out unless they are the point.

  \<^bold>\<open>Theories.\<close>
  \<^item> \<^verbatim>\<open>Xell_Ctype\<close> (\<^verbatim>\<open>ctype.c\<close>): the table of character classes and the conversions; each class as a range of codes.
  \<^item> \<^verbatim>\<open>Xell_String\<close> (\<^verbatim>\<open>string.c\<close>): copying, comparing, searching and splitting on byte memory, overlapping regions included; what
    \<^verbatim>\<open>memcpy\<close>, \<^verbatim>\<open>strcmp\<close>, \<^verbatim>\<open>strsep\<close> and \<^verbatim>\<open>strtok\<close> do to strings.
  \<^item> \<^verbatim>\<open>Xell_Vsprintf\<close> (\<^verbatim>\<open>vsprintf.c\<close>): number parsing and formatted output; the layout and width of a printed number, and that parsing reads
    back what was printed.
  \<^item> \<^verbatim>\<open>Xell_Queue\<close> (\<^verbatim>\<open>nocfe/lib_queue.c\<close>): circular doubly linked lists in memory refine lists; interface as a locale.
  \<^item> \<^verbatim>\<open>Xell_Malloc\<close> (\<^verbatim>\<open>nocfe/lib_malloc.c\<close>): the heap with its headers in memory; blocks are aligned, large enough and disjoint, freeing everything
    restores the pool (through a locale of allocators), statistics add up, and a size near \<open>2 ^ 32\<close> wraps.
  \<^item> \<^verbatim>\<open>Xell_Time\<close> (\<^verbatim>\<open>time.c\<close>): readings of the time base, differences, delays that return.
  \<^item> \<^verbatim>\<open>Xell_Diskio\<close> (\<^verbatim>\<open>diskio.c\<close>): the registry of block devices.
  \<^item> \<^verbatim>\<open>Xell_Fat\<close>, \<^verbatim>\<open>Xell_Fat_Files\<close> (\<^verbatim>\<open>fat.c\<close>): the operations, and that reads deliver the bytes of the disk, table entries are those of the format,
    paths lead to files, and files are read along their clusters. \<^verbatim>\<open>Xell_Mount\<close>: what \<^verbatim>\<open>fat_init\<close> makes of a disk, with or without a partition
    table, and that it establishes what the other routines rely on.
  \<^item> \<^verbatim>\<open>Xell_Inet\<close> (\<^verbatim>\<open>lwip/core/inet.c\<close>): the Internet checksum over chained buffers, and addresses in dotted notation.
  \<^item> \<^verbatim>\<open>Xell_Tftp\<close> (\<^verbatim>\<open>tftp.c\<close>): receive handler, timeouts and the transfer loop over rounds of the network; the image after a transfer.
  \<^item> \<^verbatim>\<open>Xell_Httpd\<close>, \<^verbatim>\<open>Xell_Httpd_Stream\<close>, \<^verbatim>\<open>Xell_Httpd_Pages\<close> (\<^verbatim>\<open>httpd/\<close>): the server as a state machine driven by the callbacks of the TCP
    stack; the ring buffer as a byte queue (locale \<open>byte_queue\<close>), the invariant of a connection under every callback (relation \<open>conn_step\<close>), and
    the pages that are sent.
  \<^item> \<^verbatim>\<open>Xell_Cdrom\<close> (\<^verbatim>\<open>cdrom.c\<close>): registers, packet commands with their error codes, retries, directories, loading; a file of the root
    directory is loaded completely.
  \<^item> \<^verbatim>\<open>Xell_Flash\<close> (\<^verbatim>\<open>flash.c\<close>) and \<^verbatim>\<open>Xell_Update\<close> (\<^verbatim>\<open>update_xell_flash\<close>): the driver with the sequence of its register stores as part of the
    state; the code as a linear shift register that detects bursts of 26 bits, and the erase and program operations of an update.
  \<^item> \<^verbatim>\<open>Xell_Elf\<close> (\<^verbatim>\<open>main.c\<close>): the ELF loader, \<^verbatim>\<open>execute_elf_at\<close>, processors and vectors.
  \<^item> \<^verbatim>\<open>Xell_Smc\<close> (\<^verbatim>\<open>xenon_smc.c\<close>): messages and answers.
  \<^item> \<^verbatim>\<open>Xell_Network\<close> (\<^verbatim>\<open>network.c\<close>): timers, the address and the boot names.
  \<^item> \<^verbatim>\<open>Xell_Words\<close>: words and blocks at offsets from a base; \<^verbatim>\<open>Xell_Console\<close> (\<^verbatim>\<open>xenos.c\<close> and the serial port of \<^verbatim>\<open>main.c\<close>): the frame buffer in
    tiles refines a plane of pixels (locale \<open>console_ops\<close>), and what was printed before the initialisation appears after it.
  \<^item> \<^verbatim>\<open>Xell_Enet\<close> (\<^verbatim>\<open>lwip/arch/xenon/netif/enet.c\<close>): the driver of the network chip, with the rings of descriptors in memory; driver and chip as a transition
    system (relation \<open>enet_reach\<close>) in which frames stay in order and unchanged in both directions.
  \<^item> \<^verbatim>\<open>Xell_Boot\<close> (\<^verbatim>\<open>main.c\<close>): the dump of the fuses, and the boot methods composed of the file systems and the ELF loader. \<^verbatim>\<open>Xell_Usb_Boot\<close>: what
    \<^verbatim>\<open>main\<close> does with the USB disk it found, from mounting to the start of a kernel or the update of the flash. The three theorems that
    span the most components stand below: a file on a FAT disk or on a DVD ends up running, or in flash.

  \<^bold>\<open>Bounds.\<close> \<open>read_sector_retry\<close> counts the ten attempts of the source; the loops over pages, blocks, fuse sets and words take the number of
  rounds of the source as their first argument. Sizes of files on a DVD are below \<open>2 ^ 31 - 0x800\<close>, where the rounding of the
  source does not overflow.

  \<^bold>\<open>Not modelled.\<close> The assembly files, \<^verbatim>\<open>start\<close> and the rest of \<^verbatim>\<open>main\<close> (hardware initialisation, waiting for USB and polling), the tables of the video hardware and the font, the
  generated web pages, the empty stubs of \<^verbatim>\<open>nocfe/lib_physio.c\<close>, the third-party USB host stack with its drivers, and the lwIP stack with PPP except
  \<^verbatim>\<open>inet.c\<close> and the driver of the chip. Of \<^verbatim>\<open>string.c\<close> the routines that the preprocessor takes out are not.
\<close>

section \<open>Booting\<close>

text \<open>C2: Booting from a USB disk. When the disk, or its first partition, is a complete FAT volume on a working drive, its directories lead
  to a file \<^verbatim>\<open>xenon.elf\<close> and the clusters of that file begin with an ELF image, \<^verbatim>\<open>main\<close> mounts the disk, finds and reads the file and starts it:
  every section with memory is in its place, the other processors are released to the entry point, \<^verbatim>\<open>jump\<close> gets the entry point and the device
  tree, and nothing was stored to the flash controller.\<close>

theorem usb_boot_starts:
  assumes "usb_ready E d disk nsec p s" and "volume_fs d disk p v"
    and "path_to disk nsec v 0 (bytes ''xenon.elf'') c sz" and "cluster_bytes disk nsec v c bs"
    and "elf_image (store_list m0 LOADER_RAW bs) LOADER_RAW n" "n \<le> length bs" "n \<le> 0x1000000" "length bs \<le> 2 ^ 64"
  shows "\<exists>r s'. boot_usb E F hdr block dt (Some d) s fl = Some (Starts r, s', fl) \<and> starts dt (store_list m0 LOADER_RAW bs) LOADER_RAW r"
  by (rule usb_boot_facts [OF assms])

theorem usb_boot_starts_witness:
  "\<exists>hold args m' s'. boot_usb (demo_env (usb_disk (bytes ''XENON   ELF'') elf_disk)) small_sfcx 0x1000 0x2000 0x80000000 (Some ()) demo_fs
      \<lparr>flmem = \<lambda>_. 0, sfc = 0, stores = []\<rparr> = Some (Starts (hold, args, m'), s', \<lparr>flmem = \<lambda>_. 0, sfc = 0, stores = []\<rparr>) \<and>
     hold = 0x8000000000001060 \<and> load_list m' 0x8000000000001000 4 = [0x60, 0, 0, 0]"
proof -
  have img: "elf_image (store_list (\<lambda>_. 0) LOADER_RAW elf_file) LOADER_RAW 96"
    using elf_image_same(1) [OF small_elf_stored small_elf_image] elf_file by simp
  have p: "parse_component (bytes ''xenon.elf'') = (bytes ''XENON   ELF'', [])" by code_simp
  have path: "path_to (usb_disk (bytes ''XENON   ELF'') elf_disk) 16 demo_fs 0 (bytes ''xenon.elf'') 2 1500"
    by (rule usb_path [OF p]) (simp_all add: bytes_def elf_disk_low)
  obtain hold args m' s' where r: "boot_usb (demo_env (usb_disk (bytes ''XENON   ELF'') elf_disk)) small_sfcx 0x1000 0x2000 0x80000000 (Some ()) demo_fs
      \<lparr>flmem = \<lambda>_. 0, sfc = 0, stores = []\<rparr> = Some (Starts (hold, args, m'), s', \<lparr>flmem = \<lambda>_. 0, sfc = 0, stores = []\<rparr>)"
    "starts 0x80000000 (store_list (\<lambda>_. 0) LOADER_RAW elf_file) LOADER_RAW (hold, args, m')"
    using usb_boot_starts [OF usb_demo_ready usb_volume path usb_file [OF elf_next] img, of small_sfcx "0x1000" "0x2000" "0x80000000" "\<lparr>flmem = \<lambda>_. 0, sfc = 0, stores = []\<rparr>"] elf_file(1) by auto
  have "length elf_file \<le> 2 ^ 64" unfolding elf_file(1) by simp
  from small_starts [OF elf_file(2) this r(2)] r(1) show ?thesis by blast
qed



text \<open>C4: booting from a DVD. With a drive that follows the packet protocol, and a disc with a file of the given name, or \<^verbatim>\<open>vmlinux\<close>, in
  its root directory that is an ELF image, the image is loaded and started.\<close>

theorem cdrom_boot_starts:
  assumes "cd_drive E ph busy ans disc" and "iso_disc disc rss"
    and "length (ans (packet_words [0xE7, 0x48, 0x49, 0x54, 0x30, 0x90, 0x90, 0xd0, 0x01, 0, 0, 0])) = 12"
    and "iso_lookup rss (case fname of None \<Rightarrow> bytes ''vmlinux'' | Some f \<Rightarrow> f) = Some r"
    and "0 \<le> sint (rec_size r)" and "sint (rec_size r) < 2 ^ 31 - 0x800"
    and "elf_image (store_list m0 LOADER_RAW (sectors disc (rec_lba r) (n_sectors (sint (rec_size r))))) LOADER_RAW n"
    and "int n \<le> sint (rec_size r)"
  shows "\<exists>x s'. boot_cdrom E dt fname s = Some (Some x, s') \<and>
    starts dt (store_list m0 LOADER_RAW (sectors disc (rec_lba r) (n_sectors (sint (rec_size r))))) LOADER_RAW x"
  by (rule cdrom_boot_facts [OF assms])

theorem cdrom_boot_starts_witness:
  "\<exists>hold args m' s'. boot_cdrom (small_drive elf_disc) 0x80000000 None \<lparr>cmem = \<lambda>_. 7, drive = (Answer [], 0), ticks = 0\<rparr> = Some (Some (hold, args, m'), s') \<and>
     hold = 0x8000000000001060 \<and> load_list m' 0x8000000000001000 4 = [0x60, 0, 0, 0]"
proof -
  let ?r = "dir_record 21 3000 (bytes ''VMLINUX.;1'')"
  let ?b = "sectors elf_disc (rec_lba ?r) (n_sectors (sint (rec_size ?r)))"
  have c: "cd_drive (small_drive elf_disc) fst snd (cdb_answer elf_disc) elf_disc"
    by (rule small_drive_ok) (rule elf_disc_length)
  have fields: "rec_lba ?r = 21" "sint (rec_size ?r) = 3000" by (simp_all only: dir_record_fields) simp
  have mode: "length (cdb_answer elf_disc (packet_words [0xE7, 0x48, 0x49, 0x54, 0x30, 0x90, 0x90, 0xd0, 0x01, 0, 0, 0])) = 12"
    by (simp add: cdb_answer_def packet_words_def packet_word_def be32_bytes_be32)
  have b: "take 96 ?b = small_elf" "length ?b \<le> 2 ^ 64"
  proof -
    show "take 96 ?b = small_elf"
      by (simp add: fields n_sectors_def sectors_def elf_disc_def padded_def length_small_elf numeral_2_eq_2)
    show "length ?b \<le> 2 ^ 64"
      unfolding fields length_sectors [of elf_disc "0x800", OF elf_disc_length] by (simp add: n_sectors_def)
  qed
  have img: "elf_image (store_list (\<lambda>_. 0) LOADER_RAW ?b) LOADER_RAW 96"
    by (rule elf_image_same(1) [OF small_elf_stored [OF b] small_elf_image])
  obtain hold args m' s' where r: "boot_cdrom (small_drive elf_disc) 0x80000000 None \<lparr>cmem = \<lambda>_. 7, drive = (Answer [], 0), ticks = 0\<rparr> = Some (Some (hold, args, m'), s')"
    "starts 0x80000000 (store_list (\<lambda>_. 0) LOADER_RAW ?b) LOADER_RAW (hold, args, m')"
    using cdrom_boot_starts [OF c elf_disc_iso mode _ _ _ img, of None "0x80000000" "\<lparr>cmem = \<lambda>_. 7, drive = (Answer [], 0), ticks = 0\<rparr>"]
    by (auto simp: small_lookup fields)
  from small_starts [OF b r(2)] r(1) show ?thesis by blast
qed

end
